(* ===== verification/Loom_Prelude.thy ===== *)
theory Loom_Prelude
  imports Main "HOL-Library.Word" "HOL-Library.List_Lexorder"
begin

unbundle bit_operations_syntax

text \<open>
  The prelude of the development: the machine types of the Rust sources, the result type that every
  fallible operation returns, big- and little-endian byte forms, slices and in-place writes of byte
  buffers, UTF-8 validity, and the generic lemmas the component theories share.

  \<^item> A \<^verbatim>\<open>u8\<close> .. \<^verbatim>\<open>u128\<close> is a word of that width, so that \<open>+\<close> wraps and the checked and saturating
    operations of the standard library are written out. A \<^verbatim>\<open>usize\<close> that only counts or indexes the
    bytes of a buffer is a \<open>nat\<close>.
  \<^item> A \<^verbatim>\<open>Vec<u8>\<close>, \<^verbatim>\<open>&[u8]\<close> or \<^verbatim>\<open>[u8; N]\<close> is a list of bytes; its derived order is the
    lexicographic order of \<open>List_Lexorder\<close>, as in Rust. A \<^verbatim>\<open>String\<close> is the list of its UTF-8 bytes,
    so its order is the same one.
  \<^item> A \<^verbatim>\<open>Result<T, E>\<close> is the sum \<open>'e + 'a\<close>, with \<open>Inl\<close> for the error; \<open>rbind\<close> is the question mark
    operator.
\<close>

section \<open>Machine types and results\<close>

type_synonym u8 = "8 word"
type_synonym u16 = "16 word"
type_synonym u32 = "32 word"
type_synonym u64 = "64 word"
type_synonym u128 = "128 word"
type_synonym bytes = "u8 list"

named_theorems result_simps
named_theorems buffer_simps

definition rbind :: "'e + 'a \<Rightarrow> ('a \<Rightarrow> 'e + 'b) \<Rightarrow> 'e + 'b" where
  "rbind m f = (case m of Inl e \<Rightarrow> Inl e | Inr x \<Rightarrow> f x)"

definition ok_or :: "'e \<Rightarrow> 'a option \<Rightarrow> 'e + 'a" where
  "ok_or e x = (case x of None \<Rightarrow> Inl e | Some y \<Rightarrow> Inr y)"

definition map_err :: "('e \<Rightarrow> 'f) \<Rightarrow> 'e + 'a \<Rightarrow> 'f + 'a" where
  "map_err g m = (case m of Inl e \<Rightarrow> Inl (g e) | Inr x \<Rightarrow> Inr x)"

fun rfold :: "('s \<Rightarrow> 'a \<Rightarrow> 'e + 's) \<Rightarrow> 's \<Rightarrow> 'a list \<Rightarrow> 'e + 's" where
  "rfold f s [] = Inr s"
| "rfold f s (x # xs) = rbind (f s x) (\<lambda>s'. rfold f s' xs)"

fun rmap :: "('a \<Rightarrow> 'e + 'b) \<Rightarrow> 'a list \<Rightarrow> 'e + 'b list" where
  "rmap f [] = Inr []"
| "rmap f (x # xs) = rbind (f x) (\<lambda>y. rbind (rmap f xs) (\<lambda>ys. Inr (y # ys)))"

lemma rbind_simps [simp]:
  "rbind (Inl e) f = Inl e"
  "rbind (Inr x) f = f x"
  by (simp_all add: rbind_def)

lemma rbind_eq_Inr [result_simps]: "rbind m f = Inr y \<longleftrightarrow> (\<exists>x. m = Inr x \<and> f x = Inr y)"
  by (cases m) auto

lemma rbind_eq_Inl [result_simps]:
  "rbind m f = Inl e \<longleftrightarrow> m = Inl e \<or> (\<exists>x. m = Inr x \<and> f x = Inl e)"
  by (cases m) auto

lemma rbind_cong [fundef_cong]:
  "m = m' \<Longrightarrow> (\<And>x. m' = Inr x \<Longrightarrow> f x = f' x) \<Longrightarrow> rbind m f = rbind m' f'"
  by (cases m') auto

lemma ok_or_simps [simp]:
  "ok_or e None = Inl e"
  "ok_or e (Some x) = Inr x"
  by (simp_all add: ok_or_def)

lemma ok_or_eq_Inr [result_simps]: "ok_or e x = Inr y \<longleftrightarrow> x = Some y"
  by (cases x) auto

lemma map_err_simps [simp]:
  "map_err g (Inl e) = Inl (g e)"
  "map_err g (Inr x) = Inr x"
  by (simp_all add: map_err_def)

lemma map_err_eq_Inr [result_simps]: "map_err g m = Inr y \<longleftrightarrow> m = Inr y"
  by (cases m) auto

lemma rmap_cong [fundef_cong]:
  "xs = ys \<Longrightarrow> (\<And>x. x \<in> set ys \<Longrightarrow> f x = g x) \<Longrightarrow> rmap f xs = rmap g ys"
  by (induction xs arbitrary: ys) auto

lemma rfold_cong [fundef_cong]:
  "xs = ys \<Longrightarrow> s = t \<Longrightarrow> (\<And>s x. x \<in> set ys \<Longrightarrow> f s x = g s x) \<Longrightarrow> rfold f s xs = rfold g t ys"
proof (induction ys arbitrary: xs s t)
  case Nil
  then show ?case by simp
next
  case (Cons y ys)
  have "rbind (g t y) (\<lambda>s'. rfold f s' ys) = rbind (g t y) (\<lambda>s'. rfold g s' ys)"
    by (rule rbind_cong [OF refl]) (rule Cons.IH [OF refl refl], simp add: Cons.prems(3))
  with Cons.prems show ?case by simp
qed

lemma rmap_Inr_iff: "rmap f xs = Inr ys \<longleftrightarrow> list_all2 (\<lambda>x y. f x = Inr y) xs ys"
proof (induction xs arbitrary: ys)
  case Nil
  show ?case by auto
next
  case (Cons x xs)
  show ?case by (cases ys) (auto simp: rbind_eq_Inr Cons.IH)
qed

lemma rmap_map_Inr: "(\<And>x. x \<in> set xs \<Longrightarrow> f (g x) = Inr (h x)) \<Longrightarrow> rmap f (map g xs) = Inr (map h xs)"
  by (induction xs) auto

section \<open>Checked and saturating arithmetic\<close>

definition checked_add :: "'a::len word \<Rightarrow> 'a word \<Rightarrow> 'a word option" where
  "checked_add a b = (if unat a + unat b < 2 ^ LENGTH('a) then Some (a + b) else None)"

definition saturating_add :: "'a::len word \<Rightarrow> 'a word \<Rightarrow> 'a word" where
  "saturating_add a b = (if unat a + unat b < 2 ^ LENGTH('a) then a + b else - 1)"

lemma unat_bound: "unat (w :: 'a::len word) < 2 ^ LENGTH('a)"
  by (rule unsigned_less)

text \<open>The same sums without natural numbers, for evaluation.\<close>

lemma add_fits: "unat (a :: 'a::len word) + unat b < 2 ^ LENGTH('a) \<longleftrightarrow> b \<le> - 1 - a"
proof -
  have "unat (- 1 - a) = unat (- 1 :: 'a word) - unat a" by (rule unat_sub) simp
  also have "unat (- 1 :: 'a word) = 2 ^ LENGTH('a) - 1" by (simp add: unsigned_minus_1_eq_mask mask_eq_exp_minus_1)
  finally show ?thesis unfolding word_le_nat_alt using unat_bound [of a] by linarith
qed

lemma checked_add_code [code]: "checked_add a b = (if b \<le> - 1 - a then Some (a + b) else None)"
  by (simp add: checked_add_def add_fits)

lemma saturating_add_code [code]: "saturating_add a b = (if b \<le> - 1 - a then a + b else - 1)"
  by (simp add: saturating_add_def add_fits)

lemma unat_max: "unat (- 1 :: 'a::len word) = 2 ^ LENGTH('a) - 1"
  by (simp add: unsigned_minus_1_eq_mask mask_eq_exp_minus_1)

lemma of_nat_unat: "word_of_nat (unat (w :: 'a::len word)) = w"
  by simp

lemma unat_ucast: "unat (ucast (w :: 'a::len word) :: 'b::len word) = unat w mod 2 ^ LENGTH('b)"
  by (simp add: unsigned_ucast_eq take_bit_eq_mod)

lemma unat_drop_bit: "unat (drop_bit k (w :: 'a::len word)) = unat w div 2 ^ k"
  unfolding unsigned_drop_bit_eq using unat_bound [of w] by (simp add: drop_bit_eq_div take_bit_nat_eq_self)

lemma checked_add_SomeD:
  assumes "checked_add (a :: 'a::len word) b = Some c"
  shows "c = a + b" and "unat c = unat a + unat b"
proof -
  from assms have c: "c = a + b" and lt: "unat a + unat b < 2 ^ LENGTH('a)"
    by (auto simp: checked_add_def split: if_splits)
  show "c = a + b" by (rule c)
  show "unat c = unat a + unat b" using lt by (simp add: c unat_word_ariths)
qed

lemma unat_saturating_add:
  "unat (saturating_add (a :: 'a::len word) b) = min (unat a + unat b) (2 ^ LENGTH('a) - 1)"
  by (auto simp: saturating_add_def unat_word_ariths unat_max min_def)

lemma saturating_add_ge: "(a :: 'a::len word) \<le> saturating_add a b"
proof -
  have "unat a \<le> 2 ^ LENGTH('a) - 1" using unat_bound [of a] by linarith
  then show ?thesis
    by (simp add: word_le_nat_alt unat_saturating_add)
qed

section \<open>Byte forms of integers\<close>

fun le_bytes :: "nat \<Rightarrow> nat \<Rightarrow> bytes" where
  "le_bytes 0 n = []"
| "le_bytes (Suc k) n = word_of_nat n # le_bytes k (n div 256)"

definition be_bytes :: "nat \<Rightarrow> nat \<Rightarrow> bytes" where
  "be_bytes k n = rev (le_bytes k n)"

fun from_le :: "bytes \<Rightarrow> nat" where
  "from_le [] = 0"
| "from_le (b # bs) = unat b + 256 * from_le bs"

definition from_be :: "bytes \<Rightarrow> nat" where
  "from_be bs = from_le (rev bs)"

lemma length_le_bytes [simp]: "length (le_bytes k n) = k"
  by (induction k arbitrary: n) auto

lemma length_be_bytes [simp]: "length (be_bytes k n) = k"
  by (simp add: be_bytes_def)

lemma unat_byte_of_nat: "unat (word_of_nat n :: u8) = n mod 256"
  by (simp add: unat_of_nat)

lemma from_le_le_bytes: "from_le (le_bytes k n) = n mod 256 ^ k"
proof (induction k arbitrary: n)
  case 0
  show ?case by simp
next
  case (Suc k)
  have "from_le (le_bytes (Suc k) n) = n mod 256 + 256 * (n div 256 mod 256 ^ k)"
    by (simp add: unat_byte_of_nat Suc.IH)
  also have "\<dots> = n mod (256 * 256 ^ k)"
    by (simp add: mod_mult2_eq)
  finally show ?case by simp
qed

lemma from_be_be_bytes: "from_be (be_bytes k n) = n mod 256 ^ k"
  by (simp add: from_be_def be_bytes_def from_le_le_bytes)

lemma from_le_bound: "from_le bs < 256 ^ length bs"
proof (induction bs)
  case Nil
  show ?case by simp
next
  case (Cons b bs)
  have "unat b < 256" using unat_bound [of b] by simp
  with Cons.IH show ?case by simp
qed

lemma from_be_bound: "from_be bs < 256 ^ length bs"
  using from_le_bound [of "rev bs"] by (simp add: from_be_def)

lemma le_bytes_from_le: "le_bytes (length bs) (from_le bs) = bs"
proof (induction bs)
  case Nil
  show ?case by simp
next
  case (Cons b bs)
  have "unat b < 256" using unat_bound [of b] by simp
  then have "(unat b + 256 * from_le bs) div 256 = from_le bs"
    by simp
  moreover have "(word_of_nat (unat b + 256 * from_le bs) :: u8) = b"
  proof (rule word_unat_eq_iff [THEN iffD2])
    show "unat (word_of_nat (unat b + 256 * from_le bs) :: u8) = unat b"
      using \<open>unat b < 256\<close> by (simp only: unat_byte_of_nat) simp
  qed
  ultimately show ?case using Cons.IH by simp
qed

lemma be_bytes_from_be: "be_bytes (length bs) (from_be bs) = bs"
  using le_bytes_from_le [of "rev bs"] by (simp add: be_bytes_def from_be_def)

lemma be_bytes_from_be': "length bs = k \<Longrightarrow> be_bytes k (from_be bs) = bs"
  using be_bytes_from_be [of bs] by simp

lemma le_bytes_from_le': "length bs = k \<Longrightarrow> le_bytes k (from_le bs) = bs"
  using le_bytes_from_le [of bs] by simp

definition u64_le :: "u64 \<Rightarrow> bytes" where "u64_le w = le_bytes 8 (unat w)"
definition u32_le :: "u32 \<Rightarrow> bytes" where "u32_le w = le_bytes 4 (unat w)"
definition u16_le :: "u16 \<Rightarrow> bytes" where "u16_le w = le_bytes 2 (unat w)"
definition u64_be :: "u64 \<Rightarrow> bytes" where "u64_be w = be_bytes 8 (unat w)"
definition u16_be :: "u16 \<Rightarrow> bytes" where "u16_be w = be_bytes 2 (unat w)"
definition u64_from_le :: "bytes \<Rightarrow> u64" where "u64_from_le bs = word_of_nat (from_le bs)"
definition u32_from_le :: "bytes \<Rightarrow> u32" where "u32_from_le bs = word_of_nat (from_le bs)"
definition u16_from_le :: "bytes \<Rightarrow> u16" where "u16_from_le bs = word_of_nat (from_le bs)"
definition u64_from_be :: "bytes \<Rightarrow> u64" where "u64_from_be bs = word_of_nat (from_be bs)"
definition u16_from_be :: "bytes \<Rightarrow> u16" where "u16_from_be bs = word_of_nat (from_be bs)"

lemma int_bytes_length [simp]:
  "length (u64_le a) = 8" "length (u32_le b) = 4" "length (u16_le c) = 2"
  "length (u64_be a) = 8" "length (u16_be c) = 2"
  by (simp_all add: u64_le_def u32_le_def u16_le_def u64_be_def u16_be_def)

lemma mod_unat_u64: "unat (w :: u64) mod 18446744073709551616 = unat w"
  using unat_bound [of w] by simp

lemma mod_unat_u32: "unat (w :: u32) mod 4294967296 = unat w"
  using unat_bound [of w] by simp

lemma mod_unat_u16: "unat (w :: u16) mod 65536 = unat w"
  using unat_bound [of w] by simp

lemma int_bytes_roundtrip [simp]:
  "u64_from_le (u64_le a) = a" "u32_from_le (u32_le b) = b" "u16_from_le (u16_le c) = c"
  "u64_from_be (u64_be a) = a" "u16_from_be (u16_be c) = c"
  by (simp_all add: u64_le_def u32_le_def u16_le_def u64_be_def u16_be_def u64_from_le_def
      u32_from_le_def u16_from_le_def u64_from_be_def u16_from_be_def from_le_le_bytes
      from_be_be_bytes mod_unat_u64 mod_unat_u32 mod_unat_u16)

lemma u64_be_from_be: "length bs = 8 \<Longrightarrow> u64_be (u64_from_be bs) = bs"
  using from_be_bound [of bs]
  by (simp add: u64_be_def u64_from_be_def unat_of_nat be_bytes_from_be')

lemma u32_le_from_le: "length bs = 4 \<Longrightarrow> u32_le (u32_from_le bs) = bs"
  using from_le_bound [of bs]
  by (simp add: u32_le_def u32_from_le_def unat_of_nat le_bytes_from_le')

lemma u64_le_from_le: "length bs = 8 \<Longrightarrow> u64_le (u64_from_le bs) = bs"
  using from_le_bound [of bs]
  by (simp add: u64_le_def u64_from_le_def unat_of_nat le_bytes_from_le')

section \<open>Slices and in-place writes\<close>

definition subslice :: "bytes \<Rightarrow> nat \<Rightarrow> nat \<Rightarrow> bytes" where
  "subslice b i j = take (j - i) (drop i b)"

definition put_at :: "bytes \<Rightarrow> nat \<Rightarrow> bytes \<Rightarrow> bytes" where
  "put_at s off b = take off s @ b @ drop (off + length b) s"

lemma length_subslice [simp]: "j \<le> length b \<Longrightarrow> length (subslice b i j) = j - i"
  by (simp add: subslice_def)

lemma length_put_at [buffer_simps]: "off + length b \<le> length s \<Longrightarrow> length (put_at s off b) = length s"
  by (simp add: put_at_def)

lemma nth_put_at:
  assumes "off + length b \<le> length s" and "i < length s"
  shows "put_at s off b ! i = (if off \<le> i \<and> i < off + length b then b ! (i - off) else s ! i)"
proof -
  have [simp]: "length (take off s) = off" using assms(1) by simp
  consider "i < off" | "off \<le> i" "i < off + length b" | "off + length b \<le> i" by linarith
  then show ?thesis
  proof cases
    case 1
    with assms show ?thesis by (simp add: put_at_def nth_append)
  next
    case 2
    then have "i - off < length b" by linarith
    with 2 assms show ?thesis by (simp add: put_at_def nth_append)
  next
    case 3
    then have "\<not> i - off < length b" and "off + length b + (i - off - length b) = i" by linarith+
    with 3 assms show ?thesis by (simp add: put_at_def nth_append)
  qed
qed

lemma subslice_put_at_same [buffer_simps]:
  "off + length b \<le> length s \<Longrightarrow> j = off + length b \<Longrightarrow> subslice (put_at s off b) off j = b"
  by (simp add: subslice_def put_at_def)

lemma subslice_put_at_other [buffer_simps]:
  assumes "off + length b \<le> length s" and "j \<le> length s" and "j \<le> off \<or> off + length b \<le> i"
  shows "subslice (put_at s off b) i j = subslice s i j"
proof (rule nth_equalityI)
  show "length (subslice (put_at s off b) i j) = length (subslice s i j)"
    using assms by (simp add: subslice_def length_put_at)
next
  fix k assume "k < length (subslice (put_at s off b) i j)"
  then have k: "k < j - i" using assms by (simp add: subslice_def length_put_at)
  have len: "length (put_at s off b) = length s" by (rule length_put_at) (rule assms(1))
  have "subslice (put_at s off b) i j ! k = put_at s off b ! (i + k)"
    using k assms len by (simp add: subslice_def)
  also have "\<dots> = s ! (i + k)"
    using k assms by (subst nth_put_at) auto
  also have "\<dots> = subslice s i j ! k"
    using k assms by (simp add: subslice_def)
  finally show "subslice (put_at s off b) i j ! k = subslice s i j ! k" .
qed

lemma nth_put_at_same [buffer_simps]:
  "off + length b \<le> length s \<Longrightarrow> off \<le> i \<Longrightarrow> i < off + length b \<Longrightarrow> put_at s off b ! i = b ! (i - off)"
  by (subst nth_put_at) auto

lemma nth_put_at_other [buffer_simps]:
  "off + length b \<le> length s \<Longrightarrow> i < length s \<Longrightarrow> i < off \<or> off + length b \<le> i \<Longrightarrow>
    put_at s off b ! i = s ! i"
  by (subst nth_put_at) auto

lemma subslice_append_left: "j \<le> length a \<Longrightarrow> subslice (a @ b) i j = subslice a i j"
  by (simp add: subslice_def)

lemma subslice_append_mid: "subslice (a @ b @ c) (length a) (length a + length b) = b"
  by (simp add: subslice_def)

lemma subslice_full: "subslice b 0 (length b) = b"
  by (simp add: subslice_def)

lemma subslice_replicate: "j \<le> n \<Longrightarrow> subslice (replicate n x) i j = replicate (j - i) x"
  by (simp add: subslice_def)

lemma subslice_split: "i \<le> j \<Longrightarrow> j \<le> k \<Longrightarrow> subslice b i j @ subslice b j k = subslice b i k"
proof -
  assume "i \<le> j" "j \<le> k"
  then have k: "k - i = (j - i) + (k - j)" and j: "drop j b = drop (j - i) (drop i b)" by simp_all
  show ?thesis
    unfolding subslice_def k take_add j ..
qed

section \<open>UTF-8\<close>

definition in_range :: "u8 \<Rightarrow> u8 \<Rightarrow> u8 \<Rightarrow> bool" where
  "in_range lo hi b \<longleftrightarrow> lo \<le> b \<and> b \<le> hi"

definition utf8_tail :: "u8 \<Rightarrow> bool" where
  "utf8_tail b = in_range 0x80 0xBF b"

fun utf8_valid :: "bytes \<Rightarrow> bool" where
  "utf8_valid [] = True"
| "utf8_valid (a # r) =
    (if a \<le> 0x7F then utf8_valid r
     else (case r of
        [] \<Rightarrow> False
      | b # r1 \<Rightarrow>
          if in_range 0xC2 0xDF a then utf8_tail b \<and> utf8_valid r1
          else (case r1 of
              [] \<Rightarrow> False
            | c # r2 \<Rightarrow>
                if (a = 0xE0 \<and> in_range 0xA0 0xBF b) \<or> (in_range 0xE1 0xEC a \<and> utf8_tail b)
                   \<or> (a = 0xED \<and> in_range 0x80 0x9F b) \<or> (in_range 0xEE 0xEF a \<and> utf8_tail b)
                then utf8_tail c \<and> utf8_valid r2
                else (case r2 of
                    [] \<Rightarrow> False
                  | d # r3 \<Rightarrow>
                      ((a = 0xF0 \<and> in_range 0x90 0xBF b) \<or> (in_range 0xF1 0xF3 a \<and> utf8_tail b)
                       \<or> (a = 0xF4 \<and> in_range 0x80 0x8F b))
                      \<and> utf8_tail c \<and> utf8_tail d \<and> utf8_valid r3))))"

definition ascii :: "string \<Rightarrow> bytes" where
  "ascii s = map (\<lambda>c. word_of_nat (of_char c)) s"

lemma utf8_valid_ascii: "list_all (\<lambda>b. b \<le> 0x7F) bs \<Longrightarrow> utf8_valid bs"
  by (induction bs) auto

section \<open>Searching a list\<close>

definition position :: "('a \<Rightarrow> bool) \<Rightarrow> 'a list \<Rightarrow> nat option" where
  "position P xs = (let i = length (takeWhile (\<lambda>x. \<not> P x) xs) in if i < length xs then Some i else None)"

lemma position_Some:
  assumes "position P xs = Some i"
  shows "i < length xs" and "P (xs ! i)" and "\<forall>x \<in> set (take i xs). \<not> P x"
    and "xs = take i xs @ xs ! i # drop (Suc i) xs"
proof -
  let ?w = "takeWhile (\<lambda>x. \<not> P x) xs"
  from assms have i: "i = length ?w" "i < length xs" by (auto simp: position_def Let_def split: if_splits)
  then show "i < length xs" by simp
  have "take i xs = ?w" using i(1) takeWhile_eq_take by metis
  then show "\<forall>x \<in> set (take i xs). \<not> P x" by (auto dest: set_takeWhileD)
  show "P (xs ! i)" using i nth_length_takeWhile [of "\<lambda>x. \<not> P x" xs] by simp
  show "xs = take i xs @ xs ! i # drop (Suc i) xs" using i(2) by (simp add: id_take_nth_drop)
qed

lemma position_None: "position P xs = None \<Longrightarrow> \<forall>x \<in> set xs. \<not> P x"
proof -
  assume "position P xs = None"
  then have "length xs \<le> length (takeWhile (\<lambda>x. \<not> P x) xs)" by (auto simp: position_def Let_def split: if_splits)
  then have "takeWhile (\<lambda>x. \<not> P x) xs = xs"
    by (metis length_takeWhile_le order_antisym take_all_iff takeWhile_eq_take)
  then show ?thesis by (metis set_takeWhileD)
qed

lemma position_map: "position P (map f xs) = position (\<lambda>x. P (f x)) xs"
  by (simp add: position_def takeWhile_map comp_def)

section \<open>Ordered maps\<close>

lemma map_le_lookup: "m \<subseteq>\<^sub>m m' \<Longrightarrow> m a = Some b \<Longrightarrow> m' a = Some b"
  by (metis domI map_le_def)

text \<open>
  A \<^verbatim>\<open>BTreeMap\<close> whose iteration order matters is the list of its entries in ascending key order, and
  lookup is \<open>map_of\<close>.
\<close>

fun bt_insert :: "'k::linorder \<Rightarrow> 'v \<Rightarrow> ('k \<times> 'v) list \<Rightarrow> ('k \<times> 'v) list" where
  "bt_insert k v [] = [(k, v)]"
| "bt_insert k v ((a, b) # m) =
    (if k < a then (k, v) # (a, b) # m
     else if k = a then (k, v) # m
     else (a, b) # bt_insert k v m)"

definition bt_remove :: "'k \<Rightarrow> ('k \<times> 'v) list \<Rightarrow> ('k \<times> 'v) list" where
  "bt_remove k m = filter (\<lambda>(a, b). a \<noteq> k) m"

definition bt_sorted :: "('k::linorder \<times> 'v) list \<Rightarrow> bool" where
  "bt_sorted m = sorted_wrt (<) (map fst m)"

lemma bt_sorted_Nil [simp]: "bt_sorted []"
  by (simp add: bt_sorted_def)

lemma bt_sorted_Cons: "bt_sorted ((a, b) # m) \<longleftrightarrow> (\<forall>k \<in> fst ` set m. a < k) \<and> bt_sorted m"
  by (auto simp: bt_sorted_def)

lemma bt_sorted_distinct: "bt_sorted m \<Longrightarrow> distinct (map fst m)"
  by (auto simp: bt_sorted_def strict_sorted_iff)

lemma map_of_bt_insert: "map_of (bt_insert k v m) = (map_of m)(k \<mapsto> v)"
  by (induction m) (auto simp: fun_eq_iff)

lemma bt_insert_ne [simp]: "bt_insert k v m \<noteq> []"
  by (induction k v m rule: bt_insert.induct) auto

lemma set_bt_insert_keys: "fst ` set (bt_insert k v m) = insert k (fst ` set m)"
  by (induction k v m rule: bt_insert.induct) (simp_all add: insert_commute)

lemma bt_sorted_insert [simp]: "bt_sorted m \<Longrightarrow> bt_sorted (bt_insert k v m)"
proof (induction m)
  case (Cons p m)
  obtain a b where p: "p = (a, b)" by force
  from Cons show ?case
    by (cases k a rule: linorder_cases) (auto simp: p bt_sorted_Cons set_bt_insert_keys)
qed (simp add: bt_sorted_Cons)

lemma map_of_bt_remove: "map_of (bt_remove k m) = (map_of m)(k := None)"
  by (induction m) (auto simp: bt_remove_def fun_eq_iff)

lemma bt_sorted_filter [simp]: "bt_sorted m \<Longrightarrow> bt_sorted (filter P m)"
  by (induction m) (auto simp: bt_sorted_Cons)

lemma bt_sorted_remove [simp]: "bt_sorted m \<Longrightarrow> bt_sorted (bt_remove k m)"
  by (simp add: bt_remove_def)

lemma bt_ext: "bt_sorted m \<Longrightarrow> bt_sorted m' \<Longrightarrow> map_of m = map_of m' \<Longrightarrow> m = m'"
proof -
  assume *: "bt_sorted m" "bt_sorted m'" "map_of m = map_of m'"
  then have "set m = set m'" using bt_sorted_distinct map_of_inject_set by blast
  moreover have "sorted_wrt (\<lambda>p q. fst p < fst q) m" "sorted_wrt (\<lambda>p q. fst p < fst q) m'"
    using *(1,2) by (simp_all add: bt_sorted_def sorted_wrt_map)
  ultimately show ?thesis
  proof (induction m arbitrary: m')
    case Nil
    then show ?case by simp
  next
    case (Cons p m)
    then obtain q n where m': "m' = q # n" by (cases m') auto
    have "p = q" using Cons.prems unfolding m' by (metis (no_types) insert_iff list.simps(15) order_less_asym sorted_wrt.simps(2))
    moreover have "p \<notin> set m" "q \<notin> set n" using Cons.prems unfolding m' by auto
    ultimately show ?case using Cons.IH [of n] Cons.prems unfolding m' by (auto simp: insert_ident)
  qed
qed

lemma bt_insert_append: "\<forall>a \<in> fst ` set m. a < k \<Longrightarrow> bt_insert k v m = m @ [(k, v)]"
  by (induction m) auto

end
