(* ===== verification/Loom_Codec.thy ===== *)
theory Loom_Codec
  imports Loom_Prelude
begin

text \<open>
  Loom Canonical CBOR, \<^verbatim>\<open>crates/loom-codec/src/lib.rs\<close>: the value model, the canonical encoder and the
  strict decoder. An \<^verbatim>\<open>f64\<close> is its 64-bit pattern; the two tests the codec makes on it are written on
  the bits. The \<^verbatim>\<open>Reader\<close> is its immutable buffer and a position that every read returns advanced.
\<close>

section \<open>Values and errors\<close>

definition EPOCH :: u64 where "EPOCH = 1"
definition MAX_DEPTH :: nat where "MAX_DEPTH = 128"

datatype Value =
    Uint u64
  | Nint u64
  | Bytes bytes
  | Text bytes
  | Array "Value list"
  | Map "(Value \<times> Value) list"
  | Float u64
  | Bool bool
  | Null

definition value_int :: "u64 \<Rightarrow> Value" where
  "value_int v = (if 0 \<le> sint v then Uint v else Nint (- 1 - v))"

datatype CodecError =
    UnexpectedEof
  | TrailingBytes
  | IndefiniteLength
  | NonMinimalInt
  | ReservedAdditionalInfo
  | InvalidUtf8
  | UnsortedMapKeys
  | DuplicateMapKey
  | TagNotAllowed
  | NonCanonicalFloat
  | UnsupportedSimpleValue
  | DepthExceeded
  | NotAnObject
  | WrongEpoch

definition f64_is_finite :: "u64 \<Rightarrow> bool" where
  "f64_is_finite f \<longleftrightarrow> f AND 0x7FF0000000000000 \<noteq> 0x7FF0000000000000"

definition f64_is_zero :: "u64 \<Rightarrow> bool" where
  "f64_is_zero f \<longleftrightarrow> f = 0 \<or> f = 0x8000000000000000"

definition f64_is_sign_negative :: "u64 \<Rightarrow> bool" where
  "f64_is_sign_negative f \<longleftrightarrow> 0x8000000000000000 \<le> f"

section \<open>Encoding\<close>

definition put_head :: "bytes \<Rightarrow> u8 \<Rightarrow> u64 \<Rightarrow> bytes" where
  "put_head out major arg = (let m = push_bit 5 major in
     if arg \<le> 23 then out @ [m OR ucast arg]
     else if arg \<le> 0xFF then out @ [m OR 24] @ [ucast arg]
     else if arg \<le> 0xFFFF then out @ [m OR 25] @ be_bytes 2 (unat arg)
     else if arg \<le> 0xFFFFFFFF then out @ [m OR 26] @ be_bytes 4 (unat arg)
     else out @ [m OR 27] @ be_bytes 8 (unat arg))"

fun adjacent_equal :: "bytes list \<Rightarrow> bool" where
  "adjacent_equal (a # b # r) = (a = b \<or> adjacent_equal (b # r))"
| "adjacent_equal _ = False"

fun encode_into :: "bytes \<Rightarrow> Value \<Rightarrow> CodecError + bytes" where
  "encode_into out (Uint n) = Inr (put_head out 0 n)"
| "encode_into out (Nint n) = Inr (put_head out 1 n)"
| "encode_into out (Bytes b) = Inr (put_head out 2 (of_nat (length b)) @ b)"
| "encode_into out (Text s) = Inr (put_head out 3 (of_nat (length s)) @ s)"
| "encode_into out (Array items) =
    rfold (\<lambda>o' item. encode_into o' item) (put_head out 4 (of_nat (length items))) items"
| "encode_into out (Map pairs) =
    rbind (rmap (\<lambda>(k, v). rbind (encode_into [] k) (\<lambda>kb. rbind (encode_into [] v) (\<lambda>vb. Inr (kb, vb)))) pairs)
      (\<lambda>enc. let encoded = sort_key fst enc in
        if adjacent_equal (map fst encoded) then Inl DuplicateMapKey
        else Inr (put_head out 5 (of_nat (length encoded)) @ concat (map (\<lambda>(k, v). k @ v) encoded)))"
| "encode_into out (Float f) =
    (if \<not> f64_is_finite f then Inl NonCanonicalFloat
     else let normalized = (if f64_is_zero f then 0 else f) in
       Inr (out @ [push_bit 5 7 OR 27] @ u64_be normalized))"
| "encode_into out (Bool b) = Inr (out @ [if b then 0xf5 else 0xf4])"
| "encode_into out Null = Inr (out @ [0xf6])"

definition encode :: "Value \<Rightarrow> CodecError + bytes" where
  "encode v = encode_into [] v"

definition encode_object :: "u16 \<Rightarrow> Value list \<Rightarrow> CodecError + bytes" where
  "encode_object type_code fields = encode (Array ([Uint EPOCH, Uint (ucast type_code)] @ fields))"

section \<open>Strict decoding\<close>

definition read_byte :: "bytes \<Rightarrow> nat \<Rightarrow> CodecError + (u8 \<times> nat)" where
  "read_byte buf pos = (if pos < length buf then Inr (buf ! pos, pos + 1) else Inl UnexpectedEof)"

definition read_take :: "bytes \<Rightarrow> nat \<Rightarrow> nat \<Rightarrow> CodecError + (bytes \<times> nat)" where
  "read_take buf pos n = (let end = pos + n in
     if end \<le> length buf then Inr (subslice buf pos end, end) else Inl UnexpectedEof)"

definition read_arg :: "bytes \<Rightarrow> nat \<Rightarrow> u8 \<Rightarrow> CodecError + (u64 \<times> nat)" where
  "read_arg buf pos ai =
    (if ai \<le> 23 then Inr (ucast ai, pos)
     else if ai = 24 then
       rbind (read_byte buf pos) (\<lambda>(b, p). let v = ucast b :: u64 in
         if v < 24 then Inl NonMinimalInt else Inr (v, p))
     else if ai = 25 then
       rbind (read_take buf pos 2) (\<lambda>(b, p). let v = u64_from_be b in
         if v \<le> 0xFF then Inl NonMinimalInt else Inr (v, p))
     else if ai = 26 then
       rbind (read_take buf pos 4) (\<lambda>(b, p). let v = u64_from_be b in
         if v \<le> 0xFFFF then Inl NonMinimalInt else Inr (v, p))
     else if ai = 27 then
       rbind (read_take buf pos 8) (\<lambda>(b, p). let v = u64_from_be b in
         if v \<le> 0xFFFFFFFF then Inl NonMinimalInt else Inr (v, p))
     else if ai \<le> 30 then Inl ReservedAdditionalInfo
     else Inl IndefiniteLength)"

definition simple_or_float :: "bytes \<Rightarrow> nat \<Rightarrow> u8 \<Rightarrow> CodecError + (Value \<times> nat)" where
  "simple_or_float buf pos ai =
    (if ai = 20 then Inr (Bool False, pos)
     else if ai = 21 then Inr (Bool True, pos)
     else if ai = 22 then Inr (Null, pos)
     else if ai = 25 \<or> ai = 26 then Inl NonCanonicalFloat
     else if ai = 27 then
       rbind (read_take buf pos 8) (\<lambda>(b, p). let f = u64_from_be b in
         if \<not> f64_is_finite f \<or> (f64_is_zero f \<and> f64_is_sign_negative f) then Inl NonCanonicalFloat
         else Inr (Float f, p))
     else Inl UnsupportedSimpleValue)"

definition check_key_order :: "bytes option \<Rightarrow> bytes \<Rightarrow> CodecError + unit" where
  "check_key_order prev key_bytes = (case prev of
      None \<Rightarrow> Inr ()
    | Some p \<Rightarrow> if p < key_bytes then Inr () else if key_bytes = p then Inl DuplicateMapKey
        else Inl UnsortedMapKeys)"

function read_value :: "bytes \<Rightarrow> nat \<Rightarrow> nat \<Rightarrow> CodecError + (Value \<times> nat)"
  and read_items :: "bytes \<Rightarrow> nat \<Rightarrow> nat \<Rightarrow> nat \<Rightarrow> CodecError + (Value list \<times> nat)"
  and read_pairs :: "bytes \<Rightarrow> nat \<Rightarrow> nat \<Rightarrow> bytes option \<Rightarrow> nat \<Rightarrow> CodecError + ((Value \<times> Value) list \<times> nat)"
where
  "read_value buf pos depth =
    (if depth > MAX_DEPTH then Inl DepthExceeded
     else rbind (read_byte buf pos) (\<lambda>(ib, p).
       let major = drop_bit 5 ib; ai = ib AND 0x1f in
       if major = 0 then rbind (read_arg buf p ai) (\<lambda>(n, p1). Inr (Uint n, p1))
       else if major = 1 then rbind (read_arg buf p ai) (\<lambda>(n, p1). Inr (Nint n, p1))
       else if major = 2 then
         rbind (read_arg buf p ai) (\<lambda>(n, p1).
         rbind (read_take buf p1 (unat n)) (\<lambda>(b, p2). Inr (Bytes b, p2)))
       else if major = 3 then
         rbind (read_arg buf p ai) (\<lambda>(n, p1).
         rbind (read_take buf p1 (unat n)) (\<lambda>(s, p2).
           if utf8_valid s then Inr (Text s, p2) else Inl InvalidUtf8))
       else if major = 4 then
         rbind (read_arg buf p ai) (\<lambda>(n, p1).
         rbind (read_items buf p1 (depth + 1) (unat n)) (\<lambda>(items, p2). Inr (Array items, p2)))
       else if major = 5 then
         rbind (read_arg buf p ai) (\<lambda>(n, p1).
         rbind (read_pairs buf p1 (depth + 1) None (unat n)) (\<lambda>(pairs, p2). Inr (Map pairs, p2)))
       else if major = 6 then Inl TagNotAllowed
       else simple_or_float buf p ai))"
| "read_items buf pos depth 0 = Inr ([], pos)"
| "read_items buf pos depth (Suc n) =
    rbind (read_value buf pos depth) (\<lambda>(v, p).
    rbind (read_items buf p depth n) (\<lambda>(vs, p1). Inr (v # vs, p1)))"
| "read_pairs buf pos depth prev 0 = Inr ([], pos)"
| "read_pairs buf pos depth prev (Suc n) =
    rbind (read_value buf pos depth) (\<lambda>(key, p).
    let key_bytes = subslice buf pos p in
    rbind (check_key_order prev key_bytes) (\<lambda>_.
    rbind (read_value buf p depth) (\<lambda>(val, p1).
    rbind (read_pairs buf p1 depth (Some key_bytes) n) (\<lambda>(pairs, p2). Inr ((key, val) # pairs, p2)))))"
  by pat_completeness auto
termination
  by (relation "measures [\<lambda>x. case x of
          Inl (_, _, d) \<Rightarrow> 2 * (Suc MAX_DEPTH - d)
        | Inr (Inl (_, _, d, _)) \<Rightarrow> Suc (2 * (Suc MAX_DEPTH - d))
        | Inr (Inr (_, _, d, _, _)) \<Rightarrow> Suc (2 * (Suc MAX_DEPTH - d)),
      \<lambda>x. case x of Inl _ \<Rightarrow> 0 | Inr (Inl (_, _, _, n)) \<Rightarrow> n | Inr (Inr (_, _, _, _, n)) \<Rightarrow> n]")
    (auto simp: Suc_diff_le)

definition decode :: "bytes \<Rightarrow> CodecError + Value" where
  "decode bs = rbind (read_value bs 0 0) (\<lambda>(v, pos).
     if pos \<noteq> length bs then Inl TrailingBytes else Inr v)"

definition decode_object :: "bytes \<Rightarrow> CodecError + (u16 \<times> Value list)" where
  "decode_object bs = rbind (decode bs) (\<lambda>v. case v of
      Array items \<Rightarrow>
        if length items < 2 then Inl NotAnObject
        else (case items ! 0 of
            Uint epoch \<Rightarrow>
              if epoch \<noteq> EPOCH then Inl WrongEpoch
              else (case items ! 1 of
                  Uint t \<Rightarrow> if t \<le> 0xFFFF then Inr (ucast t, drop 2 items) else Inl NotAnObject
                | _ \<Rightarrow> Inl NotAnObject)
          | _ \<Rightarrow> Inl NotAnObject)
    | _ \<Rightarrow> Inl NotAnObject)"

section \<open>The encoder as a function of the value alone\<close>

declare read_value.simps [simp del]

definition head_bytes :: "u8 \<Rightarrow> u64 \<Rightarrow> bytes" where
  "head_bytes major arg = put_head [] major arg"

lemma put_head_append: "put_head out major arg = out @ head_bytes major arg"
  by (simp add: put_head_def head_bytes_def Let_def)

definition encode_pair :: "Value \<times> Value \<Rightarrow> CodecError + (bytes \<times> bytes)" where
  "encode_pair p = rbind (encode (fst p)) (\<lambda>kb. rbind (encode (snd p)) (\<lambda>vb. Inr (kb, vb)))"

lemma rfold_append:
  assumes "\<And>o' x. x \<in> set xs \<Longrightarrow> f o' x = rbind (g x) (\<lambda>b. Inr (o' @ b))"
  shows "rfold f out xs = rbind (rmap g xs) (\<lambda>bs. Inr (out @ concat bs))"
  using assms
proof (induction xs arbitrary: out)
  case Nil
  show ?case by simp
next
  case (Cons x xs)
  show ?case
  proof (cases "g x")
    case (Inl e)
    then show ?thesis using Cons.prems by simp
  next
    case (Inr b)
    have "rfold f (out @ b) xs = rbind (rmap g xs) (\<lambda>bs. Inr ((out @ b) @ concat bs))"
      by (rule Cons.IH) (simp add: Cons.prems)
    then show ?thesis using Cons.prems Inr by (cases "rmap g xs") simp_all
  qed
qed

lemma encode_into_encode: "encode_into out v = rbind (encode v) (\<lambda>b. Inr (out @ b))"
proof (induction v arbitrary: out)
  case (Array vs)
  have "rfold encode_into o' vs = rbind (rmap encode vs) (\<lambda>bs. Inr (o' @ concat bs))" for o'
    by (rule rfold_append) (rule Array.IH)
  then show ?case
    by (cases "rmap encode vs") (simp_all add: encode_def put_head_append)
next
  case (Map ps)
  show ?case
    by (auto simp: encode_def put_head_append Let_def rbind_def split: sum.split)
qed (auto simp: encode_def put_head_append Let_def)

lemma encode_simps:
  "encode (Uint n) = Inr (head_bytes 0 n)"
  "encode (Nint n) = Inr (head_bytes 1 n)"
  "encode (Bytes b) = Inr (head_bytes 2 (of_nat (length b)) @ b)"
  "encode (Text b) = Inr (head_bytes 3 (of_nat (length b)) @ b)"
  "encode (Array vs) = rbind (rmap encode vs)
     (\<lambda>bs. Inr (head_bytes 4 (of_nat (length vs)) @ concat bs))"
  "encode (Map ps) = rbind (rmap encode_pair ps) (\<lambda>enc. let encoded = sort_key fst enc in
     if adjacent_equal (map fst encoded) then Inl DuplicateMapKey
     else Inr (head_bytes 5 (of_nat (length encoded)) @ concat (map (\<lambda>(k, v). k @ v) encoded)))"
  "encode (Float f) = (if f64_is_finite f
     then Inr ([0xfb] @ u64_be (if f64_is_zero f then 0 else f)) else Inl NonCanonicalFloat)"
  "encode (Bool t) = Inr [if t then 0xf5 else 0xf4]"
  "encode Null = Inr [0xf6]"
proof -
  have "encode (Array vs) = rfold encode_into (head_bytes 4 (of_nat (length vs))) vs"
    by (simp add: encode_def head_bytes_def)
  then show "encode (Array vs) = rbind (rmap encode vs)
     (\<lambda>bs. Inr (head_bytes 4 (of_nat (length vs)) @ concat bs))"
    using rfold_append [OF encode_into_encode] by simp
  have "encode_pair = (\<lambda>(k, v). rbind (encode_into [] k) (\<lambda>kb. rbind (encode_into [] v) (\<lambda>vb. Inr (kb, vb))))"
    by (rule ext) (simp add: encode_pair_def encode_def split_beta)
  then show "encode (Map ps) = rbind (rmap encode_pair ps) (\<lambda>enc. let encoded = sort_key fst enc in
     if adjacent_equal (map fst encoded) then Inl DuplicateMapKey
     else Inr (head_bytes 5 (of_nat (length encoded)) @ concat (map (\<lambda>(k, v). k @ v) encoded)))"
    by (auto simp: encode_def put_head_append Let_def rbind_def split: sum.split)
qed (simp_all add: encode_def put_head_append Let_def)

section \<open>Reading what was written\<close>

definition consumed :: "bytes \<Rightarrow> nat \<Rightarrow> bytes \<Rightarrow> nat \<Rightarrow> bool" where
  "consumed buf pos bs pos' \<longleftrightarrow> pos' = pos + length bs \<and> pos' \<le> length buf \<and> subslice buf pos pos' = bs"

lemma consumed_Nil [simp]: "consumed buf p [] q \<longleftrightarrow> q = p \<and> p \<le> length buf"
  by (auto simp: consumed_def subslice_def)

lemma consumed_append:
  "consumed buf p (a @ b) r \<longleftrightarrow> consumed buf p a (p + length a) \<and> consumed buf (p + length a) b r"
proof
  assume "consumed buf p (a @ b) r"
  then have r: "r = p + length a + length b" "r \<le> length buf" and s: "subslice buf p r = a @ b"
    by (auto simp: consumed_def)
  have "subslice buf p (p + length a) @ subslice buf (p + length a) r = a @ b"
    using subslice_split [of p "p + length a" r buf] r s by simp
  then have "subslice buf p (p + length a) = a \<and> subslice buf (p + length a) r = b"
    by (rule append_eq_append_conv [THEN iffD1, rotated]) (use r in simp)
  with r show "consumed buf p a (p + length a) \<and> consumed buf (p + length a) b r"
    by (simp add: consumed_def)
next
  assume *: "consumed buf p a (p + length a) \<and> consumed buf (p + length a) b r"
  then have "subslice buf p r = a @ b"
    using subslice_split [of p "p + length a" r buf] by (auto simp: consumed_def)
  with * show "consumed buf p (a @ b) r" by (simp add: consumed_def)
qed

lemma consumed_Cons:
  "consumed buf p (x # b) r \<longleftrightarrow> read_byte buf p = Inr (x, p + 1) \<and> consumed buf (p + 1) b r"
proof -
  have "consumed buf p [x] (p + 1) \<longleftrightarrow> read_byte buf p = Inr (x, p + 1)"
    by (auto simp: consumed_def read_byte_def subslice_def take_Suc hd_drop_conv_nth split: if_splits)
  then show ?thesis using consumed_append [of buf p "[x]" b r] by simp
qed

lemma consumed_pos: "consumed buf p bs q \<Longrightarrow> q = p + length bs"
  by (simp add: consumed_def)

lemma read_byte_consumed: "read_byte buf p = Inr (x, q) \<longleftrightarrow> consumed buf p [x] q"
  by (auto simp: consumed_Cons read_byte_def split: if_splits)

lemma read_take_consumed: "read_take buf p n = Inr (bs, q) \<longleftrightarrow> consumed buf p bs q \<and> n = length bs"
  by (auto simp: consumed_def read_take_def Let_def split: if_splits)

lemma consumed_trans: "consumed buf p a q \<Longrightarrow> consumed buf q b r \<Longrightarrow> consumed buf p (a @ b) r"
  using consumed_append consumed_pos by blast

lemma consumed_subslice: "consumed buf p bs q \<Longrightarrow> subslice buf p q = bs"
  by (auto simp: consumed_def)

section \<open>Heads: the initial byte and its argument\<close>

lemma head_byte_fields:
  assumes "m < (8 :: u8)" and "a < 32"
  shows "drop_bit 5 (push_bit 5 m OR a) = m" and "(push_bit 5 m OR a) AND 0x1f = a"
proof -
  have "\<forall>i \<in> set [0..<8]. \<forall>j \<in> set [0..<32].
      drop_bit 5 (push_bit 5 (word_of_nat i) OR word_of_nat j) = (word_of_nat i :: u8)
      \<and> (push_bit 5 (word_of_nat i) OR word_of_nat j) AND 0x1f = (word_of_nat j :: u8)"
    by code_simp
  moreover have "unat m \<in> set [0..<8]" and "unat a \<in> set [0..<32]"
    using assms by (simp_all add: word_less_nat_alt)
  ultimately have "drop_bit 5 (push_bit 5 m OR a) = m \<and> (push_bit 5 m OR a) AND 0x1f = a"
    by (metis of_nat_unat)
  then show "drop_bit 5 (push_bit 5 m OR a) = m" and "(push_bit 5 m OR a) AND 0x1f = a" by simp_all
qed

lemma head_byte_split:
  "push_bit 5 (drop_bit 5 x) OR (x AND 0x1f) = (x :: u8)"
  "drop_bit 5 x < (8 :: u8)"
  "x AND 0x1f < (32 :: u8)"
proof -
  have mask: "x AND 0x1f = take_bit 5 x" by (simp add: take_bit_eq_mask mask_eq_exp_minus_1)
  show "push_bit 5 (drop_bit 5 x) OR (x AND 0x1f) = x"
    unfolding mask by (rule bit_eqI) (auto simp: bit_or_iff bit_push_bit_iff bit_drop_bit_eq bit_take_bit_iff)
  show "drop_bit 5 x < 8"
    using unat_bound [of x]
    by (simp only: word_less_nat_alt unat_drop_bit_eq) (simp add: drop_bit_eq_div)
  show "x AND 0x1f < 32"
    unfolding mask by (simp only: word_less_nat_alt unsigned_take_bit_eq) (simp add: take_bit_eq_mod)
qed

lemma head_byte_inj:
  "m < (8 :: u8) \<Longrightarrow> a < 32 \<Longrightarrow> b < 32 \<Longrightarrow> push_bit 5 m OR a = push_bit 5 m OR b \<Longrightarrow> a = b"
  by (metis head_byte_fields(2))

lemma unat_u64_from_be: "length b \<le> 8 \<Longrightarrow> unat (u64_from_be b) = from_be b"
proof -
  assume "length b \<le> 8"
  then have "(256 :: nat) ^ length b \<le> 256 ^ 8" by (rule power_increasing) simp
  then have "from_be b < 18446744073709551616" using from_be_bound [of b] by simp
  then show ?thesis by (simp add: u64_from_be_def unat_of_nat)
qed

lemma u64_from_be_be_bytes: "unat n < 256 ^ k \<Longrightarrow> u64_from_be (be_bytes k (unat n)) = n"
  by (simp add: u64_from_be_def from_be_be_bytes)

lemma be_bytes_u64_from_be: "length b = k \<Longrightarrow> k \<le> 8 \<Longrightarrow> be_bytes k (unat (u64_from_be b)) = b"
  by (simp add: unat_u64_from_be be_bytes_from_be')

lemma head_bytes_eq:
  "head_bytes m n =
    (if n \<le> 23 then [push_bit 5 m OR ucast n]
     else if n \<le> 0xFF then [push_bit 5 m OR 24, ucast n]
     else if n \<le> 0xFFFF then (push_bit 5 m OR 25) # be_bytes 2 (unat n)
     else if n \<le> 0xFFFFFFFF then (push_bit 5 m OR 26) # be_bytes 4 (unat n)
     else (push_bit 5 m OR 27) # be_bytes 8 (unat n))"
  by (simp add: head_bytes_def put_head_def Let_def)

lemma ucast_u8_small: "n \<le> (0xFF :: u64) \<Longrightarrow> ucast (ucast n :: u8) = n"
  by (simp add: word_le_nat_alt unat_ucast word_unat_eq_iff)

lemma ucast_u8_u64: "ucast (ucast (b :: u8) :: u64) = b"
  using unat_bound [of b] by (simp add: word_unat_eq_iff unat_ucast)

lemma ucast_le_23: "n \<le> (23 :: u64) \<Longrightarrow> (ucast n :: u8) \<le> 23"
  by (simp add: word_le_nat_alt unat_ucast)

lemma read_take_pos: "read_take buf p k = Inr (b, q) \<Longrightarrow> length b = k \<and> consumed buf p b q"
  by (simp add: read_take_consumed)

lemma head_of_read_arg:
  assumes "m < 8" and "ai < 32" and "read_arg buf p ai = Inr (n, q)"
    and "p \<le> length buf"
  shows "\<exists>tail. head_bytes m n = (push_bit 5 m OR ai) # tail \<and> consumed buf p tail q"
proof -
  consider "ai \<le> 23" | "ai = 24" | "ai = 25" | "ai = 26" | "ai = 27" | "\<not> ai \<le> 23" "27 < ai"
    by (simp add: word_le_nat_alt word_less_nat_alt word_unat_eq_iff) linarith
  then show ?thesis
  proof cases
    case 1
    then have "n = ucast ai" "q = p" using assms(3) by (simp_all add: read_arg_def)
    moreover from 1 have "(ucast ai :: u64) \<le> 23" by (simp add: word_le_nat_alt unat_ucast)
    moreover have "ucast (ucast ai :: u64) = ai" by (rule ucast_u8_u64)
    ultimately show ?thesis using assms(4) by (simp add: head_bytes_eq)
  next
    case 2
    with assms(3) obtain b where b: "read_byte buf p = Inr (b, q)" "n = ucast b" "\<not> n < 24"
      by (auto simp: read_arg_def result_simps Let_def split: if_splits)
    then have "\<not> n \<le> 23" by (simp add: word_le_nat_alt word_less_nat_alt)
    moreover have "n \<le> 0xFF" using unat_bound [of b] b(2)
      by (simp add: word_le_nat_alt unat_ucast)
    moreover have "ucast n = b" using b(2) by (simp add: ucast_u8_u64)
    ultimately show ?thesis using 2 b(1) by (simp add: head_bytes_eq read_byte_consumed)
  next
    case 3
    with assms(3) obtain b where b: "read_take buf p 2 = Inr (b, q)" "n = u64_from_be b" "\<not> n \<le> 0xFF"
      by (auto simp: read_arg_def result_simps Let_def split: if_splits)
    note c = read_take_pos [OF b(1)]
    then have "n \<le> 0xFFFF" using from_be_bound [of b] by (simp add: b(2) word_le_nat_alt unat_u64_from_be)
    moreover have "\<not> n \<le> 23" using b(3) by (simp add: word_le_nat_alt)
    ultimately show ?thesis using 3 b c by (auto simp: head_bytes_eq be_bytes_u64_from_be)
  next
    case 4
    with assms(3) obtain b where b: "read_take buf p 4 = Inr (b, q)" "n = u64_from_be b" "\<not> n \<le> 0xFFFF"
      by (auto simp: read_arg_def result_simps Let_def split: if_splits)
    note c = read_take_pos [OF b(1)]
    then have "n \<le> 0xFFFFFFFF" using from_be_bound [of b] by (simp add: b(2) word_le_nat_alt unat_u64_from_be)
    moreover have "\<not> n \<le> 23" "\<not> n \<le> 0xFF" using b(3) by (simp_all add: word_le_nat_alt)
    ultimately show ?thesis using 4 b c by (auto simp: head_bytes_eq be_bytes_u64_from_be)
  next
    case 5
    with assms(3) obtain b where b: "read_take buf p 8 = Inr (b, q)" "n = u64_from_be b" "\<not> n \<le> 0xFFFFFFFF"
      by (auto simp: read_arg_def result_simps Let_def split: if_splits)
    note c = read_take_pos [OF b(1)]
    moreover have "\<not> n \<le> 23" "\<not> n \<le> 0xFF" "\<not> n \<le> 0xFFFF" using b(3) by (simp_all add: word_le_nat_alt)
    ultimately show ?thesis using 5 b by (auto simp: head_bytes_eq be_bytes_u64_from_be)
  next
    case 6
    then have "ai \<noteq> 24" "ai \<noteq> 25" "ai \<noteq> 26" "ai \<noteq> 27" by auto
    with 6 assms(3) show ?thesis by (simp add: read_arg_def split: if_splits)
  qed
qed

lemma read_arg_of_head:
  assumes "head_bytes m n = (push_bit 5 m OR ai) # tail" and "consumed buf p tail q"
    and "m < 8" and "ai < 32"
  shows "read_arg buf p ai = Inr (n, q)"
proof -
  have inj: "push_bit 5 m OR a = push_bit 5 m OR ai \<Longrightarrow> a < 32 \<Longrightarrow> a = ai" for a
    using head_byte_inj assms(3,4) by blast
  consider "n \<le> 23" | "\<not> n \<le> 23" "n \<le> 0xFF" | "\<not> n \<le> 0xFF" "n \<le> 0xFFFF"
    | "\<not> n \<le> 0xFFFF" "n \<le> 0xFFFFFFFF" | "\<not> n \<le> 0xFFFFFFFF" by blast
  then show ?thesis
  proof cases
    case 1
    then have "(ucast n :: u8) \<le> 23" by (rule ucast_le_23)
    moreover from this have "ucast n = ai"
      using assms(1) 1 by (intro inj) (auto simp: head_bytes_eq word_le_nat_alt word_less_nat_alt)
    moreover have "ucast (ucast n :: u8) = n" using 1 by (intro ucast_u8_small) (simp add: word_le_nat_alt)
    ultimately show ?thesis using 1 assms(1,2) by (auto simp: head_bytes_eq read_arg_def)
  next
    case 2
    then have "ai = 24" using assms(1) inj [of 24] by (auto simp: head_bytes_eq)
    moreover have "\<not> n < 24" using 2(1) by (simp add: word_le_nat_alt word_less_nat_alt)
    ultimately show ?thesis using 2 assms(1,2)
      by (auto simp: head_bytes_eq read_arg_def read_byte_consumed [symmetric] ucast_u8_small)
  next
    case 3
    then have n: "\<not> n \<le> 23" by (simp add: word_le_nat_alt)
    with 3 have "ai = 25" "tail = be_bytes 2 (unat n)" using assms(1) inj [of 25] by (auto simp: head_bytes_eq)
    then have "read_take buf p 2 = Inr (be_bytes 2 (unat n), q)" "ai = 25"
      using assms(2) by (simp_all add: read_take_consumed)
    moreover have "u64_from_be (be_bytes 2 (unat n)) = n"
      using 3 by (intro u64_from_be_be_bytes) (simp add: word_le_nat_alt)
    ultimately show ?thesis using 3 by (simp add: read_arg_def)
  next
    case 4
    then have n: "\<not> n \<le> 23" "\<not> n \<le> 0xFF" by (simp_all add: word_le_nat_alt)
    with 4 have "ai = 26" "tail = be_bytes 4 (unat n)" using assms(1) inj [of 26] by (auto simp: head_bytes_eq)
    then have "read_take buf p 4 = Inr (be_bytes 4 (unat n), q)" "ai = 26"
      using assms(2) by (simp_all add: read_take_consumed)
    moreover have "u64_from_be (be_bytes 4 (unat n)) = n"
      using 4 by (intro u64_from_be_be_bytes) (simp add: word_le_nat_alt)
    ultimately show ?thesis using 4 by (simp add: read_arg_def)
  next
    case 5
    then have n: "\<not> n \<le> 23" "\<not> n \<le> 0xFF" "\<not> n \<le> 0xFFFF" by (simp_all add: word_le_nat_alt)
    with 5 have "ai = 27" "tail = be_bytes 8 (unat n)" using assms(1) inj [of 27] by (auto simp: head_bytes_eq)
    then have "read_take buf p 8 = Inr (be_bytes 8 (unat n), q)" "ai = 27"
      using assms(2) by (simp_all add: read_take_consumed)
    moreover have "u64_from_be (be_bytes 8 (unat n)) = n"
      using unat_bound [of n] by (intro u64_from_be_be_bytes) simp
    ultimately show ?thesis using 5 by (simp add: read_arg_def)
  qed
qed

lemma consumed_head:
  assumes "read_byte buf pos = Inr (ib, p)" and "read_arg buf p (ib AND 0x1f) = Inr (n, q)"
  shows "consumed buf pos (head_bytes (drop_bit 5 ib) n) q"
proof -
  have c: "consumed buf pos [ib] p" using assms(1) by (simp add: read_byte_consumed)
  then have "p \<le> length buf" by (auto simp: consumed_def)
  from head_of_read_arg [OF head_byte_split(2) [of ib] head_byte_split(3) assms(2) this]
  obtain tail where "head_bytes (drop_bit 5 ib) n = ib # tail" "consumed buf p tail q"
    by (auto simp: head_byte_split)
  with consumed_trans [OF c] show ?thesis by simp
qed

lemma head_bytes_Cons: "\<exists>ai tail. head_bytes m n = (push_bit 5 m OR ai) # tail \<and> ai < 32"
proof (cases "n \<le> 23")
  case True
  then have "(ucast n :: u8) < 32"
    using ucast_le_23 [of n] by (simp add: word_le_nat_alt word_less_nat_alt)
  with True show ?thesis by (auto simp: head_bytes_eq)
next
  case False
  have "(24 :: u8) < 32" "(25 :: u8) < 32" "(26 :: u8) < 32" "(27 :: u8) < 32" by simp_all
  with False show ?thesis by (auto simp: head_bytes_eq)
qed

lemma read_head:
  assumes "consumed buf pos (head_bytes m n @ r) q" and "m < 8"
  obtains ib p1 where "read_byte buf pos = Inr (ib, pos + 1)" and "drop_bit 5 ib = m"
    and "read_arg buf (pos + 1) (ib AND 0x1f) = Inr (n, p1)" and "consumed buf p1 r q"
proof -
  obtain ai tail where h: "head_bytes m n = (push_bit 5 m OR ai) # tail" "ai < 32"
    using head_bytes_Cons by blast
  with assms(1) have b: "read_byte buf pos = Inr (push_bit 5 m OR ai, pos + 1)"
    and t: "consumed buf (pos + 1) tail (pos + 1 + length tail)"
    and r: "consumed buf (pos + 1 + length tail) r q"
    by (simp_all add: consumed_Cons consumed_append)
  from read_arg_of_head [OF h(1) t assms(2) h(2)]
  have "read_arg buf (pos + 1) ((push_bit 5 m OR ai) AND 0x1f) = Inr (n, pos + 1 + length tail)"
    using head_byte_fields [OF assms(2) h(2)] by simp
  with that b r head_byte_fields(1) [OF assms(2) h(2)] show thesis by blast
qed

section \<open>Every accepted byte string is the canonical encoding of its value\<close>

definition ordered_from :: "bytes option \<Rightarrow> bytes list \<Rightarrow> bool" where
  "ordered_from prev ks = sorted_wrt (<) (case prev of None \<Rightarrow> ks | Some p \<Rightarrow> p # ks)"

lemma ordered_from_Cons:
  "ordered_from prev (k # ks) \<longleftrightarrow> check_key_order prev k = Inr () \<and> ordered_from (Some k) ks"
  by (auto simp: ordered_from_def check_key_order_def split: option.splits)

lemma ordered_from_None: "ordered_from None ks = sorted_wrt (<) ks"
  by (simp add: ordered_from_def)

lemma ordered_from_sorted: "ordered_from prev ks \<Longrightarrow> sorted_wrt (<) ks"
  by (simp add: ordered_from_def split: option.splits)

lemma not_adjacent_equal_strict: "sorted ks \<Longrightarrow> \<not> adjacent_equal ks \<longleftrightarrow> sorted_wrt (<) ks"
proof (induction ks rule: adjacent_equal.induct)
  case (1 a b r)
  then have "\<not> adjacent_equal (b # r) \<longleftrightarrow> sorted_wrt (<) (b # r)" by simp
  moreover have "a \<le> b" "\<forall>x \<in> set r. b \<le> x" using 1(2) by simp_all
  moreover have "a \<noteq> b \<Longrightarrow> a < b" using \<open>a \<le> b\<close> by simp
  ultimately show ?case by (cases "a = b") (auto dest: order.strict_trans2)
qed auto

lemma sort_key_sorted: "sorted (map f xs) \<Longrightarrow> sort_key f xs = xs"
  by (induction xs) (auto intro: insort_is_Cons)

lemma encode_Map_ordered:
  assumes "rmap encode_pair ps = Inr es" and "sorted_wrt (<) (map fst es)"
  shows "encode (Map ps) = Inr (head_bytes 5 (of_nat (length ps)) @ concat (map (\<lambda>(k, v). k @ v) es))"
proof -
  have s: "sorted (map fst es)" using assms(2) by (rule strict_sorted_imp_sorted)
  have "length es = length ps"
    using assms(1) by (auto simp: rmap_Inr_iff dest: list_all2_lengthD)
  with s assms show ?thesis
    by (simp add: encode_simps sort_key_sorted not_adjacent_equal_strict)
qed

lemma simple_or_float_encode:
  assumes "simple_or_float buf p (ib AND 0x1f) = Inr (v, q)" and "read_byte buf pos = Inr (ib, p)"
    and "drop_bit 5 ib = 7"
  shows "\<exists>bs. encode v = Inr bs \<and> consumed buf pos bs q"
proof -
  have ib: "ib = push_bit 5 7 OR (ib AND 0x1f)" using head_byte_split(1) [of ib] assms(3) by simp
  have c: "consumed buf pos [ib] p" using assms(2) by (simp add: read_byte_consumed)
  consider "ib AND 0x1f = 20" "v = Bool False" "q = p" | "ib AND 0x1f = 21" "v = Bool True" "q = p"
    | "ib AND 0x1f = 22" "v = Null" "q = p"
    | f b where "ib AND 0x1f = 27" "read_take buf p 8 = Inr (b, q)" "f = u64_from_be b" "v = Float f"
        "f64_is_finite f" "\<not> (f64_is_zero f \<and> f64_is_sign_negative f)"
    using assms(1) by (auto simp: simple_or_float_def result_simps Let_def split: if_splits)
  then show ?thesis
  proof cases
    case (4 f b)
    then have b: "length b = 8" "consumed buf p b q" by (simp_all add: read_take_pos)
    have "(if f64_is_zero f then 0 else f) = f"
      using 4(6) by (auto simp: f64_is_zero_def f64_is_sign_negative_def)
    then have "encode v = Inr ([0xfb] @ u64_be f)" using 4(4,5) by (simp add: encode_simps)
    moreover have "u64_be f = b" using b(1) 4(3) by (simp add: u64_be_from_be)
    moreover have "ib = 0xfb" using ib 4(1) by simp
    ultimately have "encode v = Inr ([ib] @ b)" by simp
    with consumed_trans [OF c b(2)] show ?thesis by blast
  qed (use c ib in \<open>simp_all add: encode_simps\<close>)
qed

lemma major_seven:
  fixes m :: u8
  assumes "m < 8" "m \<noteq> 0" "m \<noteq> 1" "m \<noteq> 2" "m \<noteq> 3" "m \<noteq> 4" "m \<noteq> 5" "m \<noteq> 6"
  shows "m = 7"
  using assms by (simp add: word_less_nat_alt word_unat_eq_iff)

lemma read_items_sound:
  assumes "\<And>pos v q. read_value buf pos d = Inr (v, q) \<Longrightarrow> \<exists>bs. encode v = Inr bs \<and> consumed buf pos bs q"
  shows "read_items buf pos d n = Inr (vs, q) \<Longrightarrow> pos \<le> length buf \<Longrightarrow>
    \<exists>bss. rmap encode vs = Inr bss \<and> length vs = n \<and> consumed buf pos (concat bss) q"
proof (induction n arbitrary: pos vs)
  case 0
  then show ?case by simp
next
  case (Suc n)
  then obtain v p vs' where r: "read_value buf pos d = Inr (v, p)"
      "read_items buf p d n = Inr (vs', q)" "vs = v # vs'"
    by (auto simp: result_simps)
  from assms [OF r(1)] obtain bs where bs: "encode v = Inr bs" "consumed buf pos bs p" by blast
  then have "p \<le> length buf" by (auto simp: consumed_def)
  from Suc.IH [OF r(2) this] bs r(3) show ?case by (auto intro: consumed_trans)
qed

lemma read_pairs_sound:
  assumes val: "\<And>pos v q. read_value buf pos d = Inr (v, q) \<Longrightarrow> \<exists>bs. encode v = Inr bs \<and> consumed buf pos bs q"
  shows "read_pairs buf pos d prev n = Inr (ps, q) \<Longrightarrow> pos \<le> length buf \<Longrightarrow> ordered_from prev [] \<Longrightarrow>
    \<exists>es. rmap encode_pair ps = Inr es \<and> length ps = n \<and> ordered_from prev (map fst es)
      \<and> consumed buf pos (concat (map (\<lambda>(k, v). k @ v) es)) q"
proof (induction n arbitrary: pos prev ps)
  case 0
  then show ?case by simp
next
  case (Suc n)
  then obtain k p w p1 ps' where r: "read_value buf pos d = Inr (k, p)"
      "check_key_order prev (subslice buf pos p) = Inr ()" "read_value buf p d = Inr (w, p1)"
      "read_pairs buf p1 d (Some (subslice buf pos p)) n = Inr (ps', q)" "ps = (k, w) # ps'"
    by (auto simp: result_simps Let_def)
  from val [OF r(1)] obtain kb where kb: "encode k = Inr kb" "consumed buf pos kb p" by blast
  from val [OF r(3)] obtain wb where wb: "encode w = Inr wb" "consumed buf p wb p1" by blast
  have kw: "consumed buf pos (kb @ wb) p1" by (rule consumed_trans [OF kb(2) wb(2)])
  then have "p1 \<le> length buf" by (auto simp: consumed_def)
  from Suc.IH [OF r(4) this] obtain es where es: "rmap encode_pair ps' = Inr es" "length ps' = n"
      "ordered_from (Some kb) (map fst es)" "consumed buf p1 (concat (map (\<lambda>(k, v). k @ v) es)) q"
    by (auto simp: ordered_from_def consumed_subslice [OF kb(2)])
  have "encode_pair (k, w) = Inr (kb, wb)" using kb wb by (simp add: encode_pair_def)
  moreover have "ordered_from prev (kb # map fst es)"
    using r(2) es(3) by (simp add: ordered_from_Cons consumed_subslice [OF kb(2)])
  moreover have "consumed buf pos (kb @ wb @ concat (map (\<lambda>(k, v). k @ v) es)) q"
    using consumed_trans [OF kw es(4)] by simp
  ultimately show ?case using es r(5) by simp
qed

lemma read_value_sound:
  "read_value buf pos d = Inr (v, q) \<Longrightarrow> \<exists>bs. encode v = Inr bs \<and> consumed buf pos bs q"
proof (induction "Suc MAX_DEPTH - d" arbitrary: d pos v q rule: less_induct)
  case less
  from less.prems obtain ib p where dep: "\<not> MAX_DEPTH < d" and ib: "read_byte buf pos = Inr (ib, p)"
    by (auto simp: read_value.simps [of buf pos d] result_simps split: if_splits)
  have IH: "\<And>pos v q. read_value buf pos (d + 1) = Inr (v, q) \<Longrightarrow> \<exists>bs. encode v = Inr bs \<and> consumed buf pos bs q"
    using less.hyps [of "d + 1"] dep by simp
  let ?m = "drop_bit 5 ib"
  let ?ai = "ib AND 0x1f"
  note body = less.prems [unfolded read_value.simps [of buf pos d], simplified dep ib, simplified, simplified Let_def]
  show ?case
  proof (cases "?m = 7 \<or> ?m = 6")
    case True
    then show ?thesis using body simple_or_float_encode [OF _ ib] by auto
  next
    case False
    then obtain n p1 where arg: "read_arg buf p ?ai = Inr (n, p1)"
      using body major_seven [OF head_byte_split(2) [of ib]] by (auto simp: result_simps split: if_splits)
    note hd = consumed_head [OF ib arg]
    then have p1: "p1 \<le> length buf" by (auto simp: consumed_def)
    have n: "n = of_nat k" if "unat n = k" for k using that by auto
    consider "?m = 0" | "?m = 1" | "?m = 2" | "?m = 3" | "?m = 4" | "?m = 5"
      using False major_seven [OF head_byte_split(2) [of ib]] by blast
    then show ?thesis
    proof cases
      case 3
      with body arg obtain b where "v = Bytes b" "read_take buf p1 (unat n) = Inr (b, q)"
        by (auto simp: result_simps)
      with 3 n [of "length b"] consumed_trans [OF hd, of b q] show ?thesis
        by (simp add: encode_simps read_take_consumed)
    next
      case 4
      with body arg obtain b where "v = Text b" "read_take buf p1 (unat n) = Inr (b, q)"
        by (auto simp: result_simps split: if_splits)
      with 4 n [of "length b"] consumed_trans [OF hd, of b q] show ?thesis
        by (simp add: encode_simps read_take_consumed)
    next
      case 5
      with body arg obtain vs where v: "v = Array vs" and r: "read_items buf p1 (d + 1) (unat n) = Inr (vs, q)"
        by (auto simp: result_simps)
      from read_items_sound [OF IH r p1] obtain bss where
        "rmap encode vs = Inr bss" "length vs = unat n" "consumed buf p1 (concat bss) q" by blast
      with 5 v n [of "length vs"] consumed_trans [OF hd] show ?thesis by (simp add: encode_simps)
    next
      case 6
      with body arg obtain ps where v: "v = Map ps" and r: "read_pairs buf p1 (d + 1) None (unat n) = Inr (ps, q)"
        by (auto simp: result_simps)
      from read_pairs_sound [OF IH r p1] obtain es where es: "rmap encode_pair ps = Inr es"
          "length ps = unat n" "sorted_wrt (<) (map fst es)"
          "consumed buf p1 (concat (map (\<lambda>(k, v). k @ v) es)) q"
        by (auto simp: ordered_from_def)
      with 6 v n [of "length ps"] consumed_trans [OF hd es(4)] encode_Map_ordered [OF es(1,3)]
      show ?thesis by simp
    qed (use body arg hd in \<open>auto simp: encode_simps\<close>)
  qed
qed

section \<open>Decoding an encoded value gives its canonical form\<close>

definition enc :: "Value \<Rightarrow> bytes" where
  "enc v = (case encode v of Inl _ \<Rightarrow> [] | Inr b \<Rightarrow> b)"

fun canon :: "Value \<Rightarrow> Value" where
  "canon (Array vs) = Array (map canon vs)"
| "canon (Map ps) = Map (map snd (sort_key fst (map (\<lambda>(k, v). (enc k, canon k, canon v)) ps)))"
| "canon (Float f) = Float (if f64_is_zero f then 0 else f)"
| "canon v = v"

fun vdepth :: "Value \<Rightarrow> nat" where
  "vdepth (Array vs) = foldr (\<lambda>v m. max (Suc (vdepth v)) m) vs 0"
| "vdepth (Map ps) = foldr (\<lambda>(k, v) m. max (max (Suc (vdepth k)) (Suc (vdepth v))) m) ps 0"
| "vdepth _ = 0"

fun value_wf :: "Value \<Rightarrow> bool" where
  "value_wf (Bytes b) = (length b < 2 ^ 64)"
| "value_wf (Text s) = (utf8_valid s \<and> length s < 2 ^ 64)"
| "value_wf (Array vs) = (length vs < 2 ^ 64 \<and> list_all value_wf vs)"
| "value_wf (Map ps) = (length ps < 2 ^ 64 \<and> list_all (\<lambda>(k, v). value_wf k \<and> value_wf v) ps)"
| "value_wf _ = True"

lemma encode_enc: "encode v = Inr b \<Longrightarrow> enc v = b"
  by (simp add: enc_def)

lemma sort_key_map: "sort_key f (map g xs) = map g (sort_key (\<lambda>x. f (g x)) xs)"
proof (induction xs)
  case (Cons x xs)
  have "insort_key f (g x) (map g ys) = map g (insort_key (\<lambda>x. f (g x)) x ys)" for ys
    by (induction ys) auto
  with Cons.IH show ?case by simp
qed simp

lemma canon_Map:
  "canon (Map ps) = Map (map (\<lambda>(k, v). (canon k, canon v)) (sort_key (\<lambda>(k, v). enc k) ps))"
proof -
  have "(\<lambda>x. fst (case x of (k, v) \<Rightarrow> (enc k, canon k, canon v))) = (\<lambda>(k, v). enc k)" by auto
  then show ?thesis by (auto simp: sort_key_map)
qed

lemma foldr_max_le: "foldr (\<lambda>x m. max (f x) m) xs (0 :: nat) \<le> n \<longleftrightarrow> (\<forall>x \<in> set xs. f x \<le> n)"
  by (induction xs) auto

lemma vdepth_le_iff:
  "vdepth (Array vs) + d \<le> n \<longleftrightarrow> d \<le> n \<and> (\<forall>v \<in> set vs. vdepth v + Suc d \<le> n)"
  "vdepth (Map ps) + d \<le> n \<longleftrightarrow> d \<le> n \<and> (\<forall>(k, v) \<in> set ps. vdepth k + Suc d \<le> n \<and> vdepth v + Suc d \<le> n)"
proof -
  have *: "a + d \<le> n \<longleftrightarrow> d \<le> n \<and> a \<le> n - d" for a by auto
  show "vdepth (Array vs) + d \<le> n \<longleftrightarrow> d \<le> n \<and> (\<forall>v \<in> set vs. vdepth v + Suc d \<le> n)"
    unfolding * by (auto simp: foldr_max_le)
  have m: "vdepth (Map ps) \<le> b \<longleftrightarrow> (\<forall>(k, v) \<in> set ps. Suc (vdepth k) \<le> b \<and> Suc (vdepth v) \<le> b)" for b
    by (induction ps) auto
  show "vdepth (Map ps) + d \<le> n \<longleftrightarrow> d \<le> n \<and> (\<forall>(k, v) \<in> set ps. vdepth k + Suc d \<le> n \<and> vdepth v + Suc d \<le> n)"
    unfolding * m by fastforce
qed

text \<open>What reading back the bytes of a value gives at a depth.\<close>

definition readback :: "Value \<Rightarrow> bool" where
  "readback v \<longleftrightarrow> (\<forall>buf pos q d. consumed buf pos (enc v) q \<longrightarrow>
     read_value buf pos d = (if vdepth v + d \<le> MAX_DEPTH then Inr (canon v, q) else Inl DepthExceeded))"

lemma readbackD:
  "readback v \<Longrightarrow> consumed buf pos (enc v) q \<Longrightarrow>
     read_value buf pos d = (if vdepth v + d \<le> MAX_DEPTH then Inr (canon v, q) else Inl DepthExceeded)"
  unfolding readback_def by blast

lemma read_items_readback:
  assumes "\<And>v. v \<in> set vs \<Longrightarrow> readback v"
    and "consumed buf pos (concat (map enc vs)) q"
  shows "read_items buf pos d (length vs) =
    (if \<forall>v \<in> set vs. vdepth v + d \<le> MAX_DEPTH then Inr (map canon vs, q) else Inl DepthExceeded)"
  using assms
proof (induction vs arbitrary: pos)
  case Nil
  then show ?case by simp
next
  case (Cons v vs)
  let ?p = "pos + length (enc v)"
  from Cons.prems(2) have c: "consumed buf pos (enc v) ?p" "consumed buf ?p (concat (map enc vs)) q"
    by (simp_all add: consumed_append)
  have "readback v" by (rule Cons.prems(1)) simp
  from readbackD [OF this c(1)] Cons.IH [OF _ c(2)] Cons.prems(1) show ?case by auto
qed

lemma read_pairs_readback:
  assumes "\<And>k v. (k, v) \<in> set ps \<Longrightarrow> readback k \<and> readback v"
    and "consumed buf pos (concat (map (\<lambda>(k, v). enc k @ enc v) ps)) q"
    and "ordered_from prev (map (\<lambda>(k, v). enc k) ps)"
  shows "read_pairs buf pos d prev (length ps) =
    (if \<forall>(k, v) \<in> set ps. vdepth k + d \<le> MAX_DEPTH \<and> vdepth v + d \<le> MAX_DEPTH
     then Inr (map (\<lambda>(k, v). (canon k, canon v)) ps, q) else Inl DepthExceeded)"
  using assms
proof (induction ps arbitrary: pos prev)
  case Nil
  then show ?case by simp
next
  case (Cons kv ps)
  obtain k v where kv: "kv = (k, v)" by force
  let ?p = "pos + length (enc k)" and ?p1 = "pos + length (enc k) + length (enc v)"
  from Cons.prems(2) have c: "consumed buf pos (enc k) ?p" "consumed buf ?p (enc v) ?p1"
      "consumed buf ?p1 (concat (map (\<lambda>(k, v). enc k @ enc v) ps)) q"
    by (simp_all add: kv consumed_append)
  have o: "check_key_order prev (enc k) = Inr ()" "ordered_from (Some (enc k)) (map (\<lambda>(k, v). enc k) ps)"
    using Cons.prems(3) by (simp_all add: kv ordered_from_Cons)
  have "readback k" "readback v" using Cons.prems(1) [of k v] by (simp_all add: kv)
  note rb = readbackD [OF this(1) c(1)] readbackD [OF this(2) c(2)]
  have "\<And>k v. (k, v) \<in> set ps \<Longrightarrow> readback k \<and> readback v" using Cons.prems(1) by (meson list.set_intros(2))
  note IH = Cons.IH [OF this c(3) o(2)]
  show ?case
    by (auto simp: kv rb o(1) consumed_subslice [OF c(1)] IH Let_def)
qed

lemma read_value_deep: "MAX_DEPTH < d \<Longrightarrow> read_value buf pos d = Inl DepthExceeded"
  by (simp add: read_value.simps)

lemma readback_intro:
  assumes "\<And>buf pos q d. d \<le> MAX_DEPTH \<Longrightarrow> consumed buf pos (enc v) q \<Longrightarrow>
     read_value buf pos d = (if vdepth v + d \<le> MAX_DEPTH then Inr (canon v, q) else Inl DepthExceeded)"
  shows "readback v"
proof (unfold readback_def, intro allI impI)
  fix buf pos q d
  assume "consumed buf pos (enc v) q"
  then show "read_value buf pos d = (if vdepth v + d \<le> MAX_DEPTH then Inr (canon v, q) else Inl DepthExceeded)"
    using assms [of d buf pos q] read_value_deep [of d buf pos] by (cases "d \<le> MAX_DEPTH") auto
qed

lemma unat_of_nat_len: "n < 2 ^ 64 \<Longrightarrow> unat (of_nat n :: u64) = n"
  by (simp add: unat_of_nat)

lemma enc_simps:
  "enc (Uint n) = head_bytes 0 n"
  "enc (Nint n) = head_bytes 1 n"
  "enc (Bytes b) = head_bytes 2 (of_nat (length b)) @ b"
  "enc (Text b) = head_bytes 3 (of_nat (length b)) @ b"
  "f64_is_finite f \<Longrightarrow> enc (Float f) = 0xfb # u64_be (if f64_is_zero f then 0 else f)"
  "enc (Bool t) = [if t then 0xf5 else 0xf4]"
  "enc Null = [0xf6]"
  by (simp_all add: enc_def encode_simps)

lemma rmap_encode_enc: "rmap encode vs = Inr bss \<Longrightarrow> bss = map enc vs \<and> (\<forall>v \<in> set vs. encode v = Inr (enc v))"
  by (induction vs arbitrary: bss) (auto simp: result_simps encode_enc)

lemma rmap_encode_pair_enc:
  "rmap encode_pair ps = Inr es \<Longrightarrow> es = map (\<lambda>(k, v). (enc k, enc v)) ps
    \<and> (\<forall>(k, v) \<in> set ps. encode k = Inr (enc k) \<and> encode v = Inr (enc v))"
  by (induction ps arbitrary: es) (auto simp: result_simps encode_enc encode_pair_def)

lemma readback_atoms:
  "readback (Uint n)" "readback (Nint n)" "readback (Bool t)" "readback Null"
  "f64_is_finite f \<Longrightarrow> readback (Float f)"
  "length b < 2 ^ 64 \<Longrightarrow> readback (Bytes b)"
  "length b < 2 ^ 64 \<Longrightarrow> utf8_valid b \<Longrightarrow> readback (Text b)"
proof -
  show "readback (Uint n)"
  proof (rule readback_intro)
    fix buf pos q d assume d: "d \<le> MAX_DEPTH" and c: "consumed buf pos (enc (Uint n)) q"
    then have "consumed buf pos (head_bytes 0 n @ []) q" by (simp add: enc_simps)
    then obtain ib where "read_byte buf pos = Inr (ib, pos + 1)" "drop_bit 5 ib = 0"
        "read_arg buf (pos + 1) (ib AND 0x1f) = Inr (n, q)"
      by (rule read_head) auto
    with d show "read_value buf pos d = (if vdepth (Uint n) + d \<le> MAX_DEPTH then Inr (canon (Uint n), q) else Inl DepthExceeded)"
      by (simp add: read_value.simps)
  qed
  show "readback (Nint n)"
  proof (rule readback_intro)
    fix buf pos q d assume d: "d \<le> MAX_DEPTH" and c: "consumed buf pos (enc (Nint n)) q"
    then have "consumed buf pos (head_bytes 1 n @ []) q" by (simp add: enc_simps)
    then obtain ib where "read_byte buf pos = Inr (ib, pos + 1)" "drop_bit 5 ib = 1"
        "read_arg buf (pos + 1) (ib AND 0x1f) = Inr (n, q)"
      by (rule read_head) auto
    with d show "read_value buf pos d = (if vdepth (Nint n) + d \<le> MAX_DEPTH then Inr (canon (Nint n), q) else Inl DepthExceeded)"
      by (simp add: read_value.simps)
  qed
  show "readback (Bool t)" "readback Null"
    by (rule readback_intro; auto simp: enc_simps read_value.simps consumed_Cons simple_or_float_def)+
  show "readback (Float f)" if "f64_is_finite f"
  proof (rule readback_intro)
    fix buf pos q d assume d: "d \<le> MAX_DEPTH" and c: "consumed buf pos (enc (Float f)) q"
    define g where "g = (if f64_is_zero f then 0 else f)"
    have b: "read_byte buf pos = Inr (0xfb, pos + 1)" "read_take buf (pos + 1) 8 = Inr (u64_be g, q)"
      using c that by (simp_all only: enc_simps consumed_Cons g_def) (simp_all add: read_take_consumed)
    have "f64_is_finite g" "\<not> (f64_is_zero g \<and> f64_is_sign_negative g)"
      using that by (auto simp: g_def f64_is_finite_def f64_is_zero_def f64_is_sign_negative_def)
    moreover have "canon (Float f) = Float g" by (simp add: g_def)
    ultimately show "read_value buf pos d = (if vdepth (Float f) + d \<le> MAX_DEPTH then Inr (canon (Float f), q) else Inl DepthExceeded)"
      using d b by (simp add: read_value.simps simple_or_float_def del: canon.simps)
  qed
  show "readback (Bytes b)" if "length b < 2 ^ 64"
  proof (rule readback_intro)
    fix buf pos q d assume d: "d \<le> MAX_DEPTH" and "consumed buf pos (enc (Bytes b)) q"
    then have "consumed buf pos (head_bytes 2 (of_nat (length b)) @ b) q" by (simp add: enc_simps)
    then obtain ib p1 where "read_byte buf pos = Inr (ib, pos + 1)" "drop_bit 5 ib = 2"
        "read_arg buf (pos + 1) (ib AND 0x1f) = Inr (of_nat (length b), p1)" "read_take buf p1 (length b) = Inr (b, q)"
      by (rule read_head) (auto simp: read_take_consumed)
    with d that show "read_value buf pos d = (if vdepth (Bytes b) + d \<le> MAX_DEPTH then Inr (canon (Bytes b), q) else Inl DepthExceeded)"
      by (simp add: read_value.simps unat_of_nat_len)
  qed
  show "readback (Text b)" if "length b < 2 ^ 64" "utf8_valid b"
  proof (rule readback_intro)
    fix buf pos q d assume d: "d \<le> MAX_DEPTH" and "consumed buf pos (enc (Text b)) q"
    then have "consumed buf pos (head_bytes 3 (of_nat (length b)) @ b) q" by (simp add: enc_simps)
    then obtain ib p1 where "read_byte buf pos = Inr (ib, pos + 1)" "drop_bit 5 ib = 3"
        "read_arg buf (pos + 1) (ib AND 0x1f) = Inr (of_nat (length b), p1)" "read_take buf p1 (length b) = Inr (b, q)"
      by (rule read_head) (auto simp: read_take_consumed)
    with d that show "read_value buf pos d = (if vdepth (Text b) + d \<le> MAX_DEPTH then Inr (canon (Text b), q) else Inl DepthExceeded)"
      by (simp add: read_value.simps unat_of_nat_len)
  qed
qed

lemma readback_Array:
  assumes "length vs < 2 ^ 64" and "\<And>v. v \<in> set vs \<Longrightarrow> readback v"
    and "encode (Array vs) = Inr bs"
  shows "readback (Array vs)"
proof (rule readback_intro)
  fix buf pos q d assume d: "d \<le> MAX_DEPTH" and "consumed buf pos (enc (Array vs)) q"
  moreover from assms(3) obtain bss where "rmap encode vs = Inr bss" by (auto simp: encode_simps result_simps)
  moreover from this have "bss = map enc vs" using rmap_encode_enc by blast
  ultimately have "consumed buf pos (head_bytes 4 (of_nat (length vs)) @ concat (map enc vs)) q"
    by (simp add: enc_def [of "Array vs"] encode_simps)
  then obtain ib p1 where b: "read_byte buf pos = Inr (ib, pos + 1)" "drop_bit 5 ib = 4"
      "consumed buf p1 (concat (map enc vs)) q" "read_arg buf (pos + 1) (ib AND 0x1f) = Inr (of_nat (length vs), p1)"
    by (rule read_head) auto
  show "read_value buf pos d = (if vdepth (Array vs) + d \<le> MAX_DEPTH then Inr (canon (Array vs), q) else Inl DepthExceeded)"
    unfolding vdepth_le_iff
    using d b read_items_readback [OF assms(2) b(3), of "d + 1"] assms(1)
    by (simp add: read_value.simps [of buf pos d] unat_of_nat_len)
qed

lemma readback_Map:
  assumes "length ps < 2 ^ 64" and "\<And>k v. (k, v) \<in> set ps \<Longrightarrow> readback k \<and> readback v"
    and "encode (Map ps) = Inr bs"
  shows "readback (Map ps)"
proof (rule readback_intro)
  fix buf pos q d assume d: "d \<le> MAX_DEPTH" and c: "consumed buf pos (enc (Map ps)) q"
  let ?ps = "sort_key (\<lambda>(k, v). enc k) ps"
  from assms(3) obtain es where es: "rmap encode_pair ps = Inr es" "\<not> adjacent_equal (map fst (sort_key fst es))"
    by (auto simp: encode_simps result_simps Let_def split: if_splits)
  then have e: "es = map (\<lambda>(k, v). (enc k, enc v)) ps" using rmap_encode_pair_enc by blast
  have s: "sort_key fst es = map (\<lambda>(k, v). (enc k, enc v)) ?ps"
    unfolding e sort_key_map by (rule arg_cong [where f = "\<lambda>f. map _ (sort_key f ps)"]) auto
  have o: "ordered_from None (map (\<lambda>(k, v). enc k) ?ps)"
    using es(2) not_adjacent_equal_strict [OF sorted_sort_key [of fst es]]
    by (simp add: ordered_from_def s comp_def case_prod_unfold)
  from c es s have "consumed buf pos (head_bytes 5 (of_nat (length ps)) @ concat (map (\<lambda>(k, v). enc k @ enc v) ?ps)) q"
    by (simp add: enc_def [of "Map ps"] encode_simps Let_def comp_def case_prod_unfold)
  then obtain ib p1 where b: "read_byte buf pos = Inr (ib, pos + 1)" "drop_bit 5 ib = 5"
      "consumed buf p1 (concat (map (\<lambda>(k, v). enc k @ enc v) ?ps)) q"
      "read_arg buf (pos + 1) (ib AND 0x1f) = Inr (of_nat (length ps), p1)"
    by (rule read_head) auto
  have "\<And>k v. (k, v) \<in> set ?ps \<Longrightarrow> readback k \<and> readback v" using assms(2) by simp
  from read_pairs_readback [OF this b(3) o, of "d + 1"]
  show "read_value buf pos d = (if vdepth (Map ps) + d \<le> MAX_DEPTH then Inr (canon (Map ps), q) else Inl DepthExceeded)"
    unfolding vdepth_le_iff canon_Map
    using d b assms(1) by (simp add: read_value.simps [of buf pos d] unat_of_nat_len)
qed

lemma readback_value: "value_wf v \<Longrightarrow> encode v = Inr bs \<Longrightarrow> readback v"
proof (induction v arbitrary: bs)
  case (Array vs)
  from Array.prems(2) obtain bss where "rmap encode vs = Inr bss" by (auto simp: encode_simps result_simps)
  then have "v \<in> set vs \<Longrightarrow> readback v" for v
    using Array rmap_encode_enc by (fastforce simp: list_all_iff)
  with Array.prems show ?case by (intro readback_Array) auto
next
  case (Map ps)
  from Map.prems(2) obtain es where "rmap encode_pair ps = Inr es" by (auto simp: encode_simps result_simps)
  then have e: "(k, v) \<in> set ps \<Longrightarrow> encode k = Inr (enc k) \<and> encode v = Inr (enc v)" for k v
    using rmap_encode_pair_enc by blast
  have "(k, v) \<in> set ps \<Longrightarrow> readback k \<and> readback v" for k v
    using Map.IH [of "(k, v)"] Map.prems(1) e [of k v] by (auto simp: list_all_iff)
  with Map.prems show ?case by (intro readback_Map) auto
qed (auto intro: readback_atoms simp: encode_simps split: if_splits)

section \<open>Consequences for the users of the codec\<close>

lemma encode_decoded:
  assumes "decode bs = Inr v"
  shows "encode v = Inr bs"
proof -
  from assms have "read_value bs 0 0 = Inr (v, length bs)"
    by (auto simp: decode_def result_simps split: if_splits)
  from read_value_sound [OF this] obtain b where "encode v = Inr b" "consumed bs 0 b (length bs)" by blast
  then show ?thesis by (auto simp: consumed_def subslice_full)
qed

lemma decode_encoded:
  assumes "value_wf v" and "encode v = Inr bs"
  shows "decode bs = (if vdepth v \<le> MAX_DEPTH then Inr (canon v) else Inl DepthExceeded)"
proof -
  have "consumed bs 0 (enc v) (length bs)"
    using assms(2) by (simp add: enc_def consumed_def subslice_full)
  from readbackD [OF readback_value [OF assms] this, of 0] show ?thesis
    by (simp add: decode_def)
qed

lemma encode_inj:
  assumes "encode v = Inr bs" "encode w = Inr bs" "value_wf v" "value_wf w"
    and "vdepth v \<le> MAX_DEPTH" "vdepth w \<le> MAX_DEPTH"
  shows "canon v = canon w"
  using decode_encoded [OF assms(3,1)] decode_encoded [OF assms(4,2)] assms(5,6) by simp

lemma enc_Text_inj: "enc (Text a) = enc (Text b) \<Longrightarrow> value_wf (Text a) \<Longrightarrow> value_wf (Text b) \<Longrightarrow> a = b"
  using encode_inj [of "Text a" "enc (Text b)" "Text b"] by (simp add: enc_simps encode_simps)

lemma distinct_map_sort_key: "distinct (map f (sort_key g xs)) = distinct (map f xs)"
  by (simp add: distinct_map)

lemma encode_Map_eq:
  assumes "\<forall>(k, v) \<in> set ps. encode k = Inr (enc k) \<and> encode v = Inr (enc v)"
    and "distinct (map (\<lambda>(k, v). enc k) ps)"
  shows "encode (Map ps) = Inr (head_bytes 5 (of_nat (length ps))
    @ concat (map (\<lambda>(k, v). enc k @ enc v) (sort_key (\<lambda>(k, v). enc k) ps)))"
proof -
  let ?e = "\<lambda>(k, v). (enc k, enc v)"
  have r: "rmap encode_pair ps = Inr (map ?e ps)"
    using assms(1) by (induction ps) (auto simp: encode_pair_def)
  have m: "map fst (map ?e ps) = map (\<lambda>(k, v). enc k) ps" by auto
  let ?s = "sort_key fst (map ?e ps)"
  have "distinct (map fst ?s)"
    using assms(2) by (simp only: distinct_map_sort_key m)
  then have "\<not> adjacent_equal (map fst ?s)"
    using not_adjacent_equal_strict [OF sorted_sort_key [of fst "map ?e ps"]]
    by (simp add: strict_sorted_iff)
  moreover have "concat (map (\<lambda>(k, v). k @ v) ?s) = concat (map (\<lambda>(k, v). enc k @ enc v) (sort_key (\<lambda>(k, v). enc k) ps))"
    by (simp add: sort_key_map comp_def case_prod_unfold)
  ultimately show ?thesis using r by (simp add: encode_simps Let_def)
qed

lemma encode_Map_cong_set:
  assumes "set ps = set qs" "distinct (map fst ps)" "distinct (map fst qs)" "encode (Map qs) = Inr b"
  shows "encode (Map ps) = Inr b"
proof -
  let ?k = "\<lambda>(k, v). enc k"
  from assms(4) obtain es where es: "rmap encode_pair qs = Inr es" "\<not> adjacent_equal (map fst (sort_key fst es))"
    by (auto simp: encode_simps result_simps Let_def split: if_splits)
  from rmap_encode_pair_enc [OF es(1)] have e: "es = map (\<lambda>(k, v). (enc k, enc v)) qs"
    and ok: "\<forall>(k, v) \<in> set qs. encode k = Inr (enc k) \<and> encode v = Inr (enc v)" by blast+
  have "distinct (map fst (sort_key fst es))"
    using es(2) not_adjacent_equal_strict [OF sorted_sort_key [of fst es]] by (simp add: strict_sorted_iff)
  then have dq: "distinct (map ?k qs)" by (simp add: distinct_map_sort_key e comp_def case_prod_unfold)
  have len: "length ps = length qs"
    using assms(1-3) by (metis distinct_card distinct_map)
  have inj: "inj_on ?k (set ps \<union> set qs)" using dq assms(1) by (simp add: distinct_map)
  then have dp: "distinct (map ?k ps)" using assms(1,2) by (simp add: distinct_map)
  have "sort_key ?k ps = sort_key ?k qs"
    by (rule map_sorted_distinct_set_unique [where f = ?k])
      (use inj dp dq assms(1) in \<open>simp_all add: distinct_map_sort_key\<close>)
  then show ?thesis
    using encode_Map_eq [OF _ dp] encode_Map_eq [OF ok dq] ok assms(1,4) len by simp
qed

lemma encode_Array_cong: "map encode xs = map encode ys \<Longrightarrow> encode (Array xs) = encode (Array ys)"
proof -
  assume *: "map encode xs = map encode ys"
  then have "length xs = length ys" by (metis length_map)
  moreover have "rmap encode xs = rmap encode ys" using *
  proof (induction xs arbitrary: ys)
    case (Cons x xs)
    then obtain y zs where "ys = y # zs" "encode x = encode y" "map encode xs = map encode zs"
      by (cases ys) auto
    with Cons.IH show ?case by simp
  qed simp
  ultimately show ?thesis by (simp add: encode_simps)
qed

lemma ucast_u16_u64: "ucast (ucast (t :: u16) :: u64) = t" "(ucast (t :: u16) :: u64) \<le> 0xFFFF"
  using unat_bound [of t] by (simp_all add: word_unat_eq_iff word_le_nat_alt unat_ucast)

lemma ucast_u64_u16: "(t :: u64) \<le> 0xFFFF \<Longrightarrow> ucast (ucast t :: u16) = t"
  by (simp add: word_unat_eq_iff word_le_nat_alt unat_ucast)

lemma decode_object_encode:
  assumes "encode_object t fs = Inr bs" and "list_all value_wf fs" and "length fs < 2 ^ 64 - 2"
    and "\<forall>v \<in> set fs. vdepth v < MAX_DEPTH"
  shows "decode_object bs = Inr (t, map canon fs)"
proof -
  let ?v = "Array (Uint EPOCH # Uint (ucast t) # fs)"
  have wf: "value_wf ?v" using assms(2,3) by simp
  have d: "vdepth ?v \<le> MAX_DEPTH"
    using vdepth_le_iff(1) [of "Uint EPOCH # Uint (ucast t) # fs" 0 MAX_DEPTH] assms(4)
    by (auto simp: MAX_DEPTH_def)
  have "encode ?v = Inr bs" using assms(1) by (simp add: encode_object_def)
  from decode_encoded [OF wf this] d have "decode bs = Inr (Array (Uint EPOCH # Uint (ucast t) # map canon fs))"
    by simp
  then show ?thesis by (simp add: decode_object_def ucast_u16_u64)
qed

lemma encode_object_decode:
  assumes "decode_object bs = Inr (t, fs)"
  shows "encode_object t fs = Inr bs"
proof -
  from assms obtain v where dv: "decode bs = Inr v" by (auto simp: decode_object_def result_simps)
  then obtain items where v: "v = Array items"
    using assms by (cases v) (simp_all add: decode_object_def)
  note dec = dv [unfolded v]
  then have len: "\<not> length items < 2" using assms by (auto simp: decode_object_def)
  obtain e where e: "items ! 0 = Uint e"
    using assms dec len by (cases "items ! 0") (simp_all add: decode_object_def)
  obtain w where w: "items ! 1 = Uint w"
    using assms dec len e by (cases "items ! 1") (auto simp: decode_object_def split: if_splits)
  have "items ! 0 = Uint EPOCH" "items ! 1 = Uint w" "w \<le> 0xFFFF" "t = ucast w" "fs = drop 2 items"
    using assms dec len e w by (auto simp: decode_object_def split: if_splits)
  moreover from len obtain a b r where "items = a # b # r"
    by (cases items; cases "tl items") auto
  ultimately have "items = [Uint EPOCH, Uint (ucast t)] @ fs" by (simp add: ucast_u64_u16)
  with encode_decoded [OF dec] show ?thesis by (simp add: encode_object_def)
qed

section \<open>The codec's contract\<close>

text \<open>C4: The strict decoder accepts a byte string only if it is the one canonical encoding of the value
  it returns: encoding that value again succeeds and gives back the same bytes. So no two byte strings
  decode to the same value, whatever the input.\<close>

theorem codec_decode_encode:
  assumes "decode bs = Inr v"
  shows "encode v = Inr bs"
  using assms by (rule encode_decoded)

theorem codec_decode_encode_witness:
  "decode [0xa2, 0x01, 0xf5, 0x61, 0x62, 0x82, 0x18, 0x20, 0xf6]
     = Inr (Map [(Uint 1, Bool True), (Text [0x62], Array [Uint 32, Null])])
   \<and> encode (Map [(Uint 1, Bool True), (Text [0x62], Array [Uint 32, Null])])
     = Inr [0xa2, 0x01, 0xf5, 0x61, 0x62, 0x82, 0x18, 0x20, 0xf6]"
proof -
  have "decode [0xa2, 0x01, 0xf5, 0x61, 0x62, 0x82, 0x18, 0x20, 0xf6]
     = Inr (Map [(Uint 1, Bool True), (Text [0x62], Array [Uint 32, Null])])"
    by code_simp
  from this codec_decode_encode [OF this] show ?thesis by simp
qed

text \<open>C16: Decoding the canonical encoding of a well-formed value returns that value in canonical form
  (maps in the byte order of their encoded keys, negative zero as zero) when its nesting is at most
  the limit of 128, and is refused with the depth error otherwise. The encoder itself has no such
  limit, so exactly the values nested deeper than 128 encode to bytes that cannot be read back.\<close>

theorem codec_encode_decode:
  assumes "value_wf v" and "encode v = Inr bs"
  shows "decode bs = (if vdepth v \<le> MAX_DEPTH then Inr (canon v) else Inl DepthExceeded)"
  using assms by (rule decode_encoded)

theorem codec_encode_decode_witness:
  "decode (enc (Map [(Text [0x62], Float 0x8000000000000000), (Uint 3, Array [Null])]))
     = Inr (Map [(Uint 3, Array [Null]), (Text [0x62], Float 0)])"
proof -
  let ?v = "Map [(Text [0x62], Float 0x8000000000000000), (Uint 3, Array [Null])]"
  have wf: "value_wf ?v" and d: "vdepth ?v \<le> MAX_DEPTH" by (simp_all add: MAX_DEPTH_def)
  have e: "encode ?v = Inr (enc ?v)" by code_simp
  have c: "canon ?v = Map [(Uint 3, Array [Null]), (Text [0x62], Float 0)]" by code_simp
  from codec_encode_decode [OF wf e] d c show ?thesis by simp
qed

end
