(* ===== verification/Loom_Error.thy ===== *)
theory Loom_Error
  imports Loom_Codec
begin

text \<open>
  The error model of \<^verbatim>\<open>crates/loom-types/src/error.rs\<close>: the stable codes with their tokens and numbers, and
  the structured details that travel as canonical CBOR. A \<^verbatim>\<open>LoomError\<close> is modelled by its code where an
  operation returns one; its message is a diagnostic for people. The decoders of details return a
  message string on failure, which is the unit error here.
\<close>

section \<open>Codes\<close>

datatype code =
    NotFound
  | AlreadyExists
  | CorruptObject
  | IntegrityFailure
  | Unsupported
  | InvalidArgument
  | Io
  | Internal
  | CrossWorkspace
  | CasMismatch
  | NotFastForward
  | DimensionMismatch
  | PermissionDenied
  | AuthenticationFailed
  | IdentityNoRootCredential
  | TriggerNotFound
  | TriggerDenied
  | CursorInvalid
  | E2eLocked
  | E2eKeyInvalid
  | Conflict
  | Locked
  | LockLeaseExpired
  | FencingStale
  | LockNotHeld
  | NoSuchField
  | QueryParseError
  | SqlSyntax
  | SqlConstraintViolation
  | SqlTableNotFound
  | SqlTypeMismatch
  | SqlExecutionFailed
  | ResourceExhausted
  | IndexNotReady
  | DocumentNotText
  | Unavailable
  | RetainedGap

type_synonym 'a res = "code + 'a"

fun code_as_str :: "code \<Rightarrow> string" where
  "code_as_str NotFound = ''NOT_FOUND''"
| "code_as_str AlreadyExists = ''ALREADY_EXISTS''"
| "code_as_str CorruptObject = ''CORRUPT_OBJECT''"
| "code_as_str IntegrityFailure = ''INTEGRITY_FAILURE''"
| "code_as_str Unsupported = ''UNSUPPORTED''"
| "code_as_str InvalidArgument = ''INVALID_ARGUMENT''"
| "code_as_str Io = ''IO''"
| "code_as_str Internal = ''INTERNAL''"
| "code_as_str CrossWorkspace = ''CROSS_WORKSPACE''"
| "code_as_str CasMismatch = ''CAS_MISMATCH''"
| "code_as_str NotFastForward = ''NOT_FAST_FORWARD''"
| "code_as_str DimensionMismatch = ''DIMENSION_MISMATCH''"
| "code_as_str PermissionDenied = ''PERMISSION_DENIED''"
| "code_as_str AuthenticationFailed = ''AUTHENTICATION_FAILED''"
| "code_as_str IdentityNoRootCredential = ''IDENTITY_NO_ROOT_CREDENTIAL''"
| "code_as_str TriggerNotFound = ''TRIGGER_NOT_FOUND''"
| "code_as_str TriggerDenied = ''TRIGGER_DENIED''"
| "code_as_str CursorInvalid = ''CURSOR_INVALID''"
| "code_as_str E2eLocked = ''E2E_LOCKED''"
| "code_as_str E2eKeyInvalid = ''E2E_KEY_INVALID''"
| "code_as_str Conflict = ''CONFLICT''"
| "code_as_str Locked = ''LOCKED''"
| "code_as_str LockLeaseExpired = ''LOCK_LEASE_EXPIRED''"
| "code_as_str FencingStale = ''FENCING_STALE''"
| "code_as_str LockNotHeld = ''LOCK_NOT_HELD''"
| "code_as_str NoSuchField = ''NO_SUCH_FIELD''"
| "code_as_str QueryParseError = ''QUERY_PARSE_ERROR''"
| "code_as_str SqlSyntax = ''SQL_SYNTAX''"
| "code_as_str SqlConstraintViolation = ''SQL_CONSTRAINT_VIOLATION''"
| "code_as_str SqlTableNotFound = ''SQL_TABLE_NOT_FOUND''"
| "code_as_str SqlTypeMismatch = ''SQL_TYPE_MISMATCH''"
| "code_as_str SqlExecutionFailed = ''SQL_EXECUTION_FAILED''"
| "code_as_str ResourceExhausted = ''RESOURCE_EXHAUSTED''"
| "code_as_str IndexNotReady = ''INDEX_NOT_READY''"
| "code_as_str DocumentNotText = ''DOCUMENT_NOT_TEXT''"
| "code_as_str Unavailable = ''UNAVAILABLE''"
| "code_as_str RetainedGap = ''RETAINED_GAP''"

fun code_as_i32 :: "code \<Rightarrow> int" where
  "code_as_i32 NotFound = 1"
| "code_as_i32 AlreadyExists = 2"
| "code_as_i32 CorruptObject = 3"
| "code_as_i32 IntegrityFailure = 4"
| "code_as_i32 Unsupported = 5"
| "code_as_i32 InvalidArgument = 6"
| "code_as_i32 Io = 7"
| "code_as_i32 Internal = 8"
| "code_as_i32 CrossWorkspace = 9"
| "code_as_i32 CasMismatch = 10"
| "code_as_i32 NotFastForward = 11"
| "code_as_i32 DimensionMismatch = 12"
| "code_as_i32 PermissionDenied = 13"
| "code_as_i32 AuthenticationFailed = 14"
| "code_as_i32 IdentityNoRootCredential = 15"
| "code_as_i32 TriggerNotFound = 16"
| "code_as_i32 TriggerDenied = 17"
| "code_as_i32 CursorInvalid = 18"
| "code_as_i32 E2eLocked = 19"
| "code_as_i32 E2eKeyInvalid = 20"
| "code_as_i32 Conflict = 21"
| "code_as_i32 Locked = 22"
| "code_as_i32 LockLeaseExpired = 23"
| "code_as_i32 FencingStale = 24"
| "code_as_i32 LockNotHeld = 25"
| "code_as_i32 NoSuchField = 26"
| "code_as_i32 QueryParseError = 27"
| "code_as_i32 SqlSyntax = 28"
| "code_as_i32 SqlConstraintViolation = 29"
| "code_as_i32 SqlTableNotFound = 30"
| "code_as_i32 SqlTypeMismatch = 31"
| "code_as_i32 SqlExecutionFailed = 32"
| "code_as_i32 ResourceExhausted = 33"
| "code_as_i32 IndexNotReady = 34"
| "code_as_i32 DocumentNotText = 35"
| "code_as_i32 Unavailable = 36"
| "code_as_i32 RetainedGap = 37"

definition all_codes :: "code list" where
  "all_codes = [NotFound, AlreadyExists, CorruptObject, IntegrityFailure, Unsupported, InvalidArgument,
     Io, Internal, CrossWorkspace, CasMismatch, NotFastForward, DimensionMismatch,
     PermissionDenied, AuthenticationFailed, IdentityNoRootCredential, TriggerNotFound, TriggerDenied, CursorInvalid,
     E2eLocked, E2eKeyInvalid, Conflict, Locked, LockLeaseExpired, FencingStale,
     LockNotHeld, NoSuchField, QueryParseError, SqlSyntax, SqlConstraintViolation, SqlTableNotFound,
     SqlTypeMismatch, SqlExecutionFailed, ResourceExhausted, IndexNotReady, DocumentNotText, Unavailable,
     RetainedGap]"

lemma all_codes_complete: "c \<in> set all_codes"
  by (cases c) (simp_all add: all_codes_def)

lemma code_as_i32_inj: "inj code_as_i32"
proof -
  have "distinct (map code_as_i32 all_codes)" by (simp add: all_codes_def)
  moreover have "set all_codes = UNIV" using all_codes_complete by blast
  ultimately show ?thesis by (simp add: distinct_map)
qed

lemma code_as_str_inj: "inj code_as_str"
proof -
  have "distinct (map code_as_str all_codes)" by (simp add: all_codes_def)
  moreover have "set all_codes = UNIV" using all_codes_complete by blast
  ultimately show ?thesis by (simp add: distinct_map)
qed

section \<open>Structured details\<close>

datatype ErrorDetail =
    InvalidField bytes "bytes option" "bytes list"
  | MissingResource bytes bytes
  | OptimisticConflict bytes bytes "bytes option" "bytes option"
  | Retry bool "u64 option"
  | Remediation bytes bytes

definition text_pair :: "string \<Rightarrow> bytes \<Rightarrow> Value \<times> Value" where
  "text_pair key v = (Text (ascii key), Text v)"

definition optional_text_pair :: "string \<Rightarrow> bytes option \<Rightarrow> Value \<times> Value" where
  "optional_text_pair key v = (Text (ascii key), case v of Some t \<Rightarrow> Text t | None \<Rightarrow> Null)"

fun detail_to_cbor :: "ErrorDetail \<Rightarrow> Value" where
  "detail_to_cbor (InvalidField fld rejected accepted) = Map [
     text_pair ''kind'' (ascii ''invalid_field''),
     text_pair ''field'' fld,
     optional_text_pair ''rejected'' rejected,
     (Text (ascii ''accepted''), Array (map Text accepted))]"
| "detail_to_cbor (MissingResource resource ident) = Map [
     text_pair ''kind'' (ascii ''missing_resource''),
     text_pair ''resource'' resource,
     text_pair ''id'' ident]"
| "detail_to_cbor (OptimisticConflict resource ident expected_root current_root) = Map [
     text_pair ''kind'' (ascii ''optimistic_conflict''),
     text_pair ''resource'' resource,
     text_pair ''id'' ident,
     optional_text_pair ''expected_root'' expected_root,
     optional_text_pair ''current_root'' current_root]"
| "detail_to_cbor (Retry retryable retry_after_ms) = Map [
     text_pair ''kind'' (ascii ''retry''),
     (Text (ascii ''retryable''), Bool retryable),
     (Text (ascii ''retry_after_ms''), case retry_after_ms of Some n \<Rightarrow> Uint n | None \<Rightarrow> Null)]"
| "detail_to_cbor (Remediation action hint) = Map [
     text_pair ''kind'' (ascii ''remediation''),
     text_pair ''action'' action,
     text_pair ''hint'' hint]"

fun detail_field :: "(Value \<times> Value) list \<Rightarrow> bytes \<Rightarrow> Value option" where
  "detail_field [] key = None"
| "detail_field ((k, v) # fields) key = (if k = Text key then Some v else detail_field fields key)"

definition text_field :: "(Value \<times> Value) list \<Rightarrow> string \<Rightarrow> unit + bytes" where
  "text_field fields key = (case detail_field fields (ascii key) of
      Some (Text v) \<Rightarrow> Inr v
    | _ \<Rightarrow> Inl ())"

definition optional_text_field :: "(Value \<times> Value) list \<Rightarrow> string \<Rightarrow> unit + bytes option" where
  "optional_text_field fields key = (case detail_field fields (ascii key) of
      Some (Text v) \<Rightarrow> Inr (Some v)
    | Some Null \<Rightarrow> Inr None
    | None \<Rightarrow> Inr None
    | _ \<Rightarrow> Inl ())"

definition optional_uint_field :: "(Value \<times> Value) list \<Rightarrow> string \<Rightarrow> unit + u64 option" where
  "optional_uint_field fields key = (case detail_field fields (ascii key) of
      Some (Uint v) \<Rightarrow> Inr (Some v)
    | Some Null \<Rightarrow> Inr None
    | None \<Rightarrow> Inr None
    | _ \<Rightarrow> Inl ())"

definition bool_field :: "(Value \<times> Value) list \<Rightarrow> string \<Rightarrow> unit + bool" where
  "bool_field fields key = (case detail_field fields (ascii key) of
      Some (Bool v) \<Rightarrow> Inr v
    | _ \<Rightarrow> Inl ())"

definition text_array_field :: "(Value \<times> Value) list \<Rightarrow> string \<Rightarrow> unit + bytes list" where
  "text_array_field fields key = (case detail_field fields (ascii key) of
      Some (Array vs) \<Rightarrow> rmap (\<lambda>v. case v of Text t \<Rightarrow> Inr t | _ \<Rightarrow> Inl ()) vs
    | _ \<Rightarrow> Inl ())"

definition detail_from_cbor :: "Value \<Rightarrow> unit + ErrorDetail" where
  "detail_from_cbor v = (case v of
      Map fields \<Rightarrow>
        rbind (text_field fields ''kind'') (\<lambda>kind.
          if kind = ascii ''invalid_field'' then
            rbind (text_field fields ''field'') (\<lambda>fld.
            rbind (optional_text_field fields ''rejected'') (\<lambda>rejected.
            rbind (text_array_field fields ''accepted'') (\<lambda>accepted.
              Inr (InvalidField fld rejected accepted))))
          else if kind = ascii ''missing_resource'' then
            rbind (text_field fields ''resource'') (\<lambda>resource.
            rbind (text_field fields ''id'') (\<lambda>ident. Inr (MissingResource resource ident)))
          else if kind = ascii ''optimistic_conflict'' then
            rbind (text_field fields ''resource'') (\<lambda>resource.
            rbind (text_field fields ''id'') (\<lambda>ident.
            rbind (optional_text_field fields ''expected_root'') (\<lambda>expected_root.
            rbind (optional_text_field fields ''current_root'') (\<lambda>current_root.
              Inr (OptimisticConflict resource ident expected_root current_root)))))
          else if kind = ascii ''retry'' then
            rbind (bool_field fields ''retryable'') (\<lambda>retryable.
            rbind (optional_uint_field fields ''retry_after_ms'') (\<lambda>retry_after_ms.
              Inr (Retry retryable retry_after_ms)))
          else if kind = ascii ''remediation'' then
            rbind (text_field fields ''action'') (\<lambda>action.
            rbind (text_field fields ''hint'') (\<lambda>hint. Inr (Remediation action hint)))
          else Inl ())
    | _ \<Rightarrow> Inl ())"

record LoomError =
  err_code :: code
  message :: bytes
  details :: "ErrorDetail list"

definition loom_error_new :: "code \<Rightarrow> bytes \<Rightarrow> LoomError" where
  "loom_error_new c m = \<lparr>err_code = c, message = m, details = []\<rparr>"

definition with_details :: "LoomError \<Rightarrow> ErrorDetail list \<Rightarrow> LoomError" where
  "with_details e ds = e\<lparr>details := details e @ ds\<rparr>"

definition details_cbor :: "LoomError \<Rightarrow> bytes option" where
  "details_cbor e = (if details e = [] then None
     else (case encode (Array (map detail_to_cbor (details e))) of Inr b \<Rightarrow> Some b | Inl _ \<Rightarrow> None))"

definition details_from_cbor :: "bytes \<Rightarrow> unit + ErrorDetail list" where
  "details_from_cbor bs = rbind (map_err (\<lambda>_. ()) (decode bs)) (\<lambda>v. case v of
      Array items \<Rightarrow> rmap detail_from_cbor items
    | _ \<Rightarrow> Inl ())"

section \<open>Details survive the wire\<close>

definition text_keyed :: "(Value \<times> Value) list \<Rightarrow> bool" where
  "text_keyed ps \<longleftrightarrow> (\<forall>(k, v) \<in> set ps. \<exists>t. k = Text t) \<and> distinct (map fst ps)"

lemma detail_field_map_of: "detail_field ps key = map_of ps (Text key)"
  by (induction ps) auto

lemma map_of_sort_key: "distinct (map fst ps) \<Longrightarrow> map_of (sort_key f ps) = map_of ps"
  by (subst map_of_inject_set) (simp_all add: distinct_map)

lemma detail_field_canon:
  assumes "text_keyed ps" and "canon (Map ps) = Map qs"
  shows "detail_field qs key = map_option canon (detail_field ps key)"
proof -
  let ?s = "sort_key (\<lambda>(k, v). enc k) ps"
  have qs: "qs = map (\<lambda>(k, v). (canon k, canon v)) ?s" using assms(2) unfolding canon_Map by simp
  have *: "\<forall>(k, v) \<in> set xs. \<exists>t. k = Text t \<Longrightarrow>
      map_of (map (\<lambda>(k, v). (canon k, canon v)) xs) (Text key) = map_option canon (map_of xs (Text key))" for xs
    by (induction xs) auto
  have t: "\<forall>(k, v) \<in> set ?s. \<exists>t. k = Text t" using assms(1) by (simp add: text_keyed_def)
  have "map_of ?s = map_of ps" using assms(1) by (simp add: text_keyed_def map_of_sort_key)
  with * [OF t] show ?thesis by (simp add: detail_field_map_of qs)
qed

definition detail_wf :: "ErrorDetail \<Rightarrow> bool" where
  "detail_wf d = value_wf (detail_to_cbor d)"

lemma ascii_eq_iff [simp]: "ascii a = ascii b \<longleftrightarrow> a = b"
proof -
  have "inj (\<lambda>c :: char. word_of_nat (of_char c) :: u8)"
  proof (rule injI)
    fix c d :: char
    assume "(word_of_nat (of_char c) :: u8) = word_of_nat (of_char d)"
    then have "unat (word_of_nat (of_char c) :: u8) = unat (word_of_nat (of_char d) :: u8)" by simp
    then show "c = d" by (simp add: unat_byte_of_nat)
  qed
  then show ?thesis by (simp add: ascii_def inj_map_eq_map)
qed

lemma detail_to_cbor_Map: "\<exists>ps. detail_to_cbor d = Map ps \<and> text_keyed ps"
  by (cases d) (auto simp: text_keyed_def text_pair_def optional_text_pair_def)

lemma rmap_Text: "rmap (\<lambda>v. case v of Text t \<Rightarrow> Inr t | _ \<Rightarrow> Inl ()) (map Text ts) = Inr ts"
  by (induction ts) auto

lemma detail_from_canon: "detail_from_cbor (canon (detail_to_cbor d)) = Inr d"
proof -
  obtain ps where ps: "detail_to_cbor d = Map ps" "text_keyed ps" using detail_to_cbor_Map by blast
  obtain qs where qs: "canon (Map ps) = Map qs" by simp
  have e: "detail_from_cbor (canon (detail_to_cbor d)) = detail_from_cbor (Map qs)" by (simp only: ps(1) qs)
  note f = detail_field_canon [OF ps(2) qs]
  note sel = text_field_def optional_text_field_def optional_uint_field_def bool_field_def
    text_array_field_def text_pair_def optional_text_pair_def
  show ?thesis
  proof (cases d)
    case (InvalidField fld rejected accepted)
    with ps(1) have ps_eq: "ps = [text_pair ''kind'' (ascii ''invalid_field''), text_pair ''field'' fld,
      optional_text_pair ''rejected'' rejected, (Text (ascii ''accepted''), Array (map Text accepted))]" by simp
    have "text_field qs ''kind'' = Inr (ascii ''invalid_field'')" "text_field qs ''field'' = Inr fld"
      "optional_text_field qs ''rejected'' = Inr rejected" "text_array_field qs ''accepted'' = Inr accepted"
      by (simp_all add: sel f ps_eq comp_def rmap_Text split: option.splits)
    then show ?thesis unfolding e by (simp add: detail_from_cbor_def InvalidField)
  next
    case (MissingResource resource ident)
    with ps(1) have ps_eq: "ps = [text_pair ''kind'' (ascii ''missing_resource''),
      text_pair ''resource'' resource, text_pair ''id'' ident]" by simp
    have "text_field qs ''kind'' = Inr (ascii ''missing_resource'')" "text_field qs ''resource'' = Inr resource"
      "text_field qs ''id'' = Inr ident"
      by (simp_all add: sel f ps_eq)
    then show ?thesis unfolding e by (simp add: detail_from_cbor_def MissingResource)
  next
    case (OptimisticConflict resource ident e c)
    with ps(1) have ps_eq: "ps = [text_pair ''kind'' (ascii ''optimistic_conflict''),
      text_pair ''resource'' resource, text_pair ''id'' ident, optional_text_pair ''expected_root'' e,
      optional_text_pair ''current_root'' c]" by simp
    have "text_field qs ''kind'' = Inr (ascii ''optimistic_conflict'')" "text_field qs ''resource'' = Inr resource"
      "text_field qs ''id'' = Inr ident" "optional_text_field qs ''expected_root'' = Inr e"
      "optional_text_field qs ''current_root'' = Inr c"
      by (simp_all add: sel f ps_eq split: option.splits)
    then show ?thesis unfolding e by (simp add: detail_from_cbor_def OptimisticConflict)
  next
    case (Retry retryable after)
    with ps(1) have ps_eq: "ps = [text_pair ''kind'' (ascii ''retry''), (Text (ascii ''retryable''), Bool retryable),
      (Text (ascii ''retry_after_ms''), case after of Some n \<Rightarrow> Uint n | None \<Rightarrow> Null)]" by simp
    have "text_field qs ''kind'' = Inr (ascii ''retry'')" "bool_field qs ''retryable'' = Inr retryable"
      "optional_uint_field qs ''retry_after_ms'' = Inr after"
      by (simp_all add: sel f ps_eq split: option.splits)
    then show ?thesis unfolding e by (simp add: detail_from_cbor_def Retry)
  next
    case (Remediation action hint)
    with ps(1) have ps_eq: "ps = [text_pair ''kind'' (ascii ''remediation''),
      text_pair ''action'' action, text_pair ''hint'' hint]" by simp
    have "text_field qs ''kind'' = Inr (ascii ''remediation'')" "text_field qs ''action'' = Inr action"
      "text_field qs ''hint'' = Inr hint"
      by (simp_all add: sel f ps_eq)
    then show ?thesis unfolding e by (simp add: detail_from_cbor_def Remediation)
  qed
qed

lemma list_all_value_wf_Map: "value_wf (Map ps) \<Longrightarrow> (k, v) \<in> set ps \<Longrightarrow> value_wf k \<and> value_wf v"
  by (auto simp: list_all_iff)

lemma detail_encode_ok:
  assumes "detail_wf d"
  shows "encode (detail_to_cbor d) = Inr (enc (detail_to_cbor d))"
proof -
  obtain ps where ps: "detail_to_cbor d = Map ps" "text_keyed ps" using detail_to_cbor_Map by blast
  have wf: "value_wf (Map ps)" using assms ps by (simp add: detail_wf_def)
  have "encode v = Inr (enc v)" if "(k, v) \<in> set ps" for k v
  proof -
    have "rmap encode (map Text ts) = Inr (map (\<lambda>t. enc (Text t)) ts)" for ts
      by (induction ts) (simp_all add: encode_simps enc_simps)
    with that ps(1) show ?thesis
      by (cases d) (auto simp: text_pair_def optional_text_pair_def encode_simps enc_def split: option.splits)
  qed
  moreover have "encode k = Inr (enc k)" if "(k, v) \<in> set ps" for k v
    using that ps(2) by (auto simp: text_keyed_def encode_simps enc_simps)
  moreover have "distinct (map (\<lambda>(k, v). enc k) ps)"
  proof -
    have "inj_on enc (fst ` set ps)"
    proof (rule inj_onI)
      fix a b
      assume "a \<in> fst ` set ps" "b \<in> fst ` set ps" "enc a = enc b"
      moreover from this obtain s t where "a = Text s" "b = Text t"
        using ps(2) by (fastforce simp: text_keyed_def)
      moreover from calculation have "value_wf (Text s)" "value_wf (Text t)"
        using list_all_value_wf_Map [OF wf] by fastforce+
      ultimately show "a = b" using enc_Text_inj [of s t] by simp
    qed
    moreover have "distinct (map fst ps)" using ps(2) by (simp add: text_keyed_def)
    ultimately have "distinct (map enc (map fst ps))" by (simp only: distinct_map set_map simp_thms)
    then show ?thesis by (simp add: comp_def case_prod_unfold)
  qed
  ultimately have "\<exists>bs. encode (Map ps) = Inr bs" using encode_Map_eq [of ps] by blast
  then show ?thesis by (auto simp: ps(1) enc_def)
qed

lemma detail_vdepth: "vdepth (detail_to_cbor d) \<le> 2"
proof -
  have "foldr (\<lambda>v m. max (Suc (vdepth v)) m) (map Text ts) 0 \<le> 1" for ts
    by (induction ts) auto
  then show ?thesis
    by (cases d) (auto simp: text_pair_def optional_text_pair_def split: option.splits)
qed

text \<open>C20: Structured error details survive the wire: for an error whose details hold valid strings,
  encoding them yields bytes, and decoding those bytes gives back exactly the same details in the same
  order, for every kind of detail and every combination of absent fields.\<close>

theorem error_details_roundtrip:
  assumes "details e \<noteq> []" and "length (details e) < 2 ^ 64" and "\<forall>d \<in> set (details e). detail_wf d"
  shows "\<exists>bs. details_cbor e = Some bs \<and> details_from_cbor bs = Inr (details e)"
proof -
  let ?v = "Array (map detail_to_cbor (details e))"
  have "rmap encode (map detail_to_cbor ds) = Inr (map (\<lambda>d. enc (detail_to_cbor d)) ds)"
    if "\<forall>d \<in> set ds. detail_wf d" for ds
    using that by (intro rmap_map_Inr) (simp add: detail_encode_ok)
  then obtain bs where bs: "encode ?v = Inr bs" using assms(3) by (auto simp: encode_simps)
  have wf: "value_wf ?v" using assms(2,3) by (auto simp: list_all_iff detail_wf_def)
  have "vdepth ?v \<le> MAX_DEPTH"
    using vdepth_le_iff(1) [of "map detail_to_cbor (details e)" 0 MAX_DEPTH] detail_vdepth
    by (fastforce simp: MAX_DEPTH_def intro: order_trans)
  with decode_encoded [OF wf bs] have "decode bs = Inr (Array (map (\<lambda>d. canon (detail_to_cbor d)) (details e)))"
    by (simp add: comp_def)
  moreover have "rmap detail_from_cbor (map (\<lambda>d. canon (detail_to_cbor d)) (details e)) = Inr (map (\<lambda>d. d) (details e))"
    by (intro rmap_map_Inr detail_from_canon)
  ultimately show ?thesis using assms(1) bs by (auto simp: details_cbor_def details_from_cbor_def)
qed

theorem error_details_roundtrip_witness:
  "\<exists>bs. details_cbor (with_details (loom_error_new InvalidArgument [])
        [InvalidField (ascii ''x'') None [ascii ''a'', ascii ''b''], Retry True (Some 250)]) = Some bs
     \<and> details_from_cbor bs = Inr [InvalidField (ascii ''x'') None [ascii ''a'', ascii ''b''], Retry True (Some 250)]"
proof -
  let ?e = "with_details (loom_error_new InvalidArgument [])
    [InvalidField (ascii ''x'') None [ascii ''a'', ascii ''b''], Retry True (Some 250)]"
  have d: "details ?e = [InvalidField (ascii ''x'') None [ascii ''a'', ascii ''b''], Retry True (Some 250)]"
    by (simp add: with_details_def loom_error_new_def)
  have "\<forall>d \<in> set (details ?e). detail_wf d"
    unfolding d by (simp add: detail_wf_def text_pair_def optional_text_pair_def ascii_def)
  from error_details_roundtrip [of ?e, OF _ _ this] show ?thesis by (simp add: d)
qed

text \<open>Every error code has its own stable number and its own stable token, so a peer can recover
  the code from either.\<close>

theorem error_codes_distinct:
  "(code_as_i32 a = code_as_i32 b) = (a = b) \<and> (code_as_str a = code_as_str b) = (a = b)"
  using code_as_i32_inj code_as_str_inj by (simp add: inj_eq)

end
