(* ===== verification/Loom_Object.thy ===== *)
theory Loom_Object
  imports Loom_Error
begin

text \<open>
  Content addresses (\<^verbatim>\<open>crates/loom-types/src/digest.rs\<close>), the CBOR field helpers of the engine
  (\<^verbatim>\<open>crates/loom-core/src/cbor.rs\<close>) and the five content objects with their canonical form
  (\<^verbatim>\<open>crates/loom-core/src/object.rs\<close>).

  The hash functions are third-party code: \<open>hash\<close> is a parameter of the definitions that address
  content. A digest keeps the algorithm it was made with, while its equality, its order and every map
  keyed by it look at the 32 bytes only. A panic of the \<^verbatim>\<open>expect\<close> in \<^verbatim>\<open>Object::canonical\<close> is the \<open>Inl\<close> of
  \<open>canonical\<close>.
\<close>

section \<open>Digests\<close>

definition DIGEST_LEN :: nat where "DIGEST_LEN = 32"

datatype Algo = Blake3 | Sha256

fun algo_as_str :: "Algo \<Rightarrow> string" where
  "algo_as_str Blake3 = ''blake3''"
| "algo_as_str Sha256 = ''sha256''"

fun algo_code :: "Algo \<Rightarrow> u8" where
  "algo_code Blake3 = 0x1e"
| "algo_code Sha256 = 0x12"

definition algo_from_code :: "u8 \<Rightarrow> Algo res" where
  "algo_from_code c = (if c = 0x1e then Inr Blake3 else if c = 0x12 then Inr Sha256 else Inl Unsupported)"

definition algo_from_name :: "bytes \<Rightarrow> Algo res" where
  "algo_from_name n = (if n = ascii ''blake3'' then Inr Blake3
     else if n = ascii ''sha256'' then Inr Sha256 else Inl Unsupported)"

record Digest =
  d_algo :: Algo
  d_bytes :: bytes

type_synonym hash_fn = "Algo \<Rightarrow> bytes \<Rightarrow> bytes"

definition digest_eq :: "Digest \<Rightarrow> Digest \<Rightarrow> bool" where
  "digest_eq a b \<longleftrightarrow> d_bytes a = d_bytes b"

definition digest_hash :: "hash_fn \<Rightarrow> Algo \<Rightarrow> bytes \<Rightarrow> Digest" where
  "digest_hash hash algo content = \<lparr>d_algo = algo, d_bytes = hash algo content\<rparr>"

definition digest_of :: "Algo \<Rightarrow> bytes \<Rightarrow> Digest" where
  "digest_of algo b = \<lparr>d_algo = algo, d_bytes = b\<rparr>"

definition digest_blake3 :: "hash_fn \<Rightarrow> bytes \<Rightarrow> Digest" where
  "digest_blake3 hash content = digest_hash hash Blake3 content"

definition from_blake3_bytes :: "bytes \<Rightarrow> Digest" where
  "from_blake3_bytes b = digest_of Blake3 b"

fun split_once :: "u8 \<Rightarrow> bytes \<Rightarrow> (bytes \<times> bytes) option" where
  "split_once c [] = None"
| "split_once c (x # xs) = (if x = c then Some ([], xs)
     else map_option (\<lambda>(a, b). (x # a, b)) (split_once c xs))"

definition digest_display :: "(bytes \<Rightarrow> bytes) \<Rightarrow> Digest \<Rightarrow> bytes" where
  "digest_display hex_encode d = ascii (algo_as_str (d_algo d)) @ ascii '':'' @ hex_encode (d_bytes d)"

definition digest_parse :: "(bytes \<Rightarrow> bytes option) \<Rightarrow> bytes \<Rightarrow> Digest res" where
  "digest_parse hex_decode s =
    rbind (ok_or InvalidArgument (split_once 0x3a s)) (\<lambda>(algo_str, hex_str).
    rbind (algo_from_name algo_str) (\<lambda>algo.
    rbind (ok_or InvalidArgument (hex_decode hex_str)) (\<lambda>raw.
      if length raw = DIGEST_LEN then Inr (digest_of algo raw) else Inl InvalidArgument)))"

section \<open>CBOR fields\<close>

definition cbor_decode :: "bytes \<Rightarrow> Value res" where
  "cbor_decode bs = map_err (\<lambda>_. CorruptObject) (decode bs)"

definition digest_value :: "Digest \<Rightarrow> Value" where
  "digest_value d = Bytes (d_bytes d)"

definition as_uint :: "Value \<Rightarrow> u64 res" where
  "as_uint v = (case v of Uint n \<Rightarrow> Inr n | _ \<Rightarrow> Inl CorruptObject)"

definition u8_from :: "u64 \<Rightarrow> u8 res" where
  "u8_from n = (if n \<le> 0xFF then Inr (ucast n) else Inl CorruptObject)"

definition as_int :: "Value \<Rightarrow> u64 res" where
  "as_int v = (case v of
      Uint n \<Rightarrow> if n \<le> 0x7FFFFFFFFFFFFFFF then Inr n else Inl CorruptObject
    | Nint n \<Rightarrow> if n \<le> 0x7FFFFFFFFFFFFFFF then Inr (- 1 - n) else Inl CorruptObject
    | _ \<Rightarrow> Inl CorruptObject)"

definition as_bool :: "Value \<Rightarrow> bool res" where
  "as_bool v = (case v of Bool b \<Rightarrow> Inr b | _ \<Rightarrow> Inl CorruptObject)"

definition as_bytes :: "Value \<Rightarrow> bytes res" where
  "as_bytes v = (case v of Bytes b \<Rightarrow> Inr b | _ \<Rightarrow> Inl CorruptObject)"

definition as_text :: "Value \<Rightarrow> bytes res" where
  "as_text v = (case v of Text s \<Rightarrow> Inr s | _ \<Rightarrow> Inl CorruptObject)"

definition as_array :: "Value \<Rightarrow> Value list res" where
  "as_array v = (case v of Array a \<Rightarrow> Inr a | _ \<Rightarrow> Inl CorruptObject)"

definition as_map :: "Value \<Rightarrow> (Value \<times> Value) list res" where
  "as_map v = (case v of Map m \<Rightarrow> Inr m | _ \<Rightarrow> Inl CorruptObject)"

definition as_digest :: "Value \<Rightarrow> Digest res" where
  "as_digest v = rbind (as_bytes v) (\<lambda>b.
     if length b = DIGEST_LEN then Inr (from_blake3_bytes b) else Inl CorruptObject)"

definition decode_array :: "bytes \<Rightarrow> Value list res" where
  "decode_array bs = rbind (cbor_decode bs) as_array"

type_synonym fields = "Value list"

fun next_field :: "fields \<Rightarrow> (Value \<times> fields) res" where
  "next_field [] = Inl CorruptObject"
| "next_field (v # f) = Inr (v, f)"

definition field_with :: "(Value \<Rightarrow> 'a res) \<Rightarrow> fields \<Rightarrow> ('a \<times> fields) res" where
  "field_with conv f = rbind (next_field f) (\<lambda>(v, f'). rbind (conv v) (\<lambda>x. Inr (x, f')))"

definition f_uint :: "fields \<Rightarrow> (u64 \<times> fields) res" where "f_uint = field_with as_uint"
definition f_int :: "fields \<Rightarrow> (u64 \<times> fields) res" where "f_int = field_with as_int"
definition f_bool :: "fields \<Rightarrow> (bool \<times> fields) res" where "f_bool = field_with as_bool"
definition f_bytes :: "fields \<Rightarrow> (bytes \<times> fields) res" where "f_bytes = field_with as_bytes"
definition f_text :: "fields \<Rightarrow> (bytes \<times> fields) res" where "f_text = field_with as_text"
definition f_array :: "fields \<Rightarrow> (Value list \<times> fields) res" where "f_array = field_with as_array"
definition f_map :: "fields \<Rightarrow> ((Value \<times> Value) list \<times> fields) res" where "f_map = field_with as_map"
definition f_digest :: "fields \<Rightarrow> (Digest \<times> fields) res" where "f_digest = field_with as_digest"

definition f_end :: "fields \<Rightarrow> unit res" where
  "f_end f = (if f = [] then Inr () else Inl CorruptObject)"

section \<open>Objects\<close>

datatype ObjectType = OT_Blob | OT_ChunkList | OT_Tree | OT_Commit | OT_Tag

fun object_type_code :: "ObjectType \<Rightarrow> u8" where
  "object_type_code OT_Blob = 0x01"
| "object_type_code OT_ChunkList = 0x02"
| "object_type_code OT_Tree = 0x03"
| "object_type_code OT_Commit = 0x04"
| "object_type_code OT_Tag = 0x05"

definition object_type_from_u8 :: "u8 \<Rightarrow> ObjectType res" where
  "object_type_from_u8 b =
    (if b = 0x01 then Inr OT_Blob else if b = 0x02 then Inr OT_ChunkList
     else if b = 0x03 then Inr OT_Tree else if b = 0x04 then Inr OT_Commit
     else if b = 0x05 then Inr OT_Tag else Inl CorruptObject)"

datatype EntryKind =
    EK_Tree | EK_Blob | EK_Symlink | EK_Subloom | EK_TreeShard | EK_Table | EK_ProllyMap
  | EK_Stream | EK_TimeSeries | EK_Graph | EK_Ledger | EK_Columnar | EK_Document

fun entry_kind_code :: "EntryKind \<Rightarrow> u8" where
  "entry_kind_code EK_Tree = 0x01"
| "entry_kind_code EK_Blob = 0x02"
| "entry_kind_code EK_Symlink = 0x03"
| "entry_kind_code EK_Subloom = 0x04"
| "entry_kind_code EK_TreeShard = 0x05"
| "entry_kind_code EK_Table = 0x06"
| "entry_kind_code EK_ProllyMap = 0x07"
| "entry_kind_code EK_Stream = 0x08"
| "entry_kind_code EK_TimeSeries = 0x09"
| "entry_kind_code EK_Graph = 0x0a"
| "entry_kind_code EK_Ledger = 0x0b"
| "entry_kind_code EK_Columnar = 0x0c"
| "entry_kind_code EK_Document = 0x0d"

definition entry_kind_from_u8 :: "u8 \<Rightarrow> EntryKind res" where
  "entry_kind_from_u8 b =
    (if b = 0x01 then Inr EK_Tree else if b = 0x02 then Inr EK_Blob
     else if b = 0x03 then Inr EK_Symlink else if b = 0x04 then Inr EK_Subloom
     else if b = 0x05 then Inr EK_TreeShard else if b = 0x06 then Inr EK_Table
     else if b = 0x07 then Inr EK_ProllyMap else if b = 0x08 then Inr EK_Stream
     else if b = 0x09 then Inr EK_TimeSeries else if b = 0x0a then Inr EK_Graph
     else if b = 0x0b then Inr EK_Ledger else if b = 0x0c then Inr EK_Columnar
     else if b = 0x0d then Inr EK_Document else Inl CorruptObject)"

record TreeEntry =
  te_name :: bytes
  te_kind :: EntryKind
  te_target :: Digest
  te_mode :: u32

record ChunkRef =
  cr_target :: Digest
  cr_size :: u64

record Commit =
  c_tree :: Digest
  c_parents :: "Digest list"
  c_author :: bytes
  c_timestamp_ms :: u64
  c_message :: bytes
  c_meta :: "(bytes \<times> bytes) list"

record Tag =
  t_target :: Digest
  t_target_type :: ObjectType
  t_name :: bytes
  t_tagger :: bytes
  t_timestamp_ms :: u64
  t_message :: bytes

datatype Object =
    Blob bytes
  | ChunkList u64 "ChunkRef list"
  | Tree "TreeEntry list"
  | CommitObj Commit
  | TagObj Tag

definition object_tree :: "TreeEntry list \<Rightarrow> Object res" where
  "object_tree es = (let entries = sort_key te_name es in
     if adjacent_equal (map te_name entries) then Inl InvalidArgument else Inr (Tree entries))"

fun object_type :: "Object \<Rightarrow> ObjectType" where
  "object_type (Blob _) = OT_Blob"
| "object_type (ChunkList _ _) = OT_ChunkList"
| "object_type (Tree _) = OT_Tree"
| "object_type (CommitObj _) = OT_Commit"
| "object_type (TagObj _) = OT_Tag"

definition chunk_ref_value :: "ChunkRef \<Rightarrow> Value" where
  "chunk_ref_value e = Array [digest_value (cr_target e), Uint (cr_size e)]"

definition tree_entry_value :: "TreeEntry \<Rightarrow> Value" where
  "tree_entry_value e = Array [Text (te_name e), Uint (ucast (entry_kind_code (te_kind e))),
     digest_value (te_target e), Uint (ucast (te_mode e))]"

fun cbor_fields :: "Object \<Rightarrow> u16 \<times> Value list" where
  "cbor_fields (Blob payload) = (ucast (object_type_code OT_Blob), [Bytes payload])"
| "cbor_fields (ChunkList total_size entries) =
    (ucast (object_type_code OT_ChunkList), [Uint total_size, Array (map chunk_ref_value entries)])"
| "cbor_fields (Tree entries) =
    (ucast (object_type_code OT_Tree), [Array (map tree_entry_value entries)])"
| "cbor_fields (CommitObj c) =
    (ucast (object_type_code OT_Commit),
     [digest_value (c_tree c), Array (map digest_value (c_parents c)), Text (c_author c),
      Uint (c_timestamp_ms c), Text (c_message c), Map (map (\<lambda>(k, v). (Text k, Text v)) (c_meta c))])"
| "cbor_fields (TagObj t) =
    (ucast (object_type_code OT_Tag),
     [digest_value (t_target t), Uint (ucast (object_type_code (t_target_type t))), Text (t_name t),
      Text (t_tagger t), Uint (t_timestamp_ms t), Text (t_message t)])"

definition canonical :: "Object \<Rightarrow> CodecError + bytes" where
  "canonical obj = (let (type_code, fields) = cbor_fields obj in encode_object type_code fields)"

definition digest_with :: "hash_fn \<Rightarrow> Object \<Rightarrow> Algo \<Rightarrow> CodecError + Digest" where
  "digest_with hash obj algo = rbind (canonical obj) (\<lambda>b. Inr (digest_hash hash algo b))"

definition content_address_with :: "hash_fn \<Rightarrow> Algo \<Rightarrow> bytes \<Rightarrow> Digest" where
  "content_address_with hash algo content = digest_hash hash algo content"

section \<open>Decoding objects\<close>

definition decode_chunk_ref :: "Value \<Rightarrow> ChunkRef res" where
  "decode_chunk_ref item =
    rbind (as_array item) (\<lambda>e.
    rbind (f_digest e) (\<lambda>(target, e1).
    rbind (f_uint e1) (\<lambda>(size, e2).
    rbind (f_end e2) (\<lambda>_. Inr \<lparr>cr_target = target, cr_size = size\<rparr>))))"

definition u32_from :: "u64 \<Rightarrow> u32 res" where
  "u32_from n = (if n \<le> 0xFFFFFFFF then Inr (ucast n) else Inl CorruptObject)"

definition decode_tree_entry :: "TreeEntry list \<Rightarrow> Value \<Rightarrow> TreeEntry list res" where
  "decode_tree_entry entries item =
    rbind (as_array item) (\<lambda>e.
    rbind (f_text e) (\<lambda>(name, e1).
    rbind (f_uint e1) (\<lambda>(k, e2).
    rbind (u8_from k) (\<lambda>kb.
    rbind (entry_kind_from_u8 kb) (\<lambda>kind.
    rbind (f_digest e2) (\<lambda>(target, e3).
    rbind (f_uint e3) (\<lambda>(m, e4).
    rbind (u32_from m) (\<lambda>mode.
    rbind (f_end e4) (\<lambda>_.
      if entries \<noteq> [] \<and> name \<le> te_name (last entries) then Inl CorruptObject
      else Inr (entries @ [\<lparr>te_name = name, te_kind = kind, te_target = target, te_mode = mode\<rparr>]))))))))))"

definition decode_meta_entry :: "(bytes \<times> bytes) list \<Rightarrow> Value \<times> Value \<Rightarrow> (bytes \<times> bytes) list res" where
  "decode_meta_entry meta kv =
    rbind (as_text (fst kv)) (\<lambda>k. rbind (as_text (snd kv)) (\<lambda>v. Inr (bt_insert k v meta)))"

definition decode_fields :: "ObjectType \<Rightarrow> fields \<Rightarrow> (Object \<times> fields) res" where
  "decode_fields ty f = (case ty of
      OT_Blob \<Rightarrow> rbind (f_bytes f) (\<lambda>(b, f1). Inr (Blob b, f1))
    | OT_ChunkList \<Rightarrow>
        rbind (f_uint f) (\<lambda>(total_size, f1).
        rbind (f_array f1) (\<lambda>(items, f2).
        rbind (rmap decode_chunk_ref items) (\<lambda>entries. Inr (ChunkList total_size entries, f2))))
    | OT_Tree \<Rightarrow>
        rbind (f_array f) (\<lambda>(items, f1).
        rbind (rfold decode_tree_entry [] items) (\<lambda>entries. Inr (Tree entries, f1)))
    | OT_Commit \<Rightarrow>
        rbind (f_digest f) (\<lambda>(tree, f1).
        rbind (f_array f1) (\<lambda>(ps, f2).
        rbind (rmap as_digest ps) (\<lambda>parents.
        rbind (f_text f2) (\<lambda>(author, f3).
        rbind (f_uint f3) (\<lambda>(timestamp_ms, f4).
        rbind (f_text f4) (\<lambda>(message, f5).
        rbind (f_map f5) (\<lambda>(kvs, f6).
        rbind (rfold decode_meta_entry [] kvs) (\<lambda>meta.
          Inr (CommitObj \<lparr>c_tree = tree, c_parents = parents, c_author = author,
            c_timestamp_ms = timestamp_ms, c_message = message, c_meta = meta\<rparr>, f6)))))))))
    | OT_Tag \<Rightarrow>
        rbind (f_digest f) (\<lambda>(target, f1).
        rbind (f_uint f1) (\<lambda>(tt, f2).
        rbind (u8_from tt) (\<lambda>ttb.
        rbind (object_type_from_u8 ttb) (\<lambda>target_type.
        rbind (f_text f2) (\<lambda>(name, f3).
        rbind (f_text f3) (\<lambda>(tagger, f4).
        rbind (f_uint f4) (\<lambda>(timestamp_ms, f5).
        rbind (f_text f5) (\<lambda>(message, f6).
          Inr (TagObj \<lparr>t_target = target, t_target_type = target_type, t_name = name,
            t_tagger = tagger, t_timestamp_ms = timestamp_ms, t_message = message\<rparr>, f6))))))))))"

definition object_decode :: "bytes \<Rightarrow> Object res" where
  "object_decode bs =
    rbind (map_err (\<lambda>_. CorruptObject) (decode_object bs)) (\<lambda>(type_code, fields).
    rbind (u8_from (ucast type_code)) (\<lambda>b.
    rbind (object_type_from_u8 b) (\<lambda>ty.
    rbind (decode_fields ty fields) (\<lambda>(obj, f).
    rbind (f_end f) (\<lambda>_. Inr obj)))))"

section \<open>What the field readers accept\<close>

named_theorems cbor_iff

lemma conv_iff [cbor_iff]:
  "as_uint v = Inr n \<longleftrightarrow> v = Uint n"
  "as_bool v = Inr t \<longleftrightarrow> v = Bool t"
  "as_bytes v = Inr b \<longleftrightarrow> v = Bytes b"
  "as_text v = Inr b \<longleftrightarrow> v = Text b"
  "as_array v = Inr vs \<longleftrightarrow> v = Array vs"
  "as_map v = Inr ps \<longleftrightarrow> v = Map ps"
  by (auto simp: as_uint_def as_bool_def as_bytes_def as_text_def as_array_def as_map_def split: Value.splits)

definition digest_ok :: "Digest \<Rightarrow> bool" where
  "digest_ok d \<longleftrightarrow> d_algo d = Blake3 \<and> length (d_bytes d) = DIGEST_LEN"

lemma as_digest_iff [cbor_iff]: "as_digest v = Inr d \<longleftrightarrow> v = digest_value d \<and> digest_ok d"
  by (cases d) (auto simp: as_digest_def result_simps cbor_iff digest_value_def digest_ok_def
      from_blake3_bytes_def digest_of_def)

lemma next_field_iff: "next_field f = Inr (v, f') \<longleftrightarrow> f = v # f'"
  by (cases f) auto

lemma field_iff [cbor_iff]:
  "f_uint f = Inr (n, f') \<longleftrightarrow> f = Uint n # f'"
  "f_bool f = Inr (t, f') \<longleftrightarrow> f = Bool t # f'"
  "f_bytes f = Inr (b, f') \<longleftrightarrow> f = Bytes b # f'"
  "f_text f = Inr (b, f') \<longleftrightarrow> f = Text b # f'"
  "f_array f = Inr (vs, f') \<longleftrightarrow> f = Array vs # f'"
  "f_map f = Inr (ps, f') \<longleftrightarrow> f = Map ps # f'"
  "f_digest f = Inr (d, f') \<longleftrightarrow> f = digest_value d # f' \<and> digest_ok d"
  by (auto simp: f_uint_def f_bool_def f_bytes_def f_text_def f_array_def f_map_def f_digest_def
      field_with_def result_simps cbor_iff next_field_iff)

lemma f_end_iff [cbor_iff]: "f_end f = Inr u \<longleftrightarrow> f = []"
  by (simp add: f_end_def)

lemma u8_from_iff [cbor_iff]: "u8_from n = Inr b \<longleftrightarrow> n = ucast b"
  using unat_bound [of b] unat_bound [of n]
  by (auto simp: u8_from_def word_le_nat_alt word_unat_eq_iff unat_ucast)

lemma u32_from_iff [cbor_iff]: "u32_from n = Inr w \<longleftrightarrow> n = ucast w"
  using unat_bound [of w] unat_bound [of n]
  by (auto simp: u32_from_def word_le_nat_alt word_unat_eq_iff unat_ucast)

lemma object_type_from_u8_iff [cbor_iff]: "object_type_from_u8 b = Inr t \<longleftrightarrow> b = object_type_code t"
  by (cases t) (auto simp: object_type_from_u8_def)

lemma entry_kind_from_u8_iff [cbor_iff]: "entry_kind_from_u8 b = Inr k \<longleftrightarrow> b = entry_kind_code k"
  by (cases k) (auto simp: entry_kind_from_u8_def)

lemma cbor_eval:
  "f_uint (Uint n # f) = Inr (n, f)"
  "f_text (Text b # f) = Inr (b, f)"
  "f_bytes (Bytes b # f) = Inr (b, f)"
  "f_array (Array vs # f) = Inr (vs, f)"
  "f_map (Map ps # f) = Inr (ps, f)"
  "digest_ok d \<Longrightarrow> f_digest (digest_value d # f) = Inr (d, f)"
  "u8_from (ucast byte) = Inr byte"
  "u32_from (ucast w) = Inr w"
  "object_type_from_u8 (object_type_code t) = Inr t"
  "entry_kind_from_u8 (entry_kind_code k) = Inr k"
  "as_array (Array vs) = Inr vs"
  "as_text (Text b) = Inr b"
  "f_end [] = Inr ()"
  by (simp_all add: cbor_iff)

lemma sint_nonneg_u64: "0 \<le> sint (v :: u64) \<longleftrightarrow> unat v < 2 ^ 63"
proof -
  have "0 \<le> sint v \<longleftrightarrow> \<not> bit (uint v) 63"
    by (simp add: sint_uint signed_take_bit_nonnegative_iff)
  also have "bit (uint v) 63 \<longleftrightarrow> bit (unat v) 63"
    by (simp add: bit_unsigned_iff)
  also have "\<dots> \<longleftrightarrow> odd (unat v div 2 ^ 63)"
    by (rule bit_iff_odd)
  finally have *: "0 \<le> sint v \<longleftrightarrow> even (unat v div 2 ^ 63)" by simp
  have "unat v div 2 ^ 63 < 2" using unat_bound [of v] by (simp add: less_mult_imp_div_less)
  then consider "unat v div 2 ^ 63 = 0" | "unat v div 2 ^ 63 = 1" by linarith
  then have "even (unat v div 2 ^ 63) \<longleftrightarrow> unat v div 2 ^ 63 = 0" by cases simp_all
  with * show ?thesis by (simp add: div_eq_0_iff)
qed

lemma as_int_value_int: "as_int (value_int v) = Inr v"
proof (cases "unat v < 2 ^ 63")
  case True
  then show ?thesis by (simp add: value_int_def as_int_def sint_nonneg_u64 word_le_nat_alt)
next
  case False
  have "unat (- 1 - v) = 2 ^ 64 - 1 - unat v"
    using unat_bound [of v] by (subst unat_sub) (simp_all add: word_le_nat_alt unat_max)
  then show ?thesis using False by (simp add: value_int_def as_int_def sint_nonneg_u64 word_le_nat_alt)
qed

lemma decode_chunk_ref_iff:
  "decode_chunk_ref v = Inr e \<longleftrightarrow> v = chunk_ref_value e \<and> digest_ok (cr_target e)"
  by (cases e) (auto simp: decode_chunk_ref_def result_simps cbor_iff chunk_ref_value_def split: prod.splits)

lemma rmap_iff:
  assumes "\<And>v x. f v = Inr x \<longleftrightarrow> v = g x \<and> P x"
  shows "rmap f vs = Inr xs \<longleftrightarrow> vs = map g xs \<and> list_all P xs"
proof (induction vs arbitrary: xs)
  case Nil
  show ?case by (cases xs) auto
next
  case (Cons v vs)
  show ?case by (cases xs) (auto simp: result_simps assms Cons.IH)
qed

lemma decode_tree_entry_iff:
  "decode_tree_entry es v = Inr es' \<longleftrightarrow> (\<exists>e. v = tree_entry_value e \<and> digest_ok (te_target e) \<and> es' = es @ [e]
     \<and> (es \<noteq> [] \<longrightarrow> te_name (last es) < te_name e))"
proof
  assume "decode_tree_entry es v = Inr es'"
  then show "\<exists>e. v = tree_entry_value e \<and> digest_ok (te_target e) \<and> es' = es @ [e]
     \<and> (es \<noteq> [] \<longrightarrow> te_name (last es) < te_name e)"
    by (auto simp: decode_tree_entry_def result_simps cbor_iff tree_entry_value_def not_le split: prod.splits if_splits)
next
  assume "\<exists>e. v = tree_entry_value e \<and> digest_ok (te_target e) \<and> es' = es @ [e]
     \<and> (es \<noteq> [] \<longrightarrow> te_name (last es) < te_name e)"
  then obtain e where e: "v = tree_entry_value e" "digest_ok (te_target e)" "es' = es @ [e]"
     "es \<noteq> [] \<longrightarrow> te_name (last es) < te_name e" by blast
  then show "decode_tree_entry es v = Inr es'"
    by (auto simp: decode_tree_entry_def cbor_eval tree_entry_value_def)
qed

section \<open>Decoding against the canonical fields\<close>

definition names_ascending :: "TreeEntry list \<Rightarrow> bool" where
  "names_ascending es = sorted_wrt (<) (map te_name es)"

lemma names_ascending_snoc:
  "names_ascending (es @ [e]) \<longleftrightarrow> names_ascending es \<and> (es \<noteq> [] \<longrightarrow> te_name (last es) < te_name e)"
proof (cases es rule: rev_cases)
  case (snoc fs f)
  then show ?thesis
    by (auto simp: names_ascending_def sorted_wrt_append dest: order.strict_trans)
qed (simp add: names_ascending_def)

lemma rfold_tree_iff:
  assumes "names_ascending acc"
  shows "rfold decode_tree_entry acc vs = Inr es' \<longleftrightarrow>
    (\<exists>es. vs = map tree_entry_value es \<and> es' = acc @ es \<and> list_all (\<lambda>e. digest_ok (te_target e)) es
      \<and> names_ascending (acc @ es))"
  using assms
proof (induction vs arbitrary: acc)
  case Nil
  then show ?case by auto
next
  case (Cons v vs)
  show ?case
  proof
    assume "rfold decode_tree_entry acc (v # vs) = Inr es'"
    then obtain e where e: "v = tree_entry_value e" "digest_ok (te_target e)"
        "acc \<noteq> [] \<longrightarrow> te_name (last acc) < te_name e" "rfold decode_tree_entry (acc @ [e]) vs = Inr es'"
      by (auto simp: result_simps decode_tree_entry_iff)
    have "names_ascending (acc @ [e])" using Cons.prems e(3) by (simp add: names_ascending_snoc)
    from Cons.IH [OF this] e show "\<exists>es. v # vs = map tree_entry_value es \<and> es' = acc @ es
        \<and> list_all (\<lambda>e. digest_ok (te_target e)) es \<and> names_ascending (acc @ es)"
      by (auto intro: exI [where x = "e # _"])
  next
    assume "\<exists>es. v # vs = map tree_entry_value es \<and> es' = acc @ es
        \<and> list_all (\<lambda>e. digest_ok (te_target e)) es \<and> names_ascending (acc @ es)"
    then obtain e es where e: "v = tree_entry_value e" "vs = map tree_entry_value es" "es' = (acc @ [e]) @ es"
        "digest_ok (te_target e)" "list_all (\<lambda>e. digest_ok (te_target e)) es" "names_ascending ((acc @ [e]) @ es)"
      by (auto simp: Cons_eq_map_conv)
    then have a: "names_ascending (acc @ [e])" by (simp add: names_ascending_def sorted_wrt_append)
    then have "decode_tree_entry acc v = Inr (acc @ [e])"
      using e by (simp add: decode_tree_entry_iff names_ascending_snoc)
    moreover have "rfold decode_tree_entry (acc @ [e]) vs = Inr es'" using Cons.IH [OF a] e by blast
    ultimately show "rfold decode_tree_entry acc (v # vs) = Inr es'" by simp
  qed
qed

definition text_pairs :: "(bytes \<times> bytes) list \<Rightarrow> (Value \<times> Value) list" where
  "text_pairs kv = map (\<lambda>(k, v). (Text k, Text v)) kv"

definition meta_of :: "(bytes \<times> bytes) list \<Rightarrow> (bytes \<times> bytes) list \<Rightarrow> (bytes \<times> bytes) list" where
  "meta_of m kv = foldl (\<lambda>m (k, v). bt_insert k v m) m kv"

lemma rfold_meta_iff:
  "rfold decode_meta_entry m ps = Inr m' \<longleftrightarrow> (\<exists>kv. ps = text_pairs kv \<and> m' = meta_of m kv)"
proof (induction ps arbitrary: m)
  case Nil
  then show ?case by (auto simp: text_pairs_def meta_of_def)
next
  case (Cons p ps)
  have "rfold decode_meta_entry m (p # ps) = Inr m' \<longleftrightarrow>
      (\<exists>k v. p = (Text k, Text v) \<and> rfold decode_meta_entry (bt_insert k v m) ps = Inr m')"
    by (cases p) (auto simp: result_simps decode_meta_entry_def cbor_iff)
  also have "\<dots> \<longleftrightarrow> (\<exists>kv. p # ps = text_pairs kv \<and> m' = meta_of m kv)"
    unfolding Cons.IH
    by (auto simp: text_pairs_def meta_of_def Cons_eq_map_conv)
       (metis (mono_tags, lifting) case_prod_conv foldl_Cons)
  finally show ?case .
qed

lemma bt_sorted_meta_of: "bt_sorted m \<Longrightarrow> bt_sorted (meta_of m kv)"
  by (induction kv arbitrary: m) (auto simp: meta_of_def)

lemma map_of_meta_of: "distinct (map fst kv) \<Longrightarrow> map_of (meta_of m kv) = map_of m ++ map_of kv"
proof (induction kv arbitrary: m)
  case (Cons p kv)
  obtain k v where p: "p = (k, v)" by force
  have "meta_of m (p # kv) = meta_of (bt_insert k v m) kv" by (simp add: meta_of_def p)
  moreover have "(map_of m)(k \<mapsto> v) ++ map_of kv = map_of m ++ map_of (p # kv)"
  proof -
    have "map_of kv k = None" using Cons.prems by (simp add: p map_of_eq_None_iff)
    then show ?thesis by (auto simp: p map_add_def fun_eq_iff split: option.splits)
  qed
  moreover have "map_of (meta_of (bt_insert k v m) kv) = (map_of m)(k \<mapsto> v) ++ map_of kv"
    using Cons by (simp add: map_of_bt_insert)
  ultimately show ?case by (simp only:)
qed (simp add: meta_of_def)

definition retag :: "Digest \<Rightarrow> Digest" where
  "retag d = d\<lparr>d_algo := Blake3\<rparr>"

fun retag_object :: "Object \<Rightarrow> Object" where
  "retag_object (Blob b) = Blob b"
| "retag_object (ChunkList n es) = ChunkList n (map (\<lambda>e. e\<lparr>cr_target := retag (cr_target e)\<rparr>) es)"
| "retag_object (Tree es) = Tree (map (\<lambda>e. e\<lparr>te_target := retag (te_target e)\<rparr>) es)"
| "retag_object (CommitObj c) = CommitObj (c\<lparr>c_tree := retag (c_tree c), c_parents := map retag (c_parents c)\<rparr>)"
| "retag_object (TagObj t) = TagObj (t\<lparr>t_target := retag (t_target t)\<rparr>)"

definition str_wf :: "bytes \<Rightarrow> bool" where
  "str_wf s \<longleftrightarrow> utf8_valid s \<and> length s < 2 ^ 64"

definition digest_wf :: "Digest \<Rightarrow> bool" where
  "digest_wf d \<longleftrightarrow> length (d_bytes d) = DIGEST_LEN"

fun object_wf :: "Object \<Rightarrow> bool" where
  "object_wf (Blob b) = (length b < 2 ^ 64)"
| "object_wf (ChunkList n es) = (length es < 2 ^ 64 \<and> list_all (\<lambda>e. digest_wf (cr_target e)) es)"
| "object_wf (Tree es) = (length es < 2 ^ 64 \<and> names_ascending es
     \<and> list_all (\<lambda>e. str_wf (te_name e) \<and> digest_wf (te_target e)) es)"
| "object_wf (CommitObj c) = (digest_wf (c_tree c) \<and> length (c_parents c) < 2 ^ 64
     \<and> list_all digest_wf (c_parents c) \<and> str_wf (c_author c) \<and> str_wf (c_message c)
     \<and> length (c_meta c) < 2 ^ 64 \<and> bt_sorted (c_meta c)
     \<and> list_all (\<lambda>(k, v). str_wf k \<and> str_wf v) (c_meta c))"
| "object_wf (TagObj t) = (digest_wf (t_target t) \<and> str_wf (t_name t) \<and> str_wf (t_tagger t)
     \<and> str_wf (t_message t))"

lemma retag_simps: "digest_value (retag d) = digest_value d" "digest_wf d \<Longrightarrow> digest_ok (retag d)"
  by (simp_all add: retag_def digest_value_def digest_wf_def digest_ok_def)

lemma object_wf_digest_value [simp]: "digest_wf d \<Longrightarrow> value_wf (digest_value d)"
  by (simp add: digest_wf_def digest_value_def DIGEST_LEN_def)

lemma digest_value_atom [simp]:
  "vdepth (digest_value d) = 0" "canon (digest_value d) = digest_value d"
  "encode (digest_value d) = Inr (enc (digest_value d))"
  by (simp_all add: digest_value_def encode_simps enc_simps)

lemma atoms_encode:
  "encode (Uint n) = Inr (enc (Uint n))" "encode (Bytes b) = Inr (enc (Bytes b))"
  "encode (Text b) = Inr (enc (Text b))"
  by (simp_all add: encode_simps enc_simps)

lemma encode_Array_ok: "\<forall>v \<in> set vs. encode v = Inr (enc v) \<Longrightarrow> encode (Array vs) = Inr (enc (Array vs))"
proof -
  assume "\<forall>v \<in> set vs. encode v = Inr (enc v)"
  then have "rmap encode vs = Inr (map enc vs)" by (induction vs) auto
  then show ?thesis by (simp add: enc_def [of "Array vs"] encode_simps)
qed

lemma text_pairs_encode:
  assumes "distinct (map fst kv)" and "list_all (\<lambda>(k, v). str_wf k \<and> str_wf v) kv"
  shows "encode (Map (text_pairs kv)) = Inr (enc (Map (text_pairs kv)))"
proof -
  have "inj_on (\<lambda>k. enc (Text k)) (fst ` set kv)"
  proof (rule inj_onI)
    fix a b
    assume "a \<in> fst ` set kv" "b \<in> fst ` set kv" "enc (Text a) = enc (Text b)"
    moreover from this have "str_wf a" "str_wf b" using assms(2) by (auto simp: list_all_iff)
    ultimately show "a = b" using enc_Text_inj [of a b] by (simp add: str_wf_def)
  qed
  with assms(1) have "distinct (map (\<lambda>k. enc (Text k)) (map fst kv))" by (simp only: distinct_map set_map simp_thms)
  then have "distinct (map (\<lambda>(k, v). enc k) (text_pairs kv))"
    by (simp add: text_pairs_def comp_def case_prod_unfold)
  moreover have "\<forall>(k, v) \<in> set (text_pairs kv). encode k = Inr (enc k) \<and> encode v = Inr (enc v)"
    by (auto simp: text_pairs_def atoms_encode)
  ultimately show ?thesis using encode_Map_eq by (simp add: enc_def [of "Map (text_pairs kv)"])
qed

lemma distinct_text_pairs: "distinct (map fst kv) \<Longrightarrow> distinct (map fst (text_pairs kv))"
  by (induction kv) (force simp: text_pairs_def)+

lemma text_pairs_distinct:
  assumes "encode (Map (text_pairs kv)) = Inr b"
  shows "distinct (map fst kv)"
proof -
  from assms obtain es where es: "rmap encode_pair (text_pairs kv) = Inr es" "\<not> adjacent_equal (map fst (sort_key fst es))"
    by (auto simp: encode_simps result_simps Let_def split: if_splits)
  then have e: "es = map (\<lambda>(k, v). (enc k, enc v)) (text_pairs kv)" using rmap_encode_pair_enc by blast
  have "distinct (map fst (sort_key fst es))"
    using es(2) not_adjacent_equal_strict [OF sorted_sort_key [of fst es]] by (simp add: strict_sorted_iff)
  then have "distinct (map (\<lambda>k. enc (Text k)) (map fst kv))"
    by (simp add: distinct_map_sort_key e text_pairs_def comp_def case_prod_unfold)
  then show ?thesis by (simp only: distinct_map)
qed

lemma canon_text_pairs:
  "canon (Map (text_pairs kv)) = Map (text_pairs (sort_key (\<lambda>(k, v). enc (Text k)) kv))"
  unfolding canon_Map text_pairs_def sort_key_map
  by (simp add: comp_def case_prod_unfold)

lemma meta_of_sorted:
  assumes "bt_sorted m"
  shows "meta_of [] (sort_key f m) = m"
proof (rule bt_ext)
  have "distinct (map fst m)" using assms by (rule bt_sorted_distinct)
  then show "map_of (meta_of [] (sort_key f m)) = map_of m"
    by (simp add: map_of_meta_of distinct_map_sort_key map_of_sort_key)
qed (simp_all add: assms bt_sorted_meta_of)

section \<open>Canonical form and decoding are inverse\<close>

lemma cbor_fields_type: "fst (cbor_fields obj) = ucast (object_type_code (object_type obj))"
  by (cases obj) auto

lemma ucast_u8_u16_u64: "ucast (ucast (b :: u8) :: u16) = (ucast b :: u64)"
  using unat_bound [of b] by (simp add: word_unat_eq_iff unat_ucast)

lemma vdepth_entries: "vdepth (chunk_ref_value e) \<le> 1" "vdepth (tree_entry_value t) \<le> 1"
  by (simp_all add: chunk_ref_value_def tree_entry_value_def)

lemma canon_entries [simp]:
  "canon (chunk_ref_value e) = chunk_ref_value e"
  "canon (tree_entry_value t) = tree_entry_value t"
  by (simp_all add: chunk_ref_value_def tree_entry_value_def)

lemma decode_fields_canonical:
  assumes "object_wf obj"
  shows "decode_fields (object_type obj) (map canon (snd (cbor_fields obj))) = Inr (retag_object obj, [])"
proof (cases obj)
  case (Blob b)
  then show ?thesis by (simp add: decode_fields_def cbor_eval)
next
  case (ChunkList n es)
  have "rmap decode_chunk_ref (map chunk_ref_value es) = Inr (map (\<lambda>e. e\<lparr>cr_target := retag (cr_target e)\<rparr>) es)"
    using assms unfolding ChunkList
    by (intro rmap_map_Inr) (simp add: decode_chunk_ref_iff chunk_ref_value_def retag_simps list_all_iff)
  then show ?thesis by (simp add: ChunkList decode_fields_def cbor_eval comp_def)
next
  case (Tree es)
  let ?r = "\<lambda>e. e\<lparr>te_target := retag (te_target e)\<rparr>"
  have "map tree_entry_value es = map tree_entry_value (map ?r es)"
    by (simp add: tree_entry_value_def retag_simps)
  moreover have "names_ascending (map ?r es)" using assms by (simp add: Tree names_ascending_def comp_def)
  moreover have "list_all (\<lambda>e. digest_ok (te_target e)) (map ?r es)"
    using assms by (auto simp: Tree list_all_iff retag_simps)
  ultimately have "rfold decode_tree_entry [] (map tree_entry_value es) = Inr (map ?r es)"
    by (subst rfold_tree_iff) (auto simp: names_ascending_def intro: exI [where x = "map ?r es"])
  then show ?thesis by (simp add: Tree decode_fields_def cbor_eval comp_def)
next
  case (CommitObj c)
  have wf: "digest_ok (retag (c_tree c))" "list_all digest_wf (c_parents c)" "bt_sorted (c_meta c)"
    using assms by (simp_all add: CommitObj retag_simps)
  have p: "rmap as_digest (map digest_value (c_parents c)) = Inr (map retag (c_parents c))"
    using wf(2) by (intro rmap_map_Inr) (simp add: cbor_iff retag_simps list_all_iff)
  have m: "rfold decode_meta_entry [] (text_pairs (sort_key (\<lambda>(k, v). enc (Text k)) (c_meta c))) = Inr (c_meta c)"
    unfolding rfold_meta_iff using meta_of_sorted [OF wf(3)] by metis
  have t: "f_digest (digest_value (c_tree c) # f) = Inr (retag (c_tree c), f)" for f
    using cbor_eval(6) [OF wf(1)] by (simp add: retag_simps)
  have "snd (cbor_fields obj) = [digest_value (c_tree c), Array (map digest_value (c_parents c)), Text (c_author c),
      Uint (c_timestamp_ms c), Text (c_message c), Map (text_pairs (c_meta c))]"
    by (simp add: CommitObj text_pairs_def)
  then show ?thesis
    by (cases c) (use p m t in \<open>simp add: CommitObj decode_fields_def cbor_eval comp_def canon_text_pairs del: canon.simps(2)\<close>)
next
  case (TagObj t)
  have "digest_ok (retag (t_target t))" using assms by (simp add: TagObj retag_simps)
  from cbor_eval(6) [OF this] have "f_digest (digest_value (t_target t) # f) = Inr (retag (t_target t), f)" for f
    by (simp add: retag_simps)
  then show ?thesis by (cases t) (simp add: TagObj decode_fields_def cbor_eval)
qed

lemma cbor_fields_wf:
  assumes "object_wf obj"
  shows "list_all value_wf (snd (cbor_fields obj))" and "length (snd (cbor_fields obj)) \<le> 6"
    and "\<forall>v \<in> set (snd (cbor_fields obj)). vdepth v < MAX_DEPTH"
    and "\<forall>v \<in> set (snd (cbor_fields obj)). encode v = Inr (enc v)"
proof -
  show "list_all value_wf (snd (cbor_fields obj))"
    using assms by (cases obj) (auto simp: list_all_iff chunk_ref_value_def tree_entry_value_def str_wf_def)
  show "length (snd (cbor_fields obj)) \<le> 6" by (cases obj) auto
  have a: "vdepth (Array vs) < MAX_DEPTH" if "\<forall>v \<in> set vs. vdepth v \<le> 1" for vs
    using that vdepth_le_iff(1) [of vs 0 2] by (auto simp: MAX_DEPTH_def)
  have m: "vdepth (Map (map (\<lambda>(k, v). (Text k, Text v)) kv)) < MAX_DEPTH" for kv
    using vdepth_le_iff(2) [of "map (\<lambda>(k, v). (Text k, Text v)) kv" 0 1] by (auto simp: MAX_DEPTH_def)
  have z: "0 < MAX_DEPTH" by (simp add: MAX_DEPTH_def)
  show "\<forall>v \<in> set (snd (cbor_fields obj)). vdepth v < MAX_DEPTH"
    by (cases obj) (use vdepth_entries in \<open>auto intro!: a m simp: z simp del: vdepth.simps(1,2)\<close>)
  show "\<forall>v \<in> set (snd (cbor_fields obj)). encode v = Inr (enc v)"
  proof (cases obj)
    case (CommitObj c)
    have "encode (Map (text_pairs (c_meta c))) = Inr (enc (Map (text_pairs (c_meta c))))"
      using assms by (intro text_pairs_encode) (simp_all add: CommitObj bt_sorted_distinct)
    then show ?thesis by (auto simp: CommitObj atoms_encode text_pairs_def intro!: encode_Array_ok)
  qed (auto simp: atoms_encode chunk_ref_value_def tree_entry_value_def intro!: encode_Array_ok)
qed

lemma object_decode_canonical:
  assumes "object_wf obj"
  shows "\<exists>bs. canonical obj = Inr bs \<and> object_decode bs = Inr (retag_object obj)"
proof -
  let ?t = "fst (cbor_fields obj)" and ?f = "snd (cbor_fields obj)"
  note wf = cbor_fields_wf [OF assms]
  have "encode (Array ([Uint EPOCH, Uint (ucast ?t)] @ ?f)) = Inr (enc (Array ([Uint EPOCH, Uint (ucast ?t)] @ ?f)))"
    using wf(4) by (intro encode_Array_ok) (auto simp: atoms_encode)
  then obtain bs where bs: "encode_object ?t ?f = Inr bs" by (auto simp: encode_object_def)
  have "decode_object bs = Inr (?t, map canon ?f)"
    by (rule decode_object_encode [OF bs wf(1) _ wf(3)]) (use wf(2) in simp)
  moreover have "u8_from (ucast ?t) = Inr (object_type_code (object_type obj))"
    unfolding cbor_fields_type u8_from_iff by (rule ucast_u8_u16_u64)
  ultimately have "object_decode bs = Inr (retag_object obj)"
    using decode_fields_canonical [OF assms] by (simp add: object_decode_def cbor_eval)
  moreover have "canonical obj = Inr bs" using bs by (simp add: canonical_def case_prod_unfold)
  ultimately show ?thesis by blast
qed

lemma decode_fields_inv:
  assumes "decode_fields ty f = Inr (obj, [])" and "encode (Array (pre @ f)) = Inr bs"
  shows "object_type obj = ty \<and> encode (Array (pre @ snd (cbor_fields obj))) = Inr bs"
proof (cases ty)
  case OT_Blob
  with assms show ?thesis by (auto simp: decode_fields_def result_simps cbor_iff)
next
  case OT_ChunkList
  with assms show ?thesis
    by (auto simp: decode_fields_def result_simps cbor_iff rmap_iff [OF decode_chunk_ref_iff])
next
  case OT_Tree
  have "names_ascending []" by (simp add: names_ascending_def)
  with OT_Tree assms show ?thesis
    by (auto simp: decode_fields_def result_simps cbor_iff rfold_tree_iff)
next
  case OT_Commit
  with assms(1) obtain d ps a t m kv where f: "f = [digest_value d, Array (map digest_value ps), Text a, Uint t, Text m,
      Map (text_pairs kv)]" and obj: "obj = CommitObj \<lparr>c_tree = d, c_parents = ps, c_author = a,
        c_timestamp_ms = t, c_message = m, c_meta = meta_of [] kv\<rparr>"
    by (auto simp: decode_fields_def result_simps cbor_iff rmap_iff [OF as_digest_iff] rfold_meta_iff)
  from assms(2) obtain bss where "rmap encode (pre @ f) = Inr bss"
    by (auto simp: encode_simps result_simps)
  from rmap_encode_enc [OF this] have "\<forall>v \<in> set (pre @ f). encode v = Inr (enc v)" by blast
  then have ok: "encode (Map (text_pairs kv)) = Inr (enc (Map (text_pairs kv)))" unfolding f by simp
  then have dist: "distinct (map fst kv)" by (rule text_pairs_distinct)
  have dm: "distinct (map fst (meta_of [] kv))"
    by (intro bt_sorted_distinct bt_sorted_meta_of bt_sorted_Nil)
  have "map_of (meta_of [] kv) = map_of kv" using map_of_meta_of [OF dist, of "[]"] by simp
  then have eq: "set (meta_of [] kv) = set kv" using map_of_inject_set [OF dm dist] by simp
  have "encode (Map (text_pairs (meta_of [] kv))) = Inr (enc (Map (text_pairs kv)))"
  proof (rule encode_Map_cong_set)
    show "set (text_pairs (meta_of [] kv)) = set (text_pairs kv)" by (simp add: text_pairs_def eq)
    show "distinct (map fst (text_pairs (meta_of [] kv)))"
      using dm by (rule distinct_text_pairs)
    show "distinct (map fst (text_pairs kv))" using dist by (rule distinct_text_pairs)
  qed (rule ok)
  then have "map encode (pre @ snd (cbor_fields obj)) = map encode (pre @ f)"
    using ok by (simp add: f obj text_pairs_def)
  from encode_Array_cong [OF this] assms(2) obj OT_Commit show ?thesis by simp
next
  case OT_Tag
  with assms show ?thesis by (auto simp: decode_fields_def result_simps cbor_iff)
qed

lemma canonical_object_decode:
  assumes "object_decode bs = Inr obj"
  shows "canonical obj = Inr bs"
proof -
  from assms obtain t fs ty where d: "decode_object bs = Inr (t, fs)"
      and ty: "ucast t = (ucast (object_type_code ty) :: u64)" and f: "decode_fields ty fs = Inr (obj, [])"
    by (auto simp: object_decode_def result_simps cbor_iff)
  have t: "t = ucast (object_type_code ty)"
    using ty ucast_u16_u64(1) [of t] ucast_u8_u16_u64 [of "object_type_code ty"] ucast_u16_u64(1) by metis
  have "encode (Array ([Uint EPOCH, Uint (ucast t)] @ fs)) = Inr bs"
    using encode_object_decode [OF d] by (simp add: encode_object_def)
  from decode_fields_inv [OF f this] show ?thesis
    using t cbor_fields_type [of obj] by (simp add: canonical_def case_prod_unfold encode_object_def)
qed

section \<open>The object model's contract\<close>

text \<open>C9: Every well-formed object has a canonical byte form (the encoder's failure, on which the code
  would panic, does not occur), and decoding that form gives back the object. The digests inside come
  back tagged with the default algorithm, whatever they were made with: the result is equal to the
  object under the equality of the code, which compares the digest bytes only.\<close>

theorem object_roundtrip:
  assumes "object_wf obj"
  shows "\<exists>bs. canonical obj = Inr bs \<and> object_decode bs = Inr (retag_object obj)"
  using assms by (rule object_decode_canonical)

theorem object_roundtrip_witness:
  "\<exists>bs. canonical (CommitObj \<lparr>c_tree = digest_of Sha256 (replicate 32 7), c_parents = [], c_author = ascii ''ann'',
        c_timestamp_ms = 5, c_message = [], c_meta = [(ascii ''aaa'', ascii ''1''), (ascii ''b'', ascii ''2'')]\<rparr>) = Inr bs
     \<and> object_decode bs = Inr (CommitObj \<lparr>c_tree = digest_of Blake3 (replicate 32 7), c_parents = [], c_author = ascii ''ann'',
        c_timestamp_ms = 5, c_message = [], c_meta = [(ascii ''aaa'', ascii ''1''), (ascii ''b'', ascii ''2'')]\<rparr>)"
proof -
  let ?c = "CommitObj \<lparr>c_tree = digest_of Sha256 (replicate 32 7), c_parents = [], c_author = ascii ''ann'',
        c_timestamp_ms = 5, c_message = [], c_meta = [(ascii ''aaa'', ascii ''1''), (ascii ''b'', ascii ''2'')]\<rparr>"
  have "object_wf ?c"
    by (simp add: digest_wf_def digest_of_def DIGEST_LEN_def str_wf_def ascii_def bt_sorted_def)
  from object_roundtrip [OF this] show ?thesis by (simp add: retag_def digest_of_def)
qed

text \<open>C17: The decoder accepts a byte string only when it is the canonical form of the object it returns,
  so no logical object has two byte forms: out-of-order tree entries, unsorted or repeated commit
  metadata keys, unknown tags, extra fields and trailing bytes are all refused.\<close>

theorem object_decode_unique:
  assumes "object_decode bs = Inr obj"
  shows "canonical obj = Inr bs"
  using assms by (rule canonical_object_decode)

theorem object_decode_unique_witness:
  "object_decode [0x83, 0x01, 0x01, 0x42, 0x0a, 0x0b] = Inr (Blob [0x0a, 0x0b])
    \<and> canonical (Blob [0x0a, 0x0b]) = Inr [0x83, 0x01, 0x01, 0x42, 0x0a, 0x0b]"
proof -
  have "object_decode [0x83, 0x01, 0x01, 0x42, 0x0a, 0x0b] = Inr (Blob [0x0a, 0x0b])" by code_simp
  with object_decode_unique [OF this] show ?thesis by simp
qed

text \<open>C18: Content addressing identifies objects: when the hash does not collide on the two canonical
  forms at hand, two well-formed objects with the same address are equal (up to the algorithm tag of
  the digests they hold).\<close>

theorem object_address_identifies:
  assumes "object_wf a" and "object_wf b"
    and "digest_with hash a algo = Inr da" and "digest_with hash b algo = Inr db" and "digest_eq da db"
    and "inj_on (hash algo) {x. canonical a = Inr x \<or> canonical b = Inr x}"
  shows "retag_object a = retag_object b"
proof -
  from assms(3) obtain x where x: "canonical a = Inr x" "d_bytes da = hash algo x"
    by (auto simp: digest_with_def result_simps digest_hash_def)
  from assms(4) obtain y where y: "canonical b = Inr y" "d_bytes db = hash algo y"
    by (auto simp: digest_with_def result_simps digest_hash_def)
  have "x = y"
    by (rule inj_onD [OF assms(6)]) (use x y assms(5) in \<open>simp_all add: digest_eq_def\<close>)
  with object_decode_canonical [OF assms(1)] object_decode_canonical [OF assms(2)] x y show ?thesis by auto
qed

theorem object_address_identifies_witness:
  "retag_object (ChunkList 1 [\<lparr>cr_target = digest_of Sha256 (replicate 32 7), cr_size = 1\<rparr>])
    = retag_object (ChunkList 1 [\<lparr>cr_target = digest_of Blake3 (replicate 32 7), cr_size = 1\<rparr>])"
proof -
  let ?h = "\<lambda>(_ :: Algo) (b :: bytes). take 32 (b @ replicate 32 0)"
  let ?o = "\<lambda>algo. ChunkList 1 [\<lparr>cr_target = digest_of algo (replicate 32 7), cr_size = 1\<rparr>]"
  let ?b = "[0x84, 0x01, 0x02, 0x01, 0x81, 0x82, 0x58, 0x20] @ replicate 32 7 @ [0x01]"
  have wf: "object_wf (?o algo)" for algo by (simp add: digest_wf_def digest_of_def DIGEST_LEN_def)
  have c: "canonical (?o Sha256) = Inr ?b" "canonical (?o Blake3) = Inr ?b" by code_simp+
  have d: "digest_with ?h (?o Sha256) Blake3 = Inr (digest_hash ?h Blake3 ?b)"
      "digest_with ?h (?o Blake3) Blake3 = Inr (digest_hash ?h Blake3 ?b)"
    by (simp_all only: digest_with_def c rbind_simps)
  have s: "{x. canonical (?o Sha256) = Inr x \<or> canonical (?o Blake3) = Inr x} = {?b}"
    unfolding c by auto
  show ?thesis
    by (rule object_address_identifies [OF wf wf d(1) d(2), unfolded s]) (simp_all add: digest_eq_def)
qed

end
