(* ===== verification/Loom_Object_Store.thy ===== *)
theory Loom_Object_Store
  imports Loom_Object
begin

text \<open>
  The provider contract of \<^verbatim>\<open>crates/loom-core/src/provider.rs\<close> and two of its implementations: the
  in-memory reference store of \<^verbatim>\<open>crates/loom-core/src/provider/memory.rs\<close> and the planning store, an
  overlay that records new objects above a base it never writes.

  A value of the trait is the record of its operations on a state. The locale \<open>object_store\<close> is the
  contract a client of the trait relies on; both implementations are shown to meet it, the planning
  store over any base that does. The mutexes of the code make every operation atomic, so that an
  operation is one function of the state; a poisoned lock is not modelled.
\<close>

section \<open>The trait\<close>

record 's ObjectStore =
  os_put :: "'s \<Rightarrow> bytes \<Rightarrow> (Digest \<times> 's) res"
  os_get :: "'s \<Rightarrow> Digest \<Rightarrow> bytes option res"
  os_has :: "'s \<Rightarrow> Digest \<Rightarrow> bool res"
  os_len :: "'s \<Rightarrow> nat"
  os_digest_algo :: Algo

section \<open>The in-memory store\<close>

type_synonym object_map = "(bytes \<times> bytes) list"

definition memory_new :: object_map where
  "memory_new = []"

definition or_insert :: "bytes \<Rightarrow> bytes \<Rightarrow> object_map \<Rightarrow> object_map" where
  "or_insert k v m = (case map_of m k of None \<Rightarrow> bt_insert k v m | Some _ \<Rightarrow> m)"

definition memory_put :: "hash_fn \<Rightarrow> object_map \<Rightarrow> bytes \<Rightarrow> (Digest \<times> object_map) res" where
  "memory_put hash m c = (let digest = digest_blake3 hash c in
     Inr (digest, or_insert (d_bytes digest) c m))"

definition memory_get :: "object_map \<Rightarrow> Digest \<Rightarrow> bytes option res" where
  "memory_get m d = Inr (map_of m (d_bytes d))"

definition memory_has :: "object_map \<Rightarrow> Digest \<Rightarrow> bool res" where
  "memory_has m d = Inr (map_of m (d_bytes d) \<noteq> None)"

definition memory_objects :: "object_map \<Rightarrow> (Digest \<times> bytes) list" where
  "memory_objects m = map (\<lambda>(d, b). (digest_of Blake3 d, b)) m"

definition memory_store :: "hash_fn \<Rightarrow> object_map ObjectStore" where
  "memory_store hash = \<lparr>os_put = memory_put hash, os_get = memory_get, os_has = memory_has,
     os_len = length, os_digest_algo = Blake3\<rparr>"

section \<open>The planning store\<close>

record 's PlanningObjectStore =
  ps_base :: 's
  ps_objects :: object_map


definition planning_put :: "hash_fn \<Rightarrow> 's ObjectStore \<Rightarrow> 's PlanningObjectStore \<Rightarrow> bytes
    \<Rightarrow> (Digest \<times> 's PlanningObjectStore) res" where
  "planning_put hash base s c = (let digest = digest_hash hash (os_digest_algo base) c in
     Inr (digest, s\<lparr>ps_objects := or_insert (d_bytes digest) c (ps_objects s)\<rparr>))"

definition planning_get :: "'s ObjectStore \<Rightarrow> 's PlanningObjectStore \<Rightarrow> Digest \<Rightarrow> bytes option res" where
  "planning_get base s d = (case map_of (ps_objects s) (d_bytes d) of
      Some b \<Rightarrow> Inr (Some b)
    | None \<Rightarrow> os_get base (ps_base s) d)"

definition planning_has :: "'s ObjectStore \<Rightarrow> 's PlanningObjectStore \<Rightarrow> Digest \<Rightarrow> bool res" where
  "planning_has base s d = (if map_of (ps_objects s) (d_bytes d) \<noteq> None then Inr True
     else os_has base (ps_base s) d)"

definition planning_objects :: "hash_fn \<Rightarrow> 's ObjectStore \<Rightarrow> 's PlanningObjectStore \<Rightarrow> (Digest \<times> bytes) list" where
  "planning_objects hash base s = map (\<lambda>(_, b). (digest_hash hash (os_digest_algo base) b, b)) (ps_objects s)"

definition planning_store :: "hash_fn \<Rightarrow> 's ObjectStore \<Rightarrow> 's PlanningObjectStore ObjectStore" where
  "planning_store hash base = \<lparr>os_put = planning_put hash base, os_get = planning_get base,
     os_has = planning_has base, os_len = (\<lambda>s. os_len base (ps_base s) + length (ps_objects s)),
     os_digest_algo = os_digest_algo base\<rparr>"

section \<open>The contract\<close>

text \<open>
  What a client sees of a store is the map \<open>contents\<close> from addresses to object bytes. A put returns the
  address of the bytes under the store's profile; afterwards that address holds these bytes or the bytes
  it already held, and no other address changes.
\<close>

definition store_addr :: "hash_fn \<Rightarrow> 's ObjectStore \<Rightarrow> bytes \<Rightarrow> bytes" where
  "store_addr hash ops c = hash (os_digest_algo ops) c"

definition contents_in :: "(bytes \<Rightarrow> bytes) \<Rightarrow> bytes set \<Rightarrow> (bytes \<Rightarrow> bytes option) \<Rightarrow> bool" where
  "contents_in addr U m \<longleftrightarrow> (\<forall>a b. m a = Some b \<longrightarrow> addr b = a \<and> b \<in> U)"

locale object_store =
  fixes ops :: "'s ObjectStore"
    and contents :: "'s \<Rightarrow> bytes \<Rightarrow> bytes option"
    and hash :: hash_fn
  assumes put_law: "\<exists>d s' x. os_put ops s c = Inr (d, s') \<and> d_bytes d = store_addr hash ops c
      \<and> contents s' = (contents s)(store_addr hash ops c \<mapsto> x)
      \<and> (x = c \<or> contents s (store_addr hash ops c) = Some x)"
    and get_law: "os_get ops s d = Inr (contents s (d_bytes d))"
    and has_law: "os_has ops s d = Inr (contents s (d_bytes d) \<noteq> None)"
begin

lemma put_total:
  obtains d s' where "os_put ops s c = Inr (d, s')" and "d_bytes d = store_addr hash ops c"
  using put_law [of s c] by blast

lemma put_within:
  assumes "inj_on (store_addr hash ops) U" and "contents_in (store_addr hash ops) U (contents s)" and "c \<in> U"
  obtains d s' where "os_put ops s c = Inr (d, s')" and "d_bytes d = store_addr hash ops c"
    and "contents s' = (contents s)(store_addr hash ops c \<mapsto> c)" and "contents s \<subseteq>\<^sub>m contents s'"
    and "contents_in (store_addr hash ops) U (contents s')"
proof -
  obtain d s' x where *: "os_put ops s c = Inr (d, s')" "d_bytes d = store_addr hash ops c"
      "contents s' = (contents s)(store_addr hash ops c \<mapsto> x)"
      "x = c \<or> contents s (store_addr hash ops c) = Some x"
    using put_law [of s c] by blast
  have same: "b = c" if "contents s (store_addr hash ops c) = Some b" for b
    using that assms by (auto simp: contents_in_def dest: inj_onD)
  with *(4) have "x = c" by blast
  with * same assms(2,3) show thesis
    by (intro that [of d s']) (auto simp: map_le_def contents_in_def)
qed

lemma get_survives_put:
  assumes "inj_on (store_addr hash ops) U" and "contents_in (store_addr hash ops) U (contents s)" and "c \<in> U"
    and "os_put ops s c = Inr (d, s')"
  shows "os_get ops s' d = Inr (Some c)"
    and "\<And>x b. os_get ops s x = Inr (Some b) \<Longrightarrow> os_get ops s' x = Inr (Some b)"
proof -
  obtain e t where "os_put ops s c = Inr (e, t)" "d_bytes e = store_addr hash ops c"
      "contents t = (contents s)(store_addr hash ops c \<mapsto> c)" "contents s \<subseteq>\<^sub>m contents t"
    by (rule put_within [OF assms(1-3)])
  with assms(4) have d: "d_bytes d = store_addr hash ops c"
    and s': "contents s' = (contents s)(store_addr hash ops c \<mapsto> c)" and le: "contents s \<subseteq>\<^sub>m contents s'" by simp_all
  show "os_get ops s' d = Inr (Some c)" by (simp add: get_law d s')
  show "os_get ops s' x = Inr (Some b)" if "os_get ops s x = Inr (Some b)" for x b
    using that map_le_lookup [OF le] by (simp add: get_law)
qed

end

lemma map_of_or_insert: "map_of (or_insert k v m) = (if map_of m k = None then (map_of m)(k \<mapsto> v) else map_of m)"
  by (auto simp: or_insert_def map_of_bt_insert split: option.splits)

lemma memory_store_simps:
  "os_put (memory_store hash) s c = Inr (digest_blake3 hash c, or_insert (hash Blake3 c) c s)"
  "os_get (memory_store hash) s d = Inr (map_of s (d_bytes d))"
  "os_has (memory_store hash) s d = Inr (map_of s (d_bytes d) \<noteq> None)"
  "store_addr hash (memory_store hash) c = hash Blake3 c"
  by (simp_all add: memory_store_def memory_put_def memory_get_def memory_has_def digest_blake3_def
      digest_hash_def store_addr_def)

interpretation mem: object_store "memory_store hash" map_of hash for hash
proof unfold_locales
  fix s :: object_map and c
  let ?a = "hash Blake3 c"
  have "map_of (or_insert ?a c s) = (map_of s)(?a \<mapsto> (case map_of s ?a of None \<Rightarrow> c | Some x \<Rightarrow> x))"
    by (auto simp: map_of_or_insert split: option.splits)
  then show "\<exists>d s' x. os_put (memory_store hash) s c = Inr (d, s') \<and> d_bytes d = store_addr hash (memory_store hash) c
      \<and> map_of s' = (map_of s)(store_addr hash (memory_store hash) c \<mapsto> x)
      \<and> (x = c \<or> map_of s (store_addr hash (memory_store hash) c) = Some x)"
    unfolding memory_store_simps by (auto simp: digest_blake3_def digest_hash_def split: option.splits)
qed (simp_all add: memory_store_simps)

definition planning_contents :: "('s \<Rightarrow> bytes \<Rightarrow> bytes option) \<Rightarrow> 's PlanningObjectStore \<Rightarrow> bytes \<Rightarrow> bytes option" where
  "planning_contents contents s = contents (ps_base s) ++ map_of (ps_objects s)"

lemma planning_store_simps:
  "os_put (planning_store hash ops) s c = Inr (digest_hash hash (os_digest_algo ops) c,
     s\<lparr>ps_objects := or_insert (hash (os_digest_algo ops) c) c (ps_objects s)\<rparr>)"
  "os_get (planning_store hash ops) s d = planning_get ops s d"
  "os_has (planning_store hash ops) s d = planning_has ops s d"
  "store_addr hash (planning_store hash ops) c = hash (os_digest_algo ops) c"
  by (simp_all add: planning_store_def planning_put_def digest_hash_def store_addr_def)

lemma planning_object_store:
  assumes base: "object_store ops contents hash"
  shows "object_store (planning_store hash ops) (planning_contents contents) hash"
proof
  fix s c
  let ?a = "hash (os_digest_algo ops) c"
  have "planning_contents contents (s\<lparr>ps_objects := or_insert ?a c (ps_objects s)\<rparr>)
      = (planning_contents contents s)(?a \<mapsto> (case map_of (ps_objects s) ?a of None \<Rightarrow> c | Some x \<Rightarrow> x))"
    by (auto simp: planning_contents_def map_of_or_insert map_add_def fun_eq_iff split: option.splits)
  moreover have "planning_contents contents s ?a = Some x" if "map_of (ps_objects s) ?a = Some x" for x
    using that by (simp add: planning_contents_def)
  ultimately show "\<exists>d s' x. os_put (planning_store hash ops) s c = Inr (d, s')
      \<and> d_bytes d = store_addr hash (planning_store hash ops) c
      \<and> planning_contents contents s' = (planning_contents contents s)(store_addr hash (planning_store hash ops) c \<mapsto> x)
      \<and> (x = c \<or> planning_contents contents s (store_addr hash (planning_store hash ops) c) = Some x)"
    unfolding planning_store_simps by (auto simp: digest_hash_def split: option.splits)
next
  fix s d
  show "os_get (planning_store hash ops) s d = Inr (planning_contents contents s (d_bytes d))"
    by (auto simp: planning_store_simps planning_get_def planning_contents_def object_store.get_law [OF base] map_add_def split: option.splits)
  show "os_has (planning_store hash ops) s d = Inr (planning_contents contents s (d_bytes d) \<noteq> None)"
    by (auto simp: planning_store_simps planning_has_def planning_contents_def object_store.has_law [OF base] map_add_def split: option.splits)
qed

interpretation plan: object_store "planning_store hash (memory_store hash)" "planning_contents map_of" hash for hash
  by (rule planning_object_store) (rule mem.object_store_axioms)

text \<open>C21: An object written to the in-memory store is read back under the address the put returned, and
  every object that could be read before is still read unchanged, as long as the hash does not collide
  on the objects at hand.\<close>

theorem memory_store_put_get:
  assumes "inj_on (hash Blake3) U" and "contents_in (hash Blake3) U (map_of m)" and "c \<in> U"
  shows "\<exists>d m'. memory_put hash m c = Inr (d, m') \<and> memory_get m' d = Inr (Some c)
    \<and> contents_in (hash Blake3) U (map_of m')
    \<and> (\<forall>x b. memory_get m x = Inr (Some b) \<longrightarrow> memory_get m' x = Inr (Some b))"
proof -
  have addr: "store_addr hash (memory_store hash) = hash Blake3" by (rule ext) (simp add: memory_store_simps)
  obtain d m' where p: "os_put (memory_store hash) m c = Inr (d, m')"
    and i: "contents_in (hash Blake3) U (map_of m')"
    by (rule mem.put_within [of hash U m c, unfolded addr, OF assms])
  note g = mem.get_survives_put [of hash U m c d m', unfolded addr, OF assms p]
  have get: "os_get (memory_store hash) s x = memory_get s x" for s x by (simp add: memory_store_def)
  have "memory_put hash m c = Inr (d, m')" using p by (simp add: memory_store_def)
  moreover have "memory_get m' d = Inr (Some c)" using g(1) by (simp only: get)
  moreover have "\<forall>x b. memory_get m x = Inr (Some b) \<longrightarrow> memory_get m' x = Inr (Some b)"
    using g(2) by (simp only: get) blast
  ultimately show ?thesis using i by blast
qed

theorem memory_store_put_get_witness:
  "\<exists>d m'. memory_put (\<lambda>_ b. take 32 (b @ replicate 32 0)) [] [1] = Inr (d, m') \<and> memory_get m' d = Inr (Some [1])"
proof -
  let ?h = "\<lambda>(_ :: Algo) (b :: bytes). take 32 (b @ replicate 32 0)"
  have i: "inj_on (?h Blake3) {[1]}" by simp
  have c: "contents_in (?h Blake3) {[1]} (map_of [])" by (simp add: contents_in_def)
  from memory_store_put_get [OF i c singletonI] show ?thesis by blast
qed



end
