(* ===== verification/Loom_Prolly.thy ===== *)
theory Loom_Prolly
  imports Loom_Object_Store
begin

text \<open>
  The prolly tree of \<^verbatim>\<open>crates/loom-core/src/prolly.rs\<close>: node codec, build, incremental insert and
  remove, point lookup, full scan and prefix scan, over any object store (the record of operations
  \<open>ops\<close>). The store is threaded through the operations that put nodes. \<open>hash\<close> is the family of hash
  functions; the boundary rule always uses BLAKE3. Levels are counted by a \<open>nat\<close> that the code keeps in a
  \<^verbatim>\<open>u8\<close>: the checks against overflow are those of the code. A panic is the error \<open>Internal\<close>.
\<close>

section \<open>Boundaries and the node codec\<close>

definition LEAF_TAG :: u64 where "LEAF_TAG = 0"
definition INTERNAL_TAG :: u64 where "INTERNAL_TAG = 1"
definition BOUNDARY_MASK :: u32 where "BOUNDARY_MASK = 31"
definition PROLLY_MAX_DEPTH :: nat where "PROLLY_MAX_DEPTH = 64"

definition is_boundary :: "hash_fn \<Rightarrow> bytes \<Rightarrow> u8 \<Rightarrow> bool" where
  "is_boundary hash key level =
    (let b = d_bytes (digest_blake3 hash (key @ [level]));
         lead = u32_from_le (take 4 b)
     in lead AND BOUNDARY_MASK = 0)"

definition boundary_of :: "hash_fn \<Rightarrow> nat \<Rightarrow> bytes \<Rightarrow> bool" where
  "boundary_of hash l k = is_boundary hash k (of_nat l)"

type_synonym entry = "bytes \<times> bytes"
type_synonym child = "bytes \<times> Digest"

definition cbor_encode :: "Value \<Rightarrow> bytes res" where
  "cbor_encode v = map_err (\<lambda>_. Internal) (encode v)"

definition encode_leaf :: "entry list \<Rightarrow> bytes res" where
  "encode_leaf entries = cbor_encode (Array [Uint LEAF_TAG,
     Array (map (\<lambda>(k, v). Array [Bytes k, Bytes v]) entries)])"

definition encode_internal :: "child list \<Rightarrow> bytes res" where
  "encode_internal children = cbor_encode (Array [Uint INTERNAL_TAG,
     Array (map (\<lambda>(max_key, digest). Array [Bytes max_key, digest_value digest]) children)])"

datatype Node = Leaf "entry list" | InternalNode "child list"

definition read_leaf_item :: "Value \<Rightarrow> entry res" where
  "read_leaf_item item =
    rbind (as_array item) (\<lambda>ef.
    rbind (f_bytes ef) (\<lambda>(k, ef1).
    rbind (f_bytes ef1) (\<lambda>(v, ef2).
    rbind (f_end ef2) (\<lambda>_. Inr (k, v)))))"

definition read_internal_item :: "Value \<Rightarrow> child res" where
  "read_internal_item item =
    rbind (as_array item) (\<lambda>ef.
    rbind (f_bytes ef) (\<lambda>(max_key, ef1).
    rbind (f_digest ef1) (\<lambda>(digest, ef2).
    rbind (f_end ef2) (\<lambda>_. Inr (max_key, digest)))))"

definition decode_node :: "bytes \<Rightarrow> Node res" where
  "decode_node bs =
    rbind (decode_array bs) (\<lambda>f.
    rbind (f_uint f) (\<lambda>(tag, f1).
    rbind (f_array f1) (\<lambda>(items, f2).
    rbind (f_end f2) (\<lambda>_.
      if tag = LEAF_TAG then rbind (rmap read_leaf_item items) (\<lambda>es. Inr (Leaf es))
      else if tag = INTERNAL_TAG then rbind (rmap read_internal_item items) (\<lambda>cs. Inr (InternalNode cs))
      else Inl CorruptObject))))"

definition read_node :: "'s ObjectStore \<Rightarrow> 's \<Rightarrow> Digest \<Rightarrow> Node res" where
  "read_node ops s digest =
    rbind (os_get ops s digest) (\<lambda>got.
    rbind (ok_or NotFound got) decode_node)"

definition validate_node_item :: "u64 \<Rightarrow> Value \<Rightarrow> unit res" where
  "validate_node_item tag item =
    rbind (as_array item) (\<lambda>ef.
      if tag = LEAF_TAG then
        rbind (f_bytes ef) (\<lambda>(_, ef1). rbind (f_bytes ef1) (\<lambda>(_, ef2). f_end ef2))
      else if tag = INTERNAL_TAG then
        rbind (f_bytes ef) (\<lambda>(_, ef1). rbind (f_digest ef1) (\<lambda>(_, ef2). f_end ef2))
      else Inl CorruptObject)"

definition validate_node_bytes :: "bytes \<Rightarrow> unit res" where
  "validate_node_bytes bs =
    rbind (decode_array bs) (\<lambda>f.
    rbind (f_uint f) (\<lambda>(tag, f1).
    rbind (f_array f1) (\<lambda>(items, f2).
    rbind (f_end f2) (\<lambda>_.
    rbind (rmap (validate_node_item tag) items) (\<lambda>_. Inr ())))))"

section \<open>Build\<close>

definition flush_leaf :: "'s ObjectStore \<Rightarrow> 's \<Rightarrow> entry list \<Rightarrow> (child \<times> 's) res" where
  "flush_leaf ops s run =
    (if run = [] then Inl Internal
     else let max_key = fst (last run) in
       rbind (encode_leaf run) (\<lambda>b.
       rbind (os_put ops s b) (\<lambda>(digest, s'). Inr ((max_key, digest), s'))))"

definition flush_internal :: "'s ObjectStore \<Rightarrow> 's \<Rightarrow> child list \<Rightarrow> (child \<times> 's) res" where
  "flush_internal ops s run =
    (if run = [] then Inl Internal
     else let max_key = fst (last run) in
       rbind (encode_internal run) (\<lambda>b.
       rbind (os_put ops s b) (\<lambda>(digest, s'). Inr ((max_key, digest), s'))))"

text \<open>The loop both chunking passes share: push an item on the run and flush it at a boundary.\<close>

definition chunk_step :: "('s \<Rightarrow> (bytes \<times> 'a) list \<Rightarrow> (child \<times> 's) res) \<Rightarrow> (bytes \<Rightarrow> bool)
    \<Rightarrow> 's \<times> child list \<times> (bytes \<times> 'a) list \<Rightarrow> bytes \<times> 'a \<Rightarrow> ('s \<times> child list \<times> (bytes \<times> 'a) list) res" where
  "chunk_step flush boundary st x = (case st of (s, out, run) \<Rightarrow>
     if boundary (fst x)
     then rbind (flush s (run @ [x])) (\<lambda>(n, s'). Inr (s', out @ [n], []))
     else Inr (s, out, run @ [x]))"

definition chunk_run :: "('s \<Rightarrow> (bytes \<times> 'a) list \<Rightarrow> (child \<times> 's) res) \<Rightarrow> (bytes \<Rightarrow> bool)
    \<Rightarrow> 's \<Rightarrow> (bytes \<times> 'a) list \<Rightarrow> (child list \<times> 's) res" where
  "chunk_run flush boundary s xs =
    rbind (rfold (chunk_step flush boundary) (s, [], []) xs) (\<lambda>(s1, out, run).
      if run \<noteq> [] then rbind (flush s1 run) (\<lambda>(n, s2). Inr (out @ [n], s2))
      else Inr (out, s1))"

definition chunk_leaves :: "'s ObjectStore \<Rightarrow> hash_fn \<Rightarrow> 's \<Rightarrow> entry list \<Rightarrow> (child list \<times> 's) res" where
  "chunk_leaves ops hash s entries = chunk_run (flush_leaf ops) (boundary_of hash 0) s entries"

definition chunk_internal :: "'s ObjectStore \<Rightarrow> hash_fn \<Rightarrow> 's \<Rightarrow> nat \<Rightarrow> child list \<Rightarrow> (child list \<times> 's) res" where
  "chunk_internal ops hash s level children =
    chunk_run (flush_internal ops) (boundary_of hash level) s children"

function build_levels :: "'s ObjectStore \<Rightarrow> hash_fn \<Rightarrow> 's \<Rightarrow> child list \<Rightarrow> nat \<Rightarrow> (child list \<times> 's) res" where
  "build_levels ops hash s level_nodes level =
    (if length level_nodes > 1 then
       rbind (chunk_internal ops hash s level level_nodes) (\<lambda>(parents, s').
         if level < 255 then build_levels ops hash s' parents (level + 1) else Inl CorruptObject)
     else Inr (level_nodes, s))"
  by pat_completeness auto
termination
  by (relation "measure (\<lambda>(ops, hash, s, nodes, level). 255 - level)") auto

definition build :: "'s ObjectStore \<Rightarrow> hash_fn \<Rightarrow> 's \<Rightarrow> entry list \<Rightarrow> (Digest option \<times> 's) res" where
  "build ops hash s entries =
    (if entries = [] then Inr (None, s)
     else rbind (chunk_leaves ops hash s entries) (\<lambda>(level_nodes, s1).
          rbind (build_levels ops hash s1 level_nodes 1) (\<lambda>(nodes, s2).
            Inr (case nodes of [] \<Rightarrow> None | (_, d) # _ \<Rightarrow> Some d, s2))))"

section \<open>Lookup and scans\<close>

definition bsearch :: "bytes \<Rightarrow> (bytes \<times> 'a) list \<Rightarrow> nat + nat" where
  "bsearch key es = (let i = length (takeWhile (\<lambda>e. fst e < key) es) in
     if i < length es \<and> fst (es ! i) = key then Inr i else Inl i)"

fun get_loop :: "'s ObjectStore \<Rightarrow> 's \<Rightarrow> nat \<Rightarrow> Digest \<Rightarrow> bytes \<Rightarrow> bytes option res" where
  "get_loop ops s 0 digest key = Inl CorruptObject"
| "get_loop ops s (Suc n) digest key =
    rbind (read_node ops s digest) (\<lambda>node. case node of
      Leaf es \<Rightarrow> Inr (case bsearch key es of Inr i \<Rightarrow> Some (snd (es ! i)) | Inl _ \<Rightarrow> None)
    | InternalNode cs \<Rightarrow> (case position (\<lambda>c. key \<le> fst c) cs of
        Some i \<Rightarrow> get_loop ops s n (snd (cs ! i)) key
      | None \<Rightarrow> Inr None))"

definition prolly_get :: "'s ObjectStore \<Rightarrow> 's \<Rightarrow> Digest \<Rightarrow> bytes \<Rightarrow> bytes option res" where
  "prolly_get ops s root key = get_loop ops s PROLLY_MAX_DEPTH root key"

function collect_entries :: "'s ObjectStore \<Rightarrow> 's \<Rightarrow> Digest \<Rightarrow> nat \<Rightarrow> entry list \<Rightarrow> entry list res" where
  "collect_entries ops s digest depth out =
    (if depth > PROLLY_MAX_DEPTH then Inl CorruptObject
     else rbind (read_node ops s digest) (\<lambda>node. case node of
        Leaf es \<Rightarrow> Inr (out @ es)
      | InternalNode cs \<Rightarrow> rfold (\<lambda>o' c. collect_entries ops s (snd c) (depth + 1) o') out cs))"
  by pat_completeness auto
termination
  by (relation "measure (\<lambda>(ops, s, d, depth, out). Suc PROLLY_MAX_DEPTH - depth)") auto

definition prolly_entries :: "'s ObjectStore \<Rightarrow> 's \<Rightarrow> Digest \<Rightarrow> entry list res" where
  "prolly_entries ops s root = collect_entries ops s root 0 []"

definition starts_with :: "bytes \<Rightarrow> bytes \<Rightarrow> bool" where
  "starts_with key prefix = (take (length prefix) key = prefix)"

function upper_bound :: "bytes \<Rightarrow> bytes option" where
  "upper_bound u =
    (if u = [] then None
     else if last u < 0xFF then Some (butlast u @ [last u + 1])
     else upper_bound (butlast u))"
  by pat_completeness auto
termination
  by (relation "measure length") auto

function collect_prefix :: "'s ObjectStore \<Rightarrow> 's \<Rightarrow> Digest \<Rightarrow> bytes \<Rightarrow> bytes option \<Rightarrow> nat \<Rightarrow> entry list \<Rightarrow> entry list res"
  and prefix_children :: "'s ObjectStore \<Rightarrow> 's \<Rightarrow> child list \<Rightarrow> bytes \<Rightarrow> bytes option \<Rightarrow> nat \<Rightarrow> entry list \<Rightarrow> entry list res"
where
  "collect_prefix ops s digest prefix upper depth out =
    (if depth > PROLLY_MAX_DEPTH then Inl CorruptObject
     else rbind (read_node ops s digest) (\<lambda>node. case node of
        Leaf es \<Rightarrow> Inr (out @ filter (\<lambda>e. starts_with (fst e) prefix) es)
      | InternalNode cs \<Rightarrow> prefix_children ops s cs prefix upper (depth + 1) out))"
| "prefix_children ops s [] prefix upper depth out = Inr out"
| "prefix_children ops s ((max_key, c) # cs) prefix upper depth out =
    (if max_key < prefix then prefix_children ops s cs prefix upper depth out
     else rbind (collect_prefix ops s c prefix upper depth out) (\<lambda>out'.
       case upper of
         Some u \<Rightarrow> if u \<le> max_key then Inr out' else prefix_children ops s cs prefix upper depth out'
       | None \<Rightarrow> prefix_children ops s cs prefix upper depth out'))"
  by pat_completeness auto
termination
  by (relation "measures [\<lambda>x. case x of
          Inl (_, _, _, _, _, depth, _) \<Rightarrow> 2 * (Suc PROLLY_MAX_DEPTH - depth)
        | Inr (_, _, _, _, _, depth, _) \<Rightarrow> Suc (2 * (Suc PROLLY_MAX_DEPTH - depth)),
      \<lambda>x. case x of Inl _ \<Rightarrow> 0 | Inr (_, _, cs, _, _, _, _) \<Rightarrow> length cs]")
    (auto simp: Suc_diff_le)

definition scan_prefix :: "'s ObjectStore \<Rightarrow> 's \<Rightarrow> Digest \<Rightarrow> bytes \<Rightarrow> entry list res" where
  "scan_prefix ops s root prefix = collect_prefix ops s root prefix (upper_bound prefix) 0 []"

section \<open>Incremental insert and remove\<close>

datatype Change = SetTo bytes | RemoveKey

definition apply_change :: "bytes \<Rightarrow> Change \<Rightarrow> entry list \<Rightarrow> entry list" where
  "apply_change key change es = (case bsearch key es of
      Inr i \<Rightarrow> (case change of SetTo v \<Rightarrow> es[i := (fst (es ! i), v)] | RemoveKey \<Rightarrow> take i es @ drop (i + 1) es)
    | Inl i \<Rightarrow> (case change of SetTo v \<Rightarrow> take i es @ [(key, v)] @ drop i es | RemoveKey \<Rightarrow> es))"

fun height_loop :: "'s ObjectStore \<Rightarrow> 's \<Rightarrow> nat \<Rightarrow> nat \<Rightarrow> Digest \<Rightarrow> nat res" where
  "height_loop ops s 0 h digest = Inl CorruptObject"
| "height_loop ops s (Suc n) h digest =
    rbind (read_node ops s digest) (\<lambda>node. case node of
      Leaf _ \<Rightarrow> Inr h
    | InternalNode [] \<Rightarrow> Inl CorruptObject
    | InternalNode (c # _) \<Rightarrow> height_loop ops s n (h + 1) (snd c))"

definition prolly_height :: "'s ObjectStore \<Rightarrow> 's \<Rightarrow> Digest \<Rightarrow> nat res" where
  "prolly_height ops s root = height_loop ops s (PROLLY_MAX_DEPTH + 1) 0 root"

fun mutate :: "'s ObjectStore \<Rightarrow> hash_fn \<Rightarrow> 's \<Rightarrow> Digest \<Rightarrow> nat \<Rightarrow> bytes \<Rightarrow> Change \<Rightarrow> bool
    \<Rightarrow> (child list option \<times> 's) res" where
  "mutate ops hash s digest level key change rightmost =
    rbind (read_node ops s digest) (\<lambda>node. case node of
      Leaf es \<Rightarrow>
        let entries = apply_change key change es in
        if entries \<noteq> [] \<and> \<not> is_boundary hash (fst (last entries)) 0 \<and> \<not> rightmost then Inr (None, s)
        else rbind (chunk_leaves ops hash s entries) (\<lambda>(nodes, s'). Inr (Some nodes, s'))
    | InternalNode children \<Rightarrow> (case level of
        0 \<Rightarrow> Inl CorruptObject
      | Suc l \<Rightarrow>
          if children = [] then Inl Internal
          else let i = (case position (\<lambda>c. key \<le> fst c) children of Some i \<Rightarrow> i | None \<Rightarrow> length children - 1);
                   child_rightmost = (rightmost \<and> i = length children - 1)
            in rbind (mutate ops hash s (snd (children ! i)) l key change child_rightmost) (\<lambda>(sub, s1). case sub of
                 None \<Rightarrow> Inr (None, s1)
               | Some nodes \<Rightarrow>
                   let next = take i children @ nodes @ drop (i + 1) children in
                   if next = [] then Inr (Some [], s1)
                   else rbind (chunk_internal ops hash s1 level next) (\<lambda>(out, s2). Inr (Some out, s2)))))"

declare mutate.simps [simp del]

function finish_levels :: "'s ObjectStore \<Rightarrow> hash_fn \<Rightarrow> 's \<Rightarrow> child list \<Rightarrow> nat \<Rightarrow> (child list \<times> 's) res" where
  "finish_levels ops hash s nodes level =
    (if length nodes > 1 then
       (if level < 255 then
          rbind (chunk_internal ops hash s (level + 1) nodes) (\<lambda>(nodes', s').
            finish_levels ops hash s' nodes' (level + 1))
        else Inl CorruptObject)
     else Inr (nodes, s))"
  by pat_completeness auto
termination
  by (relation "measure (\<lambda>(ops, hash, s, nodes, level). 255 - level)") auto

fun collapse_loop :: "'s ObjectStore \<Rightarrow> 's \<Rightarrow> nat \<Rightarrow> Digest \<Rightarrow> Digest res" where
  "collapse_loop ops s 0 root = Inl CorruptObject"
| "collapse_loop ops s (Suc n) root =
    rbind (read_node ops s root) (\<lambda>node. case node of
      InternalNode [c] \<Rightarrow> collapse_loop ops s n (snd c)
    | _ \<Rightarrow> Inr root)"

definition finish :: "'s ObjectStore \<Rightarrow> hash_fn \<Rightarrow> 's \<Rightarrow> child list \<Rightarrow> nat \<Rightarrow> (Digest \<times> 's) res" where
  "finish ops hash s nodes level =
    rbind (finish_levels ops hash s nodes level) (\<lambda>(top, s1). case top of
      [] \<Rightarrow> Inl CorruptObject
    | (_, d) # _ \<Rightarrow> rbind (collapse_loop ops s1 (PROLLY_MAX_DEPTH + 1) d) (\<lambda>root. Inr (root, s1)))"

definition rebuild_with :: "'s ObjectStore \<Rightarrow> hash_fn \<Rightarrow> 's \<Rightarrow> Digest \<Rightarrow> bytes \<Rightarrow> Change \<Rightarrow> (Digest option \<times> 's) res" where
  "rebuild_with ops hash s root key change =
    rbind (prolly_entries ops s root) (\<lambda>entries. build ops hash s (apply_change key change entries))"

definition prolly_insert :: "'s ObjectStore \<Rightarrow> hash_fn \<Rightarrow> 's \<Rightarrow> Digest option \<Rightarrow> bytes \<Rightarrow> bytes \<Rightarrow> (Digest \<times> 's) res" where
  "prolly_insert ops hash s root key val = (case root of
      None \<Rightarrow> rbind (build ops hash s [(key, val)]) (\<lambda>(d, s'). rbind (ok_or Internal d) (\<lambda>r. Inr (r, s')))
    | Some r \<Rightarrow>
        rbind (prolly_height ops s r) (\<lambda>h.
        rbind (mutate ops hash s r h key (SetTo val) True) (\<lambda>(sub, s1). case sub of
          Some nodes \<Rightarrow> finish ops hash s1 nodes h
        | None \<Rightarrow> rbind (rebuild_with ops hash s1 r key (SetTo val)) (\<lambda>(d, s2).
            rbind (ok_or Internal d) (\<lambda>root'. Inr (root', s2))))))"

definition prolly_remove :: "'s ObjectStore \<Rightarrow> hash_fn \<Rightarrow> 's \<Rightarrow> Digest \<Rightarrow> bytes \<Rightarrow> (Digest option \<times> 's) res" where
  "prolly_remove ops hash s root key =
    rbind (prolly_height ops s root) (\<lambda>h.
    rbind (mutate ops hash s root h key RemoveKey True) (\<lambda>(sub, s1). case sub of
      Some nodes \<Rightarrow>
        if nodes = [] then Inr (None, s1)
        else rbind (finish ops hash s1 nodes h) (\<lambda>(d, s2). Inr (Some d, s2))
    | None \<Rightarrow> rebuild_with ops hash s1 root key RemoveKey))"

declare build_levels.simps [simp del] finish_levels.simps [simp del] collect_entries.simps [simp del]
  upper_bound.simps [simp del] collect_prefix.simps [simp del]

end
