(* ===== verification/Loom_Prolly_Spec.thy ===== *)
theory Loom_Prolly_Spec
  imports Loom_Prelude
begin

text \<open>
  The abstract prolly tree: trees as data, without digests or a store. The parameter \<open>B\<close> says which keys
  are boundaries at which level. \<open>klevel B l es\<close> is the list of the nodes at level \<open>l\<close> of the tree over the
  sorted entries \<open>es\<close>, each with its maximum key; the tree is the first level with a single node. The
  lemmas about appending two entry lists at a closed key are what makes local re-chunking agree with
  chunking everything again.
\<close>

section \<open>Cutting a list after the elements that satisfy a predicate\<close>

fun cuts :: "('a \<Rightarrow> bool) \<Rightarrow> 'a list \<Rightarrow> 'a list list" where
  "cuts P [] = []"
| "cuts P (x # xs) = (if P x then [x] # cuts P xs
     else (case cuts P xs of [] \<Rightarrow> [[x]] | c # cs \<Rightarrow> (x # c) # cs))"

lemma concat_cut: "concat (cuts P xs) = xs"
  by (induction xs) (auto split: list.splits)

lemma cut_eq_Nil [simp]: "cuts P xs = [] \<longleftrightarrow> xs = []"
  by (cases xs) (auto split: list.splits)

lemma cut_nonempty: "c \<in> set (cuts P xs) \<Longrightarrow> c \<noteq> []"
  by (induction xs arbitrary: c) (auto split: list.splits if_splits)

lemma cut_append: "xs \<noteq> [] \<Longrightarrow> P (last xs) \<Longrightarrow> cuts P (xs @ ys) = cuts P xs @ cuts P ys"
proof (induction xs)
  case (Cons x xs)
  show ?case
  proof (cases "xs = []")
    case True
    with Cons.prems show ?thesis by simp
  next
    case False
    then obtain c cs where "cuts P xs = c # cs" by (cases "cuts P xs") auto
    with False Cons show ?thesis by simp
  qed
qed simp

lemma cut_snoc_open:
  "\<forall>x \<in> set xs. \<not> P x \<Longrightarrow> xs \<noteq> [] \<Longrightarrow> cuts P xs = [xs]"
proof (induction xs)
  case (Cons x xs)
  then show ?case by (cases "xs = []") auto
qed simp

lemma cut_run: "\<forall>x \<in> set run. \<not> P x \<Longrightarrow> P y \<Longrightarrow> cuts P (run @ y # ys) = (run @ [y]) # cuts P ys"
  by (induction run) auto

lemma nonempty_parts:
  "concat as = concat cs \<Longrightarrow> as @ bs = cs @ ds \<Longrightarrow> \<forall>x \<in> set (as @ bs). x \<noteq> [] \<Longrightarrow> as = cs \<and> bs = ds"
proof (induction as arbitrary: cs)
  case Nil
  then show ?case by (cases cs) auto
next
  case (Cons a as)
  then obtain c cs' where "cs = c # cs'" by (cases cs) auto
  with Cons show ?case by auto
qed

lemma cut_last_closed: "cuts P xs = cs @ ds \<Longrightarrow> cs \<noteq> [] \<Longrightarrow> ds \<noteq> [] \<Longrightarrow> P (last (last cs))"
proof (induction xs arbitrary: cs)
  case (Cons x xs)
  obtain c cs' where cs: "cs = c # cs'" using Cons.prems(2) by (cases cs) auto
  show ?case
  proof (cases "P x")
    case True
    then have c: "c = [x]" and r: "cuts P xs = cs' @ ds" using Cons.prems cs by auto
    show ?thesis
      using Cons.IH [OF r _ Cons.prems(3)] True by (cases "cs' = []") (simp_all add: cs c)
  next
    case False
    obtain e es where e: "cuts P xs = e # es" using False Cons.prems cs by (cases "cuts P xs") auto
    have ne: "e \<noteq> []" using e cut_nonempty [of e P xs] by simp
    from False e Cons.prems cs have c: "c = x # e" and r: "cuts P xs = (e # cs') @ ds" by auto
    from Cons.IH [OF r _ Cons.prems(3)] show ?thesis using ne by (simp add: cs c split: if_splits)
  qed
qed simp

lemma last_concat: "cs \<noteq> [] \<Longrightarrow> last cs \<noteq> [] \<Longrightarrow> last (concat cs) = last (last cs)"
  by (induction cs rule: rev_induct) auto

lemma cut_parts:
  assumes "cuts P xs = cs @ ds"
  shows "cuts P (concat cs) = cs" and "cuts P (concat ds) = ds" and "xs = concat cs @ concat ds"
proof -
  show xs: "xs = concat cs @ concat ds" using concat_cut [of P xs] assms by simp
  have ne: "\<forall>x \<in> set (cs @ ds). x \<noteq> []" using cut_nonempty [of _ P xs] assms by auto
  have "cuts P (concat cs) = cs \<and> cuts P (concat ds) = ds"
  proof (cases "cs = [] \<or> ds = []")
    case True
    then show ?thesis using assms xs by auto
  next
    case False
    then have "P (last (last cs))" using cut_last_closed [OF assms] by simp
    moreover have "last (concat cs) = last (last cs)" using False ne by (intro last_concat) auto
    moreover have "concat cs \<noteq> []" using False ne by (cases cs) auto
    ultimately have "cuts P xs = cuts P (concat cs) @ cuts P (concat ds)" unfolding xs by (intro cut_append) simp_all
    then show ?thesis using assms ne
      by (intro nonempty_parts) (auto simp: concat_cut dest: cut_nonempty)
  qed
  then show "cuts P (concat cs) = cs" and "cuts P (concat ds) = ds" by simp_all
qed

lemma cut_inner_open: "cuts P xs = [c] \<Longrightarrow> x \<in> set (butlast c) \<Longrightarrow> \<not> P x"
proof (induction xs arbitrary: c)
  case (Cons y xs)
  then show ?case by (cases "cuts P xs") (auto split: if_splits)
qed simp

section \<open>Trees and levels\<close>

datatype ptree = PLeaf "(bytes \<times> bytes) list" | PNode "(bytes \<times> ptree) list"

definition chunk_by :: "(bytes \<Rightarrow> bool) \<Rightarrow> ((bytes \<times> 'a) list \<Rightarrow> ptree) \<Rightarrow> (bytes \<times> 'a) list \<Rightarrow> (bytes \<times> ptree) list" where
  "chunk_by P mk xs = map (\<lambda>c. (fst (last c), mk c)) (cuts (\<lambda>x. P (fst x)) xs)"

fun klevel :: "(nat \<Rightarrow> bytes \<Rightarrow> bool) \<Rightarrow> nat \<Rightarrow> (bytes \<times> bytes) list \<Rightarrow> (bytes \<times> ptree) list" where
  "klevel B 0 es = chunk_by (B 0) PLeaf es"
| "klevel B (Suc l) es = chunk_by (B (Suc l)) PNode (klevel B l es)"

fun pents :: "ptree \<Rightarrow> (bytes \<times> bytes) list" where
  "pents (PLeaf es) = es"
| "pents (PNode cs) = concat (map (\<lambda>(k, t). pents t) cs)"

definition kents :: "(bytes \<times> ptree) list \<Rightarrow> (bytes \<times> bytes) list" where
  "kents cs = concat (map (\<lambda>(k, t). pents t) cs)"

definition is_top :: "(nat \<Rightarrow> bytes \<Rightarrow> bool) \<Rightarrow> (bytes \<times> bytes) list \<Rightarrow> nat \<Rightarrow> ptree \<Rightarrow> bool" where
  "is_top B es h t \<longleftrightarrow> (\<exists>k. klevel B h es = [(k, t)]) \<and> (\<forall>j < h. length (klevel B j es) > 1)"

definition closed_key :: "(nat \<Rightarrow> bytes \<Rightarrow> bool) \<Rightarrow> nat \<Rightarrow> bytes \<Rightarrow> bool" where
  "closed_key B l k \<longleftrightarrow> (\<forall>j \<le> l. B j k)"

lemma chunk_by_Nil [simp]: "chunk_by P mk [] = []" "chunk_by P mk xs = [] \<longleftrightarrow> xs = []"
  by (simp_all add: chunk_by_def)

lemma chunk_by_last: "xs \<noteq> [] \<Longrightarrow> fst (last (chunk_by P mk xs)) = fst (last xs)"
proof -
  assume ne: "xs \<noteq> []"
  let ?c = "cuts (\<lambda>x. P (fst x)) xs"
  have "?c \<noteq> []" using ne by simp
  then have "last ?c \<noteq> []" using cut_nonempty [of "last ?c" "\<lambda>x. P (fst x)" xs] by simp
  then have "last (concat ?c) = last (last ?c)" using \<open>?c \<noteq> []\<close> by (intro last_concat) simp_all
  then show ?thesis using \<open>?c \<noteq> []\<close> by (simp add: chunk_by_def last_map concat_cut)
qed

lemma chunk_by_append:
  "xs = [] \<or> P (fst (last xs)) \<Longrightarrow> chunk_by P mk (xs @ ys) = chunk_by P mk xs @ chunk_by P mk ys"
  by (cases "xs = []") (auto simp: chunk_by_def cut_append)

lemma klevel_eq_Nil [simp]: "klevel B l es = [] \<longleftrightarrow> es = []"
  by (induction l) auto

lemma klevel_Nil [simp]: "klevel B l [] = []"
  by simp

lemma klevel_last: "es \<noteq> [] \<Longrightarrow> fst (last (klevel B l es)) = fst (last es)"
  by (induction l) (auto simp: chunk_by_last)

lemma closed_key_mono: "closed_key B l k \<Longrightarrow> j \<le> l \<Longrightarrow> closed_key B j k"
  by (auto simp: closed_key_def)

lemma klevel_append:
  "xs = [] \<or> closed_key B l (fst (last xs)) \<Longrightarrow> klevel B l (xs @ ys) = klevel B l xs @ klevel B l ys"
proof (induction l)
  case 0
  then show ?case by (simp add: chunk_by_append closed_key_def)
next
  case (Suc l)
  show ?case
  proof (cases "xs = []")
    case False
    with Suc.prems have c: "closed_key B (Suc l) (fst (last xs))" by simp
    then have "closed_key B l (fst (last xs))" "B (Suc l) (fst (last xs))" by (auto simp: closed_key_def)
    with Suc.IH False show ?thesis by (simp add: chunk_by_append klevel_last)
  qed simp
qed

lemma kents_append [simp]: "kents (xs @ ys) = kents xs @ kents ys" "kents [] = []" "kents ((k, t) # xs) = pents t @ kents xs"
  by (simp_all add: kents_def)

lemma pents_PNode: "pents (PNode cs) = kents cs"
  by (simp add: kents_def)

lemma kents_klevel: "kents (klevel B l es) = es"
proof (induction l)
  case 0
  have "kents (map (\<lambda>c. (fst (last c), PLeaf c)) cs) = concat cs" for cs :: "(bytes \<times> bytes) list list"
    by (induction cs) auto
  then show ?case by (simp add: chunk_by_def concat_cut)
next
  case (Suc l)
  have "kents (map (\<lambda>c. (fst (last c), PNode c)) cs) = kents (concat cs)" for cs
    by (induction cs) (auto simp: kents_def)
  then show ?case using Suc.IH by (simp add: chunk_by_def concat_cut)
qed

lemma kents_chunks:
  "kents (map (\<lambda>c. (fst (last c), PLeaf c)) cs) = concat cs"
  "kents (map (\<lambda>c. (fst (last c), PNode c)) ds) = kents (concat ds)"
  by (induction cs; simp) (induction ds; simp add: kents_def)

lemma klevel_parts:
  assumes "klevel B l es = xs @ ys"
  shows "klevel B l (kents xs) = xs \<and> klevel B l (kents ys) = ys
    \<and> (xs \<noteq> [] \<and> ys \<noteq> [] \<longrightarrow> closed_key B l (fst (last xs)))"
  using assms
proof (induction l arbitrary: xs ys)
  case 0
  let ?f = "\<lambda>c. (fst (last c), PLeaf c)" and ?P = "\<lambda>x. B 0 (fst x)"
  from 0 obtain cs ds where c: "cuts ?P es = cs @ ds" "xs = map ?f cs" "ys = map ?f ds"
    by (auto simp: chunk_by_def map_eq_append_conv)
  have "xs \<noteq> [] \<Longrightarrow> ys \<noteq> [] \<Longrightarrow> B 0 (fst (last xs))"
    using cut_last_closed [OF c(1)] by (simp add: c last_map)
  then show ?case
    using cut_parts [OF c(1)] by (simp add: c(2,3) kents_chunks chunk_by_def closed_key_def)
next
  case (Suc l)
  let ?f = "\<lambda>c. (fst (last c), PNode c)" and ?P = "\<lambda>x. B (Suc l) (fst x)"
  from Suc.prems obtain cs ds where c: "cuts ?P (klevel B l es) = cs @ ds" "xs = map ?f cs" "ys = map ?f ds"
    by (auto simp: chunk_by_def map_eq_append_conv)
  note parts = cut_parts [OF c(1)]
  from Suc.IH [OF parts(3)] have IH: "klevel B l (kents (concat cs)) = concat cs"
      "klevel B l (kents (concat ds)) = concat ds"
      "concat cs \<noteq> [] \<and> concat ds \<noteq> [] \<longrightarrow> closed_key B l (fst (last (concat cs)))" by simp_all
  have ne: "\<forall>x \<in> set (cs @ ds). x \<noteq> []" using cut_nonempty [of _ ?P "klevel B l es"] c(1) by auto
  have "closed_key B (Suc l) (fst (last xs))" if "xs \<noteq> []" "ys \<noteq> []"
  proof -
    have n: "cs \<noteq> []" "ds \<noteq> []" using that by (simp_all add: c)
    then have "last (concat cs) = last (last cs)" using ne by (intro last_concat) auto
    moreover have "concat cs \<noteq> []" "concat ds \<noteq> []" using n ne by (cases cs; cases ds; auto)+
    ultimately have "closed_key B l (fst (last (last cs)))" using IH(3) by simp
    moreover have "B (Suc l) (fst (last (last cs)))" using cut_last_closed [OF c(1) n] by simp
    moreover have "fst (last xs) = fst (last (last cs))" using n by (simp add: c last_map)
    ultimately show ?thesis by (auto simp: closed_key_def le_Suc_eq)
  qed
  then show ?case
    using IH parts by (simp add: c(2,3) kents_chunks chunk_by_def)
qed

lemma klevel_single:
  "klevel B 0 es = [(k, t)] \<Longrightarrow> t = PLeaf es \<and> k = fst (last es)"
  "klevel B (Suc l) es = [(k, t)] \<Longrightarrow> t = PNode (klevel B l es) \<and> k = fst (last es)"
proof -
  have 1: "mk xs = t \<and> fst (last xs) = k" if "chunk_by P mk xs = [(k, t)]" for P mk and xs :: "(bytes \<times> 'a) list"
    using that concat_cut [of "\<lambda>x. P (fst x)" xs] by (auto simp: chunk_by_def)
  show "klevel B 0 es = [(k, t)] \<Longrightarrow> t = PLeaf es \<and> k = fst (last es)"
    using 1 [of "B 0" PLeaf es] by auto
  show "klevel B (Suc l) es = [(k, t)] \<Longrightarrow> t = PNode (klevel B l es) \<and> k = fst (last es)"
    using 1 [of "B (Suc l)" PNode "klevel B l es"] klevel_last [of es B l] by (cases "es = []") auto
qed

lemma klevel_pents: "klevel B l es = [(k, t)] \<Longrightarrow> pents t = es"
  using kents_klevel [of B l es] by simp

lemma klevel_length_mono: "length (klevel B (Suc l) es) \<le> length (klevel B l es)"
proof -
  have "length (cuts P xs) \<le> length xs" for P and xs :: "'a list"
    by (induction xs) (auto split: list.splits)
  then show ?thesis by (simp add: chunk_by_def)
qed

lemma klevel_length_antimono: "j \<le> l \<Longrightarrow> length (klevel B l es) \<le> length (klevel B j es)"
proof (induction l rule: nat_induct_at_least [of j])
  case (Suc l)
  then show ?case using klevel_length_mono [of B l es] by linarith
qed simp

section \<open>Changing one key\<close>

definition upd :: "bytes \<Rightarrow> bytes option \<Rightarrow> (bytes \<times> bytes) list \<Rightarrow> (bytes \<times> bytes) list" where
  "upd key c es = (case c of Some v \<Rightarrow> bt_insert key v es | None \<Rightarrow> bt_remove key es)"

lemma bt_sorted_append:
  "bt_sorted (xs @ ys) \<longleftrightarrow> bt_sorted xs \<and> bt_sorted ys \<and> (\<forall>a \<in> fst ` set xs. \<forall>b \<in> fst ` set ys. a < b)"
  by (auto simp: bt_sorted_def sorted_wrt_append)

lemma bt_sorted_last: "bt_sorted xs \<Longrightarrow> a \<in> fst ` set xs \<Longrightarrow> a \<le> fst (last xs)"
proof (induction xs rule: rev_induct)
  case (snoc x xs)
  then show ?case by (auto simp: bt_sorted_append less_imp_le)
qed simp

lemma bt_insert_skip: "\<forall>a \<in> fst ` set xs. a < key \<Longrightarrow> bt_insert key v (xs @ ys) = xs @ bt_insert key v ys"
  by (induction xs) auto

lemma bt_insert_before:
  "bt_sorted (xs @ ys) \<Longrightarrow> xs \<noteq> [] \<Longrightarrow> key \<le> fst (last xs) \<Longrightarrow> bt_insert key v (xs @ ys) = bt_insert key v xs @ ys"
proof (induction xs)
  case (Cons x xs)
  obtain a b where x: "x = (a, b)" by force
  show ?case
  proof (cases "xs = []")
    case False
    with Cons show ?thesis by (auto simp: x bt_sorted_Cons)
  qed (use Cons in \<open>auto simp: x\<close>)
qed simp

lemma bt_insert_last: "bt_sorted xs \<Longrightarrow> xs \<noteq> [] \<Longrightarrow> key \<le> fst (last xs) \<Longrightarrow> fst (last (bt_insert key v xs)) = fst (last xs)"
proof (induction xs)
  case (Cons x xs)
  obtain a b where x: "x = (a, b)" by force
  show ?case
  proof (cases "xs = []")
    case False
    with Cons show ?thesis by (auto simp: x bt_sorted_Cons)
  qed (use Cons in \<open>auto simp: x\<close>)
qed simp

lemma bt_remove_append: "bt_remove key (xs @ ys) = bt_remove key xs @ bt_remove key ys"
  by (simp add: bt_remove_def)

lemma bt_remove_notin: "key \<notin> fst ` set xs \<Longrightarrow> bt_remove key xs = xs"
  by (induction xs) (auto simp: bt_remove_def)

lemma bt_remove_last: "xs \<noteq> [] \<Longrightarrow> key \<noteq> fst (last xs) \<Longrightarrow> bt_remove key xs \<noteq> [] \<and> fst (last (bt_remove key xs)) = fst (last xs)"
  by (induction xs rule: rev_induct) (auto simp: bt_remove_def)

lemma bt_sorted_upd: "bt_sorted es \<Longrightarrow> bt_sorted (upd key c es)"
  by (simp add: upd_def split: option.splits)

lemma upd_middle:
  assumes "bt_sorted (ex @ mid @ ey)" and "\<forall>a \<in> fst ` set ex. a < key"
    and "ey = [] \<or> mid \<noteq> [] \<and> key \<le> fst (last mid)"
  shows "upd key c (ex @ mid @ ey) = ex @ upd key c mid @ ey"
proof (cases c)
  case None
  have "key \<notin> fst ` set ey"
  proof (cases "ey = []")
    case False
    with assms(3) have m: "mid \<noteq> []" "key \<le> fst (last mid)" by auto
    then have "last mid \<in> set mid" by simp
    then have "\<forall>b \<in> fst ` set ey. fst (last mid) < b" using assms(1) by (simp add: bt_sorted_append)
    with m(2) show ?thesis by auto
  qed simp
  moreover have "key \<notin> fst ` set ex" using assms(2) by auto
  ultimately show ?thesis by (simp add: None upd_def bt_remove_append bt_remove_notin)
next
  case (Some v)
  have "bt_insert key v (mid @ ey) = bt_insert key v mid @ ey"
    using assms(1,3) by (cases "ey = []") (auto simp: bt_sorted_append intro: bt_insert_before)
  then show ?thesis using assms(2) by (simp add: Some upd_def bt_insert_skip)
qed

lemma upd_last_key:
  assumes "bt_sorted mid" and "mid \<noteq> []" and "key \<le> fst (last mid)" and "c = None \<longrightarrow> key \<noteq> fst (last mid)"
  shows "upd key c mid \<noteq> [] \<and> fst (last (upd key c mid)) = fst (last mid)"
proof (cases c)
  case None
  then show ?thesis using bt_remove_last assms by (simp add: upd_def)
next
  case (Some v)
  then show ?thesis using assms by (simp add: upd_def bt_insert_last)
qed

lemma klevel_key_le:
  assumes "bt_sorted es" and "klevel B l es = xs @ (k, t) # ys"
  shows "pents t \<noteq> []" and "k = fst (last (pents t))" and "\<forall>a \<in> fst ` set (kents xs @ pents t). a \<le> k"
    and "es = kents xs @ pents t @ kents ys"
    and "klevel B l (pents t) = [(k, t)]"
    and "ys \<noteq> [] \<Longrightarrow> closed_key B l k"
    and "klevel B l (kents xs) = xs" and "klevel B l (kents ys) = ys"
    and "xs \<noteq> [] \<Longrightarrow> closed_key B l (fst (last (kents xs)))"
proof -
  have a: "klevel B l es = (xs @ [(k, t)]) @ ys" using assms(2) by simp
  from klevel_parts [OF a] have p1: "klevel B l (kents xs @ pents t) = xs @ [(k, t)]" and p2: "klevel B l (kents ys) = ys"
    and p3: "ys \<noteq> [] \<Longrightarrow> closed_key B l k" by auto
  from klevel_parts [OF p1] have q: "klevel B l (kents xs) = xs" "klevel B l (pents t) = [(k, t)]"
    "xs \<noteq> [] \<Longrightarrow> closed_key B l (fst (last xs))" by auto
  show es: "es = kents xs @ pents t @ kents ys" using kents_klevel [of B l es] assms(2) by simp
  show ne: "pents t \<noteq> []" using q(2) by auto
  show k: "k = fst (last (pents t))" using klevel_last [OF ne, of B l] q(2) by simp
  show "\<forall>a \<in> fst ` set (kents xs @ pents t). a \<le> k"
  proof -
    have "bt_sorted (kents xs @ pents t)" using assms(1) unfolding es by (auto simp: bt_sorted_append)
    from bt_sorted_last [OF this] ne k show ?thesis by (metis last_appendR)
  qed
  show "klevel B l (pents t) = [(k, t)]" "klevel B l (kents xs) = xs" "klevel B l (kents ys) = ys" by fact+
  show "ys \<noteq> [] \<Longrightarrow> closed_key B l k" by fact
  show "xs \<noteq> [] \<Longrightarrow> closed_key B l (fst (last (kents xs)))"
    using q(1,3) klevel_last [of "kents xs" B l] by (metis klevel_eq_Nil)
qed

lemma klevel_before:
  assumes "bt_sorted es" and "klevel B l es = xs @ (k, t) # ys" and "\<forall>x \<in> set xs. fst x < key"
  shows "\<forall>a \<in> fst ` set (kents xs). a < key"
proof (cases "xs = []")
  case False
  note f = klevel_key_le [OF assms(1,2)]
  have ne: "kents xs \<noteq> []" using False f(7) klevel_eq_Nil by metis
  have s: "bt_sorted (kents xs)" using assms(1) unfolding f(4) by (simp add: bt_sorted_append)
  have "fst (last (kents xs)) = fst (last xs)" using klevel_last [OF ne, of B l] f(7) by simp
  also have "\<dots> < key" using assms(3) False by simp
  finally show ?thesis using bt_sorted_last [OF s] by fastforce
qed simp

lemma klevel_after:
  assumes "bt_sorted es" and "klevel B l es = xs @ (k, t) # ys" and "key \<le> k"
  shows "\<forall>a \<in> fst ` set (kents ys). key < a"
proof -
  note f = klevel_key_le [OF assms(1,2)]
  have "last (pents t) \<in> set (pents t)" using f(1) by simp
  then have "\<forall>a \<in> fst ` set (kents ys). k < a" using assms(1) f(2) unfolding f(4) by (simp add: bt_sorted_append)
  with assms(3) show ?thesis by fastforce
qed

lemma klevel_child_sorted:
  assumes "bt_sorted es" and "klevel B l es = xs @ (k, t) # ys"
  shows "bt_sorted (pents t)"
  using assms(1) unfolding klevel_key_le(4) [OF assms] by (simp add: bt_sorted_append)

lemma map_of_middle:
  assumes "\<forall>a \<in> fst ` set xs. a < key" and "\<forall>a \<in> fst ` set zs. key < a"
  shows "map_of (xs @ ys @ zs) key = map_of ys (key :: 'a :: linorder)"
proof -
  have "map_of xs key = None" "map_of zs key = None"
    using assms by (auto simp: map_of_eq_None_iff)
  then show ?thesis by (simp add: map_add_def split: option.splits)
qed

lemma klevel_child_lookup:
  assumes "bt_sorted es" and "klevel B l es = xs @ (k, t) # ys"
    and "\<forall>x \<in> set xs. fst x < key" and "key \<le> k"
  shows "map_of es key = map_of (pents t) key"
  unfolding klevel_key_le(4) [OF assms(1,2)]
  by (rule map_of_middle [OF klevel_before [OF assms(1-3)] klevel_after [OF assms(1,2,4)]])

lemma local_rechunk:
  assumes "bt_sorted es" and "klevel B l es = xs @ (k, t) # ys"
    and "\<forall>x \<in> set xs. fst x < key" and "key \<le> k \<or> ys = []"
    and "upd key c (pents t) = [] \<or> ys = [] \<or> closed_key B l (fst (last (upd key c (pents t))))"
  shows "klevel B l (upd key c es) = xs @ klevel B l (upd key c (pents t)) @ ys"
proof -
  note f = klevel_key_le [OF assms(1,2)]
  have lt: "\<forall>a \<in> fst ` set (kents xs). a < key" by (rule klevel_before [OF assms(1-3)])
  have ys: "ys = [] \<longleftrightarrow> kents ys = []" using f(8) klevel_eq_Nil by metis
  have "upd key c es = kents xs @ upd key c (pents t) @ kents ys"
    unfolding f(4) using assms(1,4) f(1,2) ys lt unfolding f(4)
    by (intro upd_middle) auto
  moreover have "klevel B l (upd key c (pents t) @ kents ys) = klevel B l (upd key c (pents t)) @ ys"
  proof (cases "ys = []")
    case True
    then show ?thesis using ys by simp
  next
    case False
    then show ?thesis using klevel_append assms(5) f(8) by fastforce
  qed
  moreover have "klevel B l (kents xs @ z) = xs @ klevel B l z" for z
    using klevel_append [of "kents xs" B l z] f(7,9) by (cases "xs = []") auto
  ultimately show ?thesis by simp
qed

end
