(* ===== verification/Loom_Prolly_Refine.thy ===== *)
theory Loom_Prolly_Refine
  imports Loom_Prolly Loom_Prolly_Spec
begin

text \<open>
  The prolly tree in a store refines the abstract tree: \<open>pbytes\<close> is the byte form of a node, its address
  the hash of that form, and \<open>holds m t\<close> says that the map \<open>m\<close> of a store has every node of \<open>t\<close> at its
  address. Build, lookup, scans, insert and remove are related to the abstract levels, for any store
  that keeps the contract \<open>object_store\<close>.
\<close>

section \<open>Nodes as bytes\<close>

definition leaf_value :: "entry list \<Rightarrow> Value" where
  "leaf_value es = Array [Uint LEAF_TAG, Array (map (\<lambda>(k, v). Array [Bytes k, Bytes v]) es)]"

definition internal_value :: "(bytes \<times> bytes) list \<Rightarrow> Value" where
  "internal_value cs = Array [Uint INTERNAL_TAG, Array (map (\<lambda>(k, d). Array [Bytes k, Bytes d]) cs)]"

definition leaf_bytes :: "entry list \<Rightarrow> bytes" where "leaf_bytes es = enc (leaf_value es)"
definition internal_bytes :: "(bytes \<times> bytes) list \<Rightarrow> bytes" where "internal_bytes cs = enc (internal_value cs)"

fun pbytes :: "(bytes \<Rightarrow> bytes) \<Rightarrow> ptree \<Rightarrow> bytes" where
  "pbytes addr (PLeaf es) = leaf_bytes es"
| "pbytes addr (PNode cs) = internal_bytes (map (\<lambda>(k, t). (k, addr (pbytes addr t))) cs)"

fun holds :: "(bytes \<Rightarrow> bytes) \<Rightarrow> (bytes \<Rightarrow> bytes option) \<Rightarrow> ptree \<Rightarrow> bool" where
  "holds addr m (PLeaf es) = (m (addr (pbytes addr (PLeaf es))) = Some (pbytes addr (PLeaf es)))"
| "holds addr m (PNode cs) = (m (addr (pbytes addr (PNode cs))) = Some (pbytes addr (PNode cs))
     \<and> list_all (\<lambda>(k, t). holds addr m t) cs)"

definition kd :: "child list \<Rightarrow> (bytes \<times> bytes) list" where
  "kd cs = map (\<lambda>(k, d). (k, d_bytes d)) cs"

definition reps :: "(bytes \<Rightarrow> bytes) \<Rightarrow> (bytes \<times> ptree) list \<Rightarrow> (bytes \<times> bytes) list" where
  "reps addr cs = map (\<lambda>(k, t). (k, addr (pbytes addr t))) cs"

definition entries_wf :: "entry list \<Rightarrow> bool" where
  "entries_wf es \<longleftrightarrow> length es < 2 ^ 64 \<and> (\<forall>(k, v) \<in> set es. length k < 2 ^ 64 \<and> length v < 2 ^ 64)"

fun pwf :: "ptree \<Rightarrow> bool" where
  "pwf (PLeaf es) = entries_wf es"
| "pwf (PNode cs) = (length cs < 2 ^ 64 \<and> list_all (\<lambda>(k, t). length k < 2 ^ 64 \<and> pwf t) cs)"

lemma encode_pair_items:
  "encode (Array (map (\<lambda>(k, v). Array [Bytes k, Bytes v]) es)) = Inr (enc (Array (map (\<lambda>(k, v). Array [Bytes k, Bytes v]) es)))"
  by (intro encode_Array_ok) (auto simp: atoms_encode intro!: encode_Array_ok)

lemma encode_leaf_eq: "encode_leaf es = Inr (leaf_bytes es)"
proof -
  have "encode (leaf_value es) = Inr (enc (leaf_value es))"
    unfolding leaf_value_def using encode_pair_items by (intro encode_Array_ok) (simp add: atoms_encode)
  then show ?thesis by (simp add: encode_leaf_def cbor_encode_def leaf_value_def leaf_bytes_def)
qed

lemma encode_internal_eq: "encode_internal cs = Inr (internal_bytes (kd cs))"
proof -
  have "encode (internal_value (kd cs)) = Inr (enc (internal_value (kd cs)))"
    unfolding internal_value_def using encode_pair_items by (intro encode_Array_ok) (simp add: atoms_encode)
  moreover have "map (\<lambda>(k, d). Array [Bytes k, digest_value d]) cs = map (\<lambda>(k, d). Array [Bytes k, Bytes d]) (kd cs)"
    by (simp add: kd_def digest_value_def split_beta)
  ultimately show ?thesis by (simp add: encode_internal_def cbor_encode_def internal_value_def internal_bytes_def)
qed

lemma pair_items_facts:
  assumes "\<forall>(k, v) \<in> set es. length k < 2 ^ 64 \<and> length v < 2 ^ 64" and "length es < 2 ^ 64"
  shows "value_wf (Array [Uint tag, Array (map (\<lambda>(k, v). Array [Bytes k, Bytes v]) es)])"
    and "vdepth (Array [Uint tag, Array (map (\<lambda>(k, v). Array [Bytes k, Bytes v]) es)]) \<le> MAX_DEPTH"
    and "canon (Array [Uint tag, Array (map (\<lambda>(k, v). Array [Bytes k, Bytes v]) es)])
      = Array [Uint tag, Array (map (\<lambda>(k, v). Array [Bytes k, Bytes v]) es)]"
proof -
  show "value_wf (Array [Uint tag, Array (map (\<lambda>(k, v). Array [Bytes k, Bytes v]) es)])"
    using assms by (auto simp: list_all_iff)
  have "foldr (\<lambda>v m. max (Suc (vdepth v)) m) (map (\<lambda>(k, v). Array [Bytes k, Bytes v]) es) 0 \<le> 2"
    by (induction es) auto
  then show "vdepth (Array [Uint tag, Array (map (\<lambda>(k, v). Array [Bytes k, Bytes v]) es)]) \<le> MAX_DEPTH"
    by (simp add: MAX_DEPTH_def)
qed (auto simp: split_beta)

lemma read_leaf_item_iff: "read_leaf_item v = Inr e \<longleftrightarrow> v = (\<lambda>(k, v). Array [Bytes k, Bytes v]) e \<and> True"
  by (cases e) (auto simp: read_leaf_item_def result_simps cbor_iff)

lemma read_internal_item_iff:
  "read_internal_item v = Inr c \<longleftrightarrow> v = (\<lambda>(k, d). Array [Bytes k, digest_value d]) c \<and> digest_ok (snd c)"
  by (cases c) (auto simp: read_internal_item_def result_simps cbor_iff)

lemma decode_encoded_array:
  assumes "value_wf (Array vs)" "vdepth (Array vs) \<le> MAX_DEPTH" "canon (Array vs) = Array vs"
    and "encode (Array vs) = Inr b"
  shows "decode_array b = Inr vs"
  using decode_encoded [OF assms(1,4)] assms(2,3)
  by (simp add: decode_array_def cbor_decode_def as_array_def)

lemma decode_node_leaf:
  assumes "entries_wf es"
  shows "decode_node (leaf_bytes es) = Inr (Leaf es)"
proof -
  let ?vs = "[Uint LEAF_TAG, Array (map (\<lambda>(k, v). Array [Bytes k, Bytes v]) es)]"
  have "encode (Array ?vs) = Inr (leaf_bytes es)"
    using encode_leaf_eq [of es] by (auto simp: encode_leaf_def cbor_encode_def result_simps)
  then have "decode_array (leaf_bytes es) = Inr ?vs"
    using assms pair_items_facts [of es LEAF_TAG] by (intro decode_encoded_array) (auto simp: entries_wf_def)
  moreover have "rmap read_leaf_item (map (\<lambda>(k, v). Array [Bytes k, Bytes v]) es) = Inr es"
    unfolding rmap_iff [OF read_leaf_item_iff] by (simp add: list_all_iff)
  ultimately show ?thesis by (simp add: decode_node_def cbor_eval)
qed

lemma decode_node_internal:
  assumes "\<forall>(k, d) \<in> set cs. length k < 2 ^ 64 \<and> length d = DIGEST_LEN" and "length cs < 2 ^ 64"
  shows "decode_node (internal_bytes cs) = Inr (InternalNode (map (\<lambda>(k, d). (k, from_blake3_bytes d)) cs))"
proof -
  let ?vs = "[Uint INTERNAL_TAG, Array (map (\<lambda>(k, v). Array [Bytes k, Bytes v]) cs)]"
  let ?cs = "map (\<lambda>(k, d). (k, from_blake3_bytes d)) cs"
  have wf: "\<forall>(k, v) \<in> set cs. length k < 2 ^ 64 \<and> length v < 2 ^ 64"
    using assms(1) by (auto simp: DIGEST_LEN_def)
  have kd: "kd ?cs = cs" by (induction cs) (auto simp: kd_def from_blake3_bytes_def digest_of_def)
  have items: "map (\<lambda>(k, v). Array [Bytes k, Bytes v]) cs = map (\<lambda>(k, d). Array [Bytes k, digest_value d]) ?cs"
    by (simp add: from_blake3_bytes_def digest_of_def digest_value_def split_beta)
  have "encode (Array ?vs) = Inr (internal_bytes cs)"
    using encode_internal_eq [of ?cs] unfolding encode_internal_def kd items [symmetric]
    by (simp add: cbor_encode_def result_simps)
  then have "decode_array (internal_bytes cs) = Inr ?vs"
    by (intro decode_encoded_array pair_items_facts wf assms(2))
  moreover have "rmap read_internal_item (map (\<lambda>(k, v). Array [Bytes k, Bytes v]) cs) = Inr ?cs"
    unfolding items rmap_iff [OF read_internal_item_iff]
    using assms(1) by (auto simp: list_all_iff digest_ok_def from_blake3_bytes_def digest_of_def)
  ultimately show ?thesis by (simp add: decode_node_def cbor_eval LEAF_TAG_def INTERNAL_TAG_def)
qed

section \<open>Chunking passes\<close>

lemma cuts_map: "cuts P (map f xs) = map (map f) (cuts (\<lambda>x. P (f x)) xs)"
  by (induction xs) (auto split: list.splits)

definition put_list :: "'s ObjectStore \<Rightarrow> 's \<Rightarrow> bytes list \<Rightarrow> 's res" where
  "put_list ops s bs = rfold (\<lambda>s b. rbind (os_put ops s b) (\<lambda>(d, s'). Inr s')) s bs"

lemma put_list_simps [simp]:
  "put_list ops s [] = Inr s"
  "put_list ops s (b # bs) = rbind (os_put ops s b) (\<lambda>(d, s'). put_list ops s' bs)"
  by (auto simp: put_list_def rbind_def split: sum.splits)

lemma put_list_append: "put_list ops s (as @ bs) = rbind (put_list ops s as) (\<lambda>s'. put_list ops s' bs)"
  by (induction as arbitrary: s) (auto simp: rbind_def split: sum.splits)

lemma kd_append [simp]: "kd (xs @ ys) = kd xs @ kd ys" "kd [] = []" "kd ((k, d) # xs) = (k, d_bytes d) # kd xs"
  by (simp_all add: kd_def)

definition flushes :: "'s ObjectStore \<Rightarrow> ('s \<Rightarrow> (bytes \<times> 'a) list \<Rightarrow> (child \<times> 's) res) \<Rightarrow> ((bytes \<times> 'a) list \<Rightarrow> bytes) \<Rightarrow> bool" where
  "flushes ops flush f \<longleftrightarrow> (\<forall>s run. run \<noteq> [] \<longrightarrow>
     flush s run = rbind (os_put ops s (f run)) (\<lambda>(d, s'). Inr ((fst (last run), d), s')))"

lemma flushes_leaf: "flushes ops (flush_leaf ops) leaf_bytes"
  by (simp add: flushes_def flush_leaf_def encode_leaf_eq)

lemma flushes_internal: "flushes ops (flush_internal ops) (\<lambda>cs. internal_bytes (kd cs))"
  by (simp add: flushes_def flush_internal_def encode_internal_eq)

context object_store
begin

abbreviation "addr \<equiv> store_addr hash ops"

lemma put_list_total: "\<exists>s'. put_list ops s bs = Inr s'"
proof (induction bs arbitrary: s)
  case (Cons b bs)
  obtain d s1 where "os_put ops s b = Inr (d, s1)" by (rule put_total)
  with Cons.IH show ?case by simp
qed simp

lemma put_list_within:
  assumes "inj_on addr U" and "contents_in addr U (contents s)" and "set bs \<subseteq> U" and "put_list ops s bs = Inr s'"
  shows "contents s \<subseteq>\<^sub>m contents s' \<and> contents_in addr U (contents s') \<and> (\<forall>b \<in> set bs. contents s' (addr b) = Some b)"
  using assms(2-)
proof (induction bs arbitrary: s)
  case (Cons b bs)
  obtain d t where t: "os_put ops s b = Inr (d, t)" "contents t = (contents s)(addr b \<mapsto> b)"
      "contents s \<subseteq>\<^sub>m contents t" "contents_in addr U (contents t)"
    using Cons.prems(2) by (auto intro: put_within [OF assms(1) Cons.prems(1), of b])
  have IH: "contents t \<subseteq>\<^sub>m contents s' \<and> contents_in addr U (contents s') \<and> (\<forall>b \<in> set bs. contents s' (addr b) = Some b)"
    by (rule Cons.IH [OF t(4)]) (use Cons.prems t(1) in simp_all)
  moreover have "contents s' (addr b) = Some b"
    using IH map_le_lookup [of "contents t" "contents s'" "addr b" b] t(2) by simp
  ultimately show ?case using map_le_trans [OF t(3)] by simp
qed simp

lemma chunk_loop:
  assumes "flushes ops flush f" and "\<forall>x \<in> set run. \<not> P (fst x)"
  shows "\<exists>s1 out1 run1 cs. rfold (chunk_step flush P) (s, out, run) xs = Inr (s1, out1, run1)
    \<and> cuts (\<lambda>x. P (fst x)) (run @ xs) = cs @ (if run1 = [] then [] else [run1])
    \<and> kd out1 = kd out @ map (\<lambda>c. (fst (last c), addr (f c))) cs
    \<and> put_list ops s (map f cs) = Inr s1"
  using assms(2)
proof (induction xs arbitrary: s out run)
  case Nil
  then show ?case
    using cut_snoc_open [of run "\<lambda>x. P (fst x)"] by (auto intro!: exI [where x = "[]"])
next
  case (Cons x xs)
  show ?case
  proof (cases "P (fst x)")
    case True
    obtain d s1 where put: "os_put ops s (f (run @ [x])) = Inr (d, s1)" "d_bytes d = addr (f (run @ [x]))"
      by (rule put_total)
    then have fl: "flush s (run @ [x]) = Inr ((fst x, d), s1)"
      using assms(1) by (simp add: flushes_def)
    obtain s2 out2 run2 cs where IH: "rfold (chunk_step flush P) (s1, out @ [(fst x, d)], []) xs = Inr (s2, out2, run2)"
        "cuts (\<lambda>x. P (fst x)) xs = cs @ (if run2 = [] then [] else [run2])"
        "kd out2 = kd (out @ [(fst x, d)]) @ map (\<lambda>c. (fst (last c), addr (f c))) cs"
        "put_list ops s1 (map f cs) = Inr s2"
      using Cons.IH [of "[]" s1 "out @ [(fst x, d)]"] by auto
    have "rfold (chunk_step flush P) (s, out, run) (x # xs) = Inr (s2, out2, run2)"
      using True fl IH(1) by (simp add: chunk_step_def)
    moreover have "cuts (\<lambda>x. P (fst x)) (run @ x # xs) = ((run @ [x]) # cs) @ (if run2 = [] then [] else [run2])"
      using cut_run [of run "\<lambda>x. P (fst x)" x xs] Cons.prems True IH(2) by simp
    moreover have "kd out2 = kd out @ map (\<lambda>c. (fst (last c), addr (f c))) ((run @ [x]) # cs)"
      using IH(3) put(2) by simp
    moreover have "put_list ops s (map f ((run @ [x]) # cs)) = Inr s2"
      using put(1) IH(4) by simp
    ultimately show ?thesis by blast
  next
    case False
    with Cons.prems have "\<forall>y \<in> set (run @ [x]). \<not> P (fst y)" by auto
    from Cons.IH [OF this] False show ?thesis by (simp add: chunk_step_def)
  qed
qed

lemma chunk_run_correct:
  assumes "flushes ops flush f"
  shows "\<exists>out s'. chunk_run flush P s xs = Inr (out, s')
    \<and> kd out = map (\<lambda>c. (fst (last c), addr (f c))) (cuts (\<lambda>x. P (fst x)) xs)
    \<and> put_list ops s (map f (cuts (\<lambda>x. P (fst x)) xs)) = Inr s'"
proof -
  obtain s1 out1 run1 cs where l: "rfold (chunk_step flush P) (s, [], []) xs = Inr (s1, out1, run1)"
      "cuts (\<lambda>x. P (fst x)) xs = cs @ (if run1 = [] then [] else [run1])"
      "kd out1 = map (\<lambda>c. (fst (last c), addr (f c))) cs" "put_list ops s (map f cs) = Inr s1"
    using chunk_loop [OF assms, of "[]" P s "[]" xs] by auto
  show ?thesis
  proof (cases "run1 = []")
    case True
    with l show ?thesis by (simp add: chunk_run_def)
  next
    case False
    obtain d s2 where "os_put ops s1 (f run1) = Inr (d, s2)" "d_bytes d = addr (f run1)" by (rule put_total)
    moreover from this have "flush s1 run1 = Inr ((fst (last run1), d), s2)"
      using assms False by (simp add: flushes_def)
    ultimately show ?thesis using False l by (simp add: chunk_run_def put_list_append)
  qed
qed

abbreviation "B \<equiv> boundary_of hash"

lemma chunk_leaves_klevel:
  "\<exists>out s'. chunk_leaves ops hash s es = Inr (out, s') \<and> kd out = reps addr (klevel B 0 es)
    \<and> put_list ops s (map (\<lambda>(k, t). pbytes addr t) (klevel B 0 es)) = Inr s'"
  using chunk_run_correct [OF flushes_leaf, of "B 0" s es]
  by (simp add: chunk_leaves_def reps_def chunk_by_def comp_def)

lemma chunk_internal_level:
  assumes "kd children = reps addr cs"
  shows "\<exists>out s'. chunk_internal ops hash s l children = Inr (out, s')
    \<and> kd out = reps addr (chunk_by (B l) PNode cs)
    \<and> put_list ops s (map (\<lambda>(k, t). pbytes addr t) (chunk_by (B l) PNode cs)) = Inr s'"
proof -
  let ?P = "B l"
  obtain out s' where o: "chunk_internal ops hash s l children = Inr (out, s')"
      "kd out = map (\<lambda>c. (fst (last c), addr (internal_bytes (kd c)))) (cuts (\<lambda>x. ?P (fst x)) children)"
      "put_list ops s (map (\<lambda>c. internal_bytes (kd c)) (cuts (\<lambda>x. ?P (fst x)) children)) = Inr s'"
    using chunk_run_correct [OF flushes_internal, of ?P s children] by (auto simp: chunk_internal_def)
  have "map kd (cuts (\<lambda>x. ?P (fst x)) children) = cuts (\<lambda>x. ?P (fst x)) (kd children)"
    unfolding kd_def cuts_map by (simp add: case_prod_unfold)
  also have "\<dots> = map (reps addr) (cuts (\<lambda>x. ?P (fst x)) cs)"
    unfolding assms unfolding reps_def cuts_map by (simp add: case_prod_unfold)
  finally have m: "map kd (cuts (\<lambda>x. ?P (fst x)) children) = map (reps addr) (cuts (\<lambda>x. ?P (fst x)) cs)" .
  have k: "fst (last c) = fst (last (kd c))" if "c \<in> set (cuts (\<lambda>x. ?P (fst x)) children)" for c
    using cut_nonempty [OF that] by (simp add: kd_def last_map case_prod_unfold)
  have r: "fst (last (reps addr c)) = fst (last c)" if "c \<in> set (cuts (\<lambda>x. ?P (fst x)) cs)" for c
    using cut_nonempty [OF that] by (simp add: reps_def last_map case_prod_unfold)
  have "kd out = map (\<lambda>c. (fst (last c), addr (internal_bytes c))) (map kd (cuts (\<lambda>x. ?P (fst x)) children))"
    using o(2) k by simp
  also have "\<dots> = reps addr (chunk_by (B l) PNode cs)"
    unfolding m using r by (simp add: reps_def chunk_by_def)
  finally have "kd out = reps addr (chunk_by (B l) PNode cs)" .
  moreover have "map (\<lambda>c. internal_bytes (kd c)) (cuts (\<lambda>x. ?P (fst x)) children)
      = map internal_bytes (map kd (cuts (\<lambda>x. ?P (fst x)) children))" by simp
  then have "put_list ops s (map (\<lambda>(k, t). pbytes addr t) (chunk_by (B l) PNode cs)) = Inr s'"
    using o(3) unfolding m by (simp add: chunk_by_def reps_def comp_def)
  ultimately show ?thesis using o(1) by blast
qed

end

section \<open>The nodes of all levels\<close>

definition covers :: "(bytes \<Rightarrow> bytes) \<Rightarrow> (nat \<Rightarrow> bytes \<Rightarrow> bool) \<Rightarrow> nat \<Rightarrow> entry list \<Rightarrow> bytes set \<Rightarrow> bool" where
  "covers addr B h es U \<longleftrightarrow> (\<forall>j \<le> h. \<forall>(k, t) \<in> set (klevel B j es). pbytes addr t \<in> U)"

definition level_bytes :: "(bytes \<Rightarrow> bytes) \<Rightarrow> (nat \<Rightarrow> bytes \<Rightarrow> bool) \<Rightarrow> nat \<Rightarrow> entry list \<Rightarrow> bytes list" where
  "level_bytes addr B j es = map (\<lambda>(k, t). pbytes addr t) (klevel B j es)"

definition node_view :: "(bytes \<Rightarrow> bytes) \<Rightarrow> ptree \<Rightarrow> Node" where
  "node_view addr t = (case t of PLeaf es \<Rightarrow> Leaf es
     | PNode cs \<Rightarrow> InternalNode (map (\<lambda>(k, t). (k, from_blake3_bytes (addr (pbytes addr t)))) cs))"

lemma length_le_concat: "c \<in> set cs \<Longrightarrow> length c \<le> length (concat cs)"
  by (induction cs) auto

lemma chunk_by_mem:
  "(k, t) \<in> set (chunk_by P mk xs) \<Longrightarrow> \<exists>c. t = mk c \<and> k = fst (last c) \<and> c \<noteq> [] \<and> set c \<subseteq> set xs \<and> length c \<le> length xs"
proof -
  assume "(k, t) \<in> set (chunk_by P mk xs)"
  then obtain c where c: "c \<in> set (cuts (\<lambda>x. P (fst x)) xs)" "t = mk c" "k = fst (last c)"
    by (auto simp: chunk_by_def)
  then have "set c \<subseteq> set (concat (cuts (\<lambda>x. P (fst x)) xs))" by auto
  then have sub: "set c \<subseteq> set xs" by (simp add: concat_cut)
  have "length c \<le> length (concat (cuts (\<lambda>x. P (fst x)) xs))"
    using c(1) by (rule length_le_concat)
  with sub c cut_nonempty [OF c(1)] show ?thesis by (auto simp: concat_cut)
qed

lemma klevel_length_le: "length (klevel B l es) \<le> length es"
proof -
  have "length (klevel B 0 es) \<le> length es"
  proof -
    have "length (cuts P xs) \<le> length xs" for P and xs :: "'a list"
      by (induction xs) (auto split: list.splits)
    then show ?thesis by (simp add: chunk_by_def)
  qed
  with klevel_length_antimono [of 0 l B es] show ?thesis by simp
qed

lemma klevel_pwf:
  assumes "entries_wf es"
  shows "(k, t) \<in> set (klevel B l es) \<Longrightarrow> pwf t \<and> length k < 2 ^ 64"
proof (induction l arbitrary: k t)
  case 0
  then obtain c where c: "t = PLeaf c" "k = fst (last c)" "c \<noteq> []" "set c \<subseteq> set es" "length c \<le> length es"
    using chunk_by_mem [of k t "B 0" PLeaf es] by auto
  then have "last c \<in> set es" by auto
  with c assms show ?case by (cases "last c") (fastforce simp: entries_wf_def)
next
  case (Suc l)
  then obtain c where c: "t = PNode c" "k = fst (last c)" "c \<noteq> []" "set c \<subseteq> set (klevel B l es)"
      "length c \<le> length (klevel B l es)"
    using chunk_by_mem [of k t "B (Suc l)" PNode "klevel B l es"] by auto
  have "length c < 2 ^ 64"
    using c(5) klevel_length_le [of B l es] assms by (simp add: entries_wf_def)
  moreover have "list_all (\<lambda>(k, t). length k < 2 ^ 64 \<and> pwf t) c"
    using c(4) Suc.IH by (auto simp: list_all_iff)
  moreover have "last c \<in> set (klevel B l es)" using c(3,4) by auto
  ultimately show ?case using c(1,2) Suc.IH [of "fst (last c)" "snd (last c)"] by simp
qed

lemma holds_levels:
  assumes "\<forall>j \<le> h. \<forall>(k, t) \<in> set (klevel B j es). m (addr (pbytes addr t)) = Some (pbytes addr t)"
  shows "(k, t) \<in> set (klevel B h es) \<Longrightarrow> holds addr m t"
  using assms
proof (induction h arbitrary: k t)
  case 0
  then obtain c where "t = PLeaf c" using chunk_by_mem [of k t "B 0" PLeaf es] by auto
  with 0 show ?case by fastforce
next
  case (Suc h)
  then obtain c where c: "t = PNode c" "set c \<subseteq> set (klevel B h es)"
    using chunk_by_mem [of k t "B (Suc h)" PNode "klevel B h es"] by auto
  have "\<forall>j \<le> h. \<forall>(k, t) \<in> set (klevel B j es). m (addr (pbytes addr t)) = Some (pbytes addr t)"
    using Suc.prems(2) le_SucI by blast
  from Suc.IH [OF _ this] have "list_all (\<lambda>(k, t). holds addr m t) c"
    using c(2) by (auto simp: list_all_iff)
  moreover have "m (addr (pbytes addr t)) = Some (pbytes addr t)" using Suc.prems by fastforce
  ultimately show ?case using c(1) by simp
qed

lemma holds_mono: "holds addr m t \<Longrightarrow> m \<subseteq>\<^sub>m m' \<Longrightarrow> holds addr m' t"
proof (induction t)
  case (PLeaf es)
  then show ?case by (auto dest: map_le_lookup)
next
  case (PNode cs)
  then show ?case by (auto simp: list_all_iff dest: map_le_lookup)
qed

context object_store
begin

lemma read_node_view:
  assumes "holds addr (contents s) t" and "pwf t" and "d_bytes d = addr (pbytes addr t)"
    and "\<And>b. length (addr b) = DIGEST_LEN"
  shows "read_node ops s d = Inr (node_view addr t)"
proof (cases t)
  case (PLeaf es)
  with assms decode_node_leaf [of es] show ?thesis
    by (simp add: read_node_def get_law node_view_def)
next
  case (PNode cs)
  have "decode_node (internal_bytes (map (\<lambda>(k, t). (k, addr (pbytes addr t))) cs))
      = Inr (InternalNode (map (\<lambda>(k, d). (k, from_blake3_bytes d)) (map (\<lambda>(k, t). (k, addr (pbytes addr t))) cs)))"
    using assms(2,4) by (intro decode_node_internal) (auto simp: PNode list_all_iff)
  with PNode assms show ?thesis
    by (simp add: read_node_def get_law node_view_def comp_def case_prod_unfold)
qed

lemma build_levels_klevel:
  assumes "is_top B es h t" and "h \<le> 254" and "l \<le> h" and "kd nodes = reps addr (klevel B l es)"
  shows "\<exists>out s'. build_levels ops hash s nodes (Suc l) = Inr (out, s') \<and> kd out = reps addr (klevel B h es)
    \<and> put_list ops s (concat (map (\<lambda>j. level_bytes addr B j es) [Suc l..<Suc h])) = Inr s'"
  using assms(3,4)
proof (induction "h - l" arbitrary: l nodes s)
  case 0
  then have "l = h" by simp
  moreover have "length nodes = 1"
    using assms(1) 0 \<open>l = h\<close> by (auto simp: is_top_def kd_def reps_def map_eq_Cons_conv)
  ultimately show ?case using 0 by (simp add: build_levels.simps)
next
  case (Suc n)
  then have lt: "l < h" by simp
  have len: "length nodes = length (klevel B l es)"
    using arg_cong [OF Suc.prems(2), of length] by (simp add: kd_def reps_def)
  then have "length nodes > 1" using assms(1) lt by (simp add: is_top_def)
  obtain out s1 where o: "chunk_internal ops hash s (Suc l) nodes = Inr (out, s1)"
      "kd out = reps addr (klevel B (Suc l) es)" "put_list ops s (level_bytes addr B (Suc l) es) = Inr s1"
    using chunk_internal_level [OF Suc.prems(2), of s "Suc l"] by (auto simp: level_bytes_def)
  have "n = h - Suc l" "Suc l \<le> h" using Suc.hyps(2) lt by simp_all
  from Suc.hyps(1) [OF this o(2), of s1]
  obtain out2 s2 where "build_levels ops hash s1 out (Suc (Suc l)) = Inr (out2, s2)" "kd out2 = reps addr (klevel B h es)"
      "put_list ops s1 (concat (map (\<lambda>j. level_bytes addr B j es) [Suc (Suc l)..<Suc h])) = Inr s2"
    by blast
  moreover have "[Suc l..<Suc h] = Suc l # [Suc (Suc l)..<Suc h]" using lt by (simp add: upt_conv_Cons del: upt_Suc)
  ultimately show ?case
    using \<open>length nodes > 1\<close> o lt assms(2)
    by (simp add: build_levels.simps [of ops hash s nodes] put_list_append del: upt_Suc)
qed

lemma build_klevel:
  assumes "es \<noteq> []" and "is_top B es h t" and "h \<le> 254"
  shows "\<exists>d s'. build ops hash s es = Inr (Some d, s') \<and> d_bytes d = addr (pbytes addr t)
    \<and> put_list ops s (concat (map (\<lambda>j. level_bytes addr B j es) [0..<Suc h])) = Inr s'"
proof -
  obtain out s1 where o: "chunk_leaves ops hash s es = Inr (out, s1)" "kd out = reps addr (klevel B 0 es)"
      "put_list ops s (level_bytes addr B 0 es) = Inr s1"
    using chunk_leaves_klevel [of s es] by (auto simp: level_bytes_def)
  obtain top s2 where p: "build_levels ops hash s1 out (Suc 0) = Inr (top, s2)" "kd top = reps addr (klevel B h es)"
      "put_list ops s1 (concat (map (\<lambda>j. level_bytes addr B j es) [Suc 0..<Suc h])) = Inr s2"
    using build_levels_klevel [OF assms(2,3) _ o(2), of s1] by blast
  obtain k where "klevel B h es = [(k, t)]" using assms(2) by (auto simp: is_top_def)
  with p(2) obtain d where "top = [(k, d)]" "d_bytes d = addr (pbytes addr t)"
    by (auto simp: kd_def reps_def)
  moreover have "[0..<Suc h] = 0 # [Suc 0..<Suc h]" by (simp add: upt_conv_Cons del: upt_Suc)
  ultimately show ?thesis using assms(1) o p by (simp add: build_def put_list_append del: upt_Suc)
qed

lemma holds_after:
  assumes "inj_on addr U" and "contents_in addr U (contents s)" and "covers addr B h es U"
    and "put_list ops s (concat (map (\<lambda>j. level_bytes addr B j es) [0..<Suc h])) = Inr s'"
    and "is_top B es h t"
  shows "holds addr (contents s') t \<and> contents s \<subseteq>\<^sub>m contents s' \<and> contents_in addr U (contents s')"
proof -
  define bs where "bs = concat (map (\<lambda>j. level_bytes addr B j es) [0..<Suc h])"
  have mem: "pbytes addr t \<in> set bs" if "j \<le> h" "(k, t) \<in> set (klevel B j es)" for j k t
    using that by (force simp: bs_def level_bytes_def less_Suc_eq_le simp del: upt_Suc)
  have sub: "set bs \<subseteq> U"
  proof
    fix b assume "b \<in> set bs"
    then obtain j x where "j \<le> h" "x \<in> set (klevel B j es)" "b = pbytes addr (snd x)"
      by (auto simp: bs_def level_bytes_def less_Suc_eq_le simp del: upt_Suc)
    with assms(3) show "b \<in> U" by (cases x) (force simp: covers_def)
  qed
  note w = put_list_within [OF assms(1,2) sub assms(4) [folded bs_def]]
  obtain k where k: "klevel B h es = [(k, t)]" using assms(5) by (auto simp: is_top_def)
  have "holds addr (contents s') t"
  proof (rule holds_levels [of h B es])
    show "\<forall>j \<le> h. \<forall>(k, t) \<in> set (klevel B j es). contents s' (addr (pbytes addr t)) = Some (pbytes addr t)"
      using w mem by auto
    show "(k, t) \<in> set (klevel B h es)" by (simp add: k)
  qed
  with w show ?thesis by simp
qed

end

end
