(* ===== verification/Loom_Prolly_Read.thy ===== *)
theory Loom_Prolly_Read
  imports Loom_Prolly_Refine
begin

text \<open>
  Reading a stored prolly tree: point lookup, full scan and prefix scan of a tree built over a sorted
  entry list return what the list says.
\<close>

section \<open>Searching sorted lists\<close>

lemma bsearch_map_of:
  assumes "bt_sorted es"
  shows "(case bsearch key es of Inr i \<Rightarrow> Some (snd (es ! i)) | Inl _ \<Rightarrow> None) = map_of es key"
  using assms
proof (induction es)
  case Nil
  show ?case by (simp add: bsearch_def)
next
  case (Cons e es)
  obtain a b where e: "e = (a, b)" by force
  have s: "bt_sorted es" and gt: "\<forall>k \<in> fst ` set es. a < k" using Cons.prems by (auto simp: e bt_sorted_Cons)
  show ?case
  proof (cases "a < key")
    case True
    then show ?thesis using Cons.IH [OF s] by (auto simp: e bsearch_def Let_def)
  next
    case False
    then have "a = key \<or> key \<notin> fst ` set es" using gt by fastforce
    moreover have "key \<notin> fst ` set es \<Longrightarrow> map_of es key = None" by (simp add: map_of_eq_None_iff)
    ultimately show ?thesis using False by (auto simp: e bsearch_def)
  qed
qed

section \<open>Lookup and full scan\<close>

lemma node_view_simps:
  "node_view addr (PLeaf es) = Leaf es"
  "node_view addr (PNode cs) = InternalNode (map (\<lambda>(k, t). (k, from_blake3_bytes (addr (pbytes addr t)))) cs)"
  by (simp_all add: node_view_def)

section \<open>Prefixes\<close>

lemma append_less_append [simp]: "xs @ ys < xs @ zs \<longleftrightarrow> ys < (zs :: bytes)"
  by (induction xs) simp_all

lemma starts_withD: "starts_with k p \<Longrightarrow> \<exists>r. k = p @ r"
  by (metis append_take_drop_id starts_with_def)

lemma starts_with_ge: "starts_with k p \<Longrightarrow> p \<le> k"
proof -
  assume "starts_with k p"
  then obtain r where "k = p @ r" using starts_withD by blast
  moreover have "p \<le> p @ r" by (induction p) simp_all
  ultimately show ?thesis by simp
qed

lemma byte_less_succ: "(b :: u8) < 0xFF \<Longrightarrow> b < b + 1"
  by (simp add: word_less_nat_alt unat_word_ariths)

lemma starts_with_upper: "upper_bound p = Some u \<Longrightarrow> starts_with k p \<Longrightarrow> k < u"
proof (induction p rule: upper_bound.induct)
  case (1 p)
  have ne: "p \<noteq> []" using 1(2) by (auto simp: upper_bound.simps [of p] split: if_splits)
  obtain r where "k = p @ r" using starts_withD [OF 1(3)] by blast
  then have k: "k = butlast p @ last p # r" using ne by (metis append.assoc append_Cons append_Nil append_butlast_last_id)
  show ?case
  proof (cases "last p < 0xFF")
    case True
    then have "u = butlast p @ [last p + 1]" using 1(2) ne by (simp add: upper_bound.simps [of p])
    then show ?thesis using byte_less_succ [OF True] by (simp add: k)
  next
    case False
    have "starts_with k (butlast p)" by (simp add: k starts_with_def)
    with 1 ne False show ?thesis by (simp add: upper_bound.simps [of p])
  qed
qed

context object_store
begin

lemma stored_children:
  assumes "klevel B (Suc l) es = [(k, t)]" and "holds addr (contents s) t" and "entries_wf es"
  shows "t = PNode (klevel B l es)" and "pwf t"
    and "(k', t') \<in> set (klevel B l es) \<Longrightarrow> holds addr (contents s) t' \<and> entries_wf (pents t')"
proof -
  show t: "t = PNode (klevel B l es)" using klevel_single(2) [OF assms(1)] by simp
  show "pwf t" using klevel_pwf [OF assms(3), of k t B "Suc l"] assms(1) by simp
  show "holds addr (contents s) t' \<and> entries_wf (pents t')" if m: "(k', t') \<in> set (klevel B l es)"
  proof
    show "holds addr (contents s) t'" using assms(2) m by (auto simp: t list_all_iff)
    from m obtain xs ys where "klevel B l es = xs @ (k', t') # ys" by (meson split_list)
    then have "es = kents xs @ pents t' @ kents ys" using kents_klevel [of B l es] by simp
    with assms(3) show "entries_wf (pents t')" by (auto simp: entries_wf_def)
  qed
qed

lemma get_loop_correct:
  assumes "\<And>b. length (addr b) = DIGEST_LEN"
  shows "bt_sorted es \<Longrightarrow> entries_wf es \<Longrightarrow> klevel B l es = [(k, t)] \<Longrightarrow> holds addr (contents s) t \<Longrightarrow>
    d_bytes d = addr (pbytes addr t) \<Longrightarrow> l < n \<Longrightarrow> get_loop ops s n d key = Inr (map_of es key)"
proof (induction l arbitrary: es k t d n)
  case 0
  then obtain n' where n: "n = Suc n'" by (cases n) auto
  have t: "t = PLeaf es" using klevel_single(1) [OF 0(3)] by simp
  have "read_node ops s d = Inr (Leaf es)"
    using read_node_view [of s t d, OF 0(4) _ 0(5) assms] 0(2) by (simp add: t node_view_simps)
  then show ?case using bsearch_map_of [OF 0(1)] by (simp add: n)
next
  case (Suc l)
  then obtain n' where n: "n = Suc n'" "l < n'" by (cases n) auto
  note st = stored_children [OF Suc.prems(3,4,2)]
  let ?cs = "klevel B l es"
  let ?f = "\<lambda>(k, t). (k, from_blake3_bytes (addr (pbytes addr t)))"
  have rd: "read_node ops s d = Inr (InternalNode (map ?f ?cs))"
    using read_node_view [of s t d, OF Suc.prems(4) st(2) Suc.prems(5) assms]
    unfolding st(1) node_view_simps .
  have pos: "position (\<lambda>c. key \<le> fst c) (map ?f ?cs) = position (\<lambda>c. key \<le> fst c) ?cs"
    by (simp add: position_map case_prod_unfold)
  show ?case
  proof (cases "position (\<lambda>c. key \<le> fst c) ?cs")
    case None
    have ne: "es \<noteq> []" using Suc.prems(3) by auto
    have "fst (last ?cs) < key" using position_None [OF None] ne by (simp add: not_le)
    then have "fst (last es) < key" using klevel_last [OF ne] by simp
    then have "map_of es key = None"
      using bt_sorted_last [OF Suc.prems(1)] by (fastforce simp: map_of_eq_None_iff)
    then show ?thesis using rd None by (simp add: n pos)
  next
    case (Some i)
    note p = position_Some [OF Some]
    obtain k' t' where kt: "?cs ! i = (k', t')" by force
    have sp: "?cs = take i ?cs @ (k', t') # drop (Suc i) ?cs" using p(4) kt by simp
    have m: "(k', t') \<in> set ?cs" using p(1) kt by (metis nth_mem)
    have lt: "\<forall>x \<in> set (take i ?cs). fst x < key" and ge: "key \<le> k'" using p kt by (auto simp: not_le)
    note f = klevel_key_le [OF Suc.prems(1) sp]
    have sorted: "bt_sorted (pents t')" by (rule klevel_child_sorted [OF Suc.prems(1) sp])
    let ?d = "from_blake3_bytes (addr (pbytes addr t'))"
    have "get_loop ops s n' ?d key = Inr (map_of (pents t') key)"
      by (rule Suc.IH [OF sorted _ f(5) _ _ n(2)])
        (use st(3) [OF m] in \<open>simp_all add: from_blake3_bytes_def digest_of_def\<close>)
    moreover have "map_of es key = map_of (pents t') key"
      by (rule klevel_child_lookup [OF Suc.prems(1) sp lt ge])
    ultimately show ?thesis using rd Some p(1) kt by (simp add: n pos)
  qed
qed

lemma collect_entries_correct:
  assumes "\<And>b. length (addr b) = DIGEST_LEN"
  shows "bt_sorted es \<Longrightarrow> entries_wf es \<Longrightarrow> klevel B l es = [(k, t)] \<Longrightarrow> holds addr (contents s) t \<Longrightarrow>
    d_bytes d = addr (pbytes addr t) \<Longrightarrow> l + depth \<le> PROLLY_MAX_DEPTH \<Longrightarrow>
    collect_entries ops s d depth out = Inr (out @ es)"
proof (induction l arbitrary: es k t d depth out)
  case 0
  have t: "t = PLeaf es" using klevel_single(1) [OF 0(3)] by simp
  have "read_node ops s d = Inr (Leaf es)"
    using read_node_view [of s t d, OF 0(4) _ 0(5) assms] 0(2) by (simp add: t node_view_simps)
  then show ?case using 0(6) by (simp add: collect_entries.simps)
next
  case (Suc l)
  note st = stored_children [OF Suc.prems(3,4,2)]
  let ?cs = "klevel B l es"
  let ?f = "\<lambda>(k, t). (k, from_blake3_bytes (addr (pbytes addr t)))"
  have rd: "read_node ops s d = Inr (InternalNode (map ?f ?cs))"
    using read_node_view [of s t d, OF Suc.prems(4) st(2) Suc.prems(5) assms]
    unfolding st(1) node_view_simps .
  have loop: "rfold (\<lambda>o' c. collect_entries ops s (snd c) (depth + 1) o') out (map ?f ys) = Inr (out @ kents ys)"
    if "?cs = xs @ ys" for xs ys out
    using that
  proof (induction ys arbitrary: xs out)
    case (Cons y ys)
    obtain k' t' where y: "y = (k', t')" by force
    have sp: "?cs = xs @ (k', t') # ys" using Cons.prems y by simp
    note f = klevel_key_le [OF Suc.prems(1) sp]
    have sorted: "bt_sorted (pents t')" by (rule klevel_child_sorted [OF Suc.prems(1) sp])
    have m: "(k', t') \<in> set ?cs" using sp by simp
    have "collect_entries ops s (from_blake3_bytes (addr (pbytes addr t'))) (depth + 1) out = Inr (out @ pents t')"
      by (rule Suc.IH [OF sorted _ f(5)])
        (use st(3) [OF m] Suc.prems(6) in \<open>simp_all add: from_blake3_bytes_def digest_of_def\<close>)
    moreover have "?cs = (xs @ [y]) @ ys" using Cons.prems by simp
    ultimately show ?case using Cons.IH [of "xs @ [y]"] by (simp add: y)
  qed simp
  have "\<not> PROLLY_MAX_DEPTH < depth" using Suc.prems(6) by simp
  with rd loop [of "[]" ?cs out] show ?case by (simp add: collect_entries.simps [of ops s d] kents_klevel)
qed

lemma collect_prefix_correct:
  assumes "\<And>b. length (addr b) = DIGEST_LEN"
  shows "bt_sorted es \<Longrightarrow> entries_wf es \<Longrightarrow> klevel B l es = [(k, t)] \<Longrightarrow> holds addr (contents s) t \<Longrightarrow>
    d_bytes d = addr (pbytes addr t) \<Longrightarrow> l + depth \<le> PROLLY_MAX_DEPTH \<Longrightarrow>
    collect_prefix ops s d p (upper_bound p) depth out = Inr (out @ filter (\<lambda>e. starts_with (fst e) p) es)"
proof (induction l arbitrary: es k t d depth out)
  case 0
  have t: "t = PLeaf es" using klevel_single(1) [OF 0(3)] by simp
  have "read_node ops s d = Inr (Leaf es)"
    using read_node_view [of s t d, OF 0(4) _ 0(5) assms] 0(2) by (simp add: t node_view_simps)
  then show ?case using 0(6) by (simp add: collect_prefix.simps)
next
  case (Suc l)
  note st = stored_children [OF Suc.prems(3,4,2)]
  let ?cs = "klevel B l es" and ?sw = "\<lambda>e. starts_with (fst e) p"
  let ?f = "\<lambda>(k, t). (k, from_blake3_bytes (addr (pbytes addr t)))"
  have rd: "read_node ops s d = Inr (InternalNode (map ?f ?cs))"
    using read_node_view [of s t d, OF Suc.prems(4) st(2) Suc.prems(5) assms]
    unfolding st(1) node_view_simps .
  have loop: "prefix_children ops s (map ?f ys) p (upper_bound p) (depth + 1) out = Inr (out @ filter ?sw (kents ys))"
    if "?cs = xs @ ys" for xs ys out
    using that
  proof (induction ys arbitrary: xs out)
    case (Cons y ys)
    obtain k' t' where y: "y = (k', t')" by force
    have sp: "?cs = xs @ (k', t') # ys" using Cons.prems y by simp
    note f = klevel_key_le [OF Suc.prems(1) sp]
    have m: "(k', t') \<in> set ?cs" using sp by simp
    have rest: "prefix_children ops s (map ?f ys) p (upper_bound p) (depth + 1) o' = Inr (o' @ filter ?sw (kents ys))" for o'
      using Cons.IH [of "xs @ [y]" o'] Cons.prems by simp
    show ?case
    proof (cases "k' < p")
      case True
      have "\<not> ?sw e" if "e \<in> set (pents t')" for e
      proof -
        have "fst e \<le> k'" using that f(3) by auto
        then have "fst e < p" using True by (rule order.strict_trans1)
        then show ?thesis using starts_with_ge [of "fst e" p] by (auto simp: not_le)
      qed
      then have "filter ?sw (pents t') = []" by (simp add: filter_empty_conv)
      with True rest show ?thesis by (simp add: y)
    next
      case False
      have child: "collect_prefix ops s (from_blake3_bytes (addr (pbytes addr t'))) p (upper_bound p) (depth + 1) out
          = Inr (out @ filter ?sw (pents t'))"
        by (rule Suc.IH [OF klevel_child_sorted [OF Suc.prems(1) sp] _ f(5)])
          (use st(3) [OF m] Suc.prems(6) in \<open>simp_all add: from_blake3_bytes_def digest_of_def\<close>)
      show ?thesis
      proof (cases "\<exists>u. upper_bound p = Some u \<and> u \<le> k'")
        case True
        then obtain u where u: "upper_bound p = Some u" "u \<le> k'" by blast
        have "\<not> ?sw e" if "e \<in> set (kents ys)" for e
        proof -
          have "u < fst e" using that klevel_after [OF Suc.prems(1) sp u(2)] by auto
          then show ?thesis using starts_with_upper [OF u(1), of "fst e"] by (auto dest: order.strict_trans)
        qed
        then have "filter ?sw (kents ys) = []" by (simp add: filter_empty_conv)
        with False child u show ?thesis by (simp add: y)
      next
        case False
        with \<open>\<not> k' < p\<close> child rest show ?thesis by (cases "upper_bound p") (auto simp: y)
      qed
    qed
  qed simp
  have "\<not> PROLLY_MAX_DEPTH < depth" using Suc.prems(6) by simp
  with rd loop [of "[]" ?cs out] show ?case by (simp add: collect_prefix.simps [of ops s d] kents_klevel)
qed

end

end
