(* ===== verification/Loom_Prolly_Write.thy ===== *)
theory Loom_Prolly_Write
  imports Loom_Prolly_Read
begin

text \<open>
  Incremental change of a stored prolly tree. The local path of insert and remove re-chunks one leaf and
  the spine above it; the lemmas here show that the nodes it produces at every level are the nodes of the
  tree over the changed entry list, so that the final root is the root \<open>build\<close> gives.
\<close>

section \<open>Changing a sorted entry list\<close>

fun change_of :: "Change \<Rightarrow> bytes option" where
  "change_of (SetTo v) = Some v"
| "change_of RemoveKey = None"

lemma bsearch_Cons:
  "bsearch key (e # es) = (if fst e < key then map_sum Suc Suc (bsearch key es)
     else if fst e = key then Inr 0 else Inl 0)"
  by (simp add: bsearch_def Let_def)

lemma apply_change_upd:
  assumes "bt_sorted es"
  shows "apply_change key c es = upd key (change_of c) es"
  using assms
proof (induction es)
  case Nil
  show ?case by (cases c) (simp_all add: apply_change_def bsearch_def upd_def bt_remove_def)
next
  case (Cons e es)
  obtain a b where e: "e = (a, b)" by force
  have s: "bt_sorted es" and gt: "\<forall>k \<in> fst ` set es. a < k" using Cons.prems by (auto simp: e bt_sorted_Cons)
  show ?case
  proof (cases "a < key")
    case True
    have "apply_change key c (e # es) = e # apply_change key c es"
      using True by (auto simp: e apply_change_def bsearch_Cons split: sum.splits Change.splits)
    then show ?thesis using True Cons.IH [OF s] by (cases c) (auto simp: e upd_def bt_remove_def)
  next
    case False
    have "a = key \<Longrightarrow> bt_remove key es = es" using gt by (intro bt_remove_notin) auto
    moreover have "a \<noteq> key \<Longrightarrow> bt_remove key es = es" using gt False by (intro bt_remove_notin) fastforce
    ultimately show ?thesis using False
      by (cases c) (auto simp: e apply_change_def bsearch_Cons upd_def bt_remove_def)
  qed
qed

lemma klevel_sub_upd:
  assumes "bt_sorted es" and "klevel B l es = xs @ (k, t) # ys"
    and "\<forall>x \<in> set xs. fst x < key" and "key \<le> k \<or> ys = []"
    and "upd key c (pents t) = [] \<or> ys = [] \<or> closed_key B l (fst (last (upd key c (pents t))))" and "j \<le> l"
  shows "set (klevel B j (upd key c (pents t))) \<subseteq> set (klevel B j (upd key c es))"
proof -
  note f = klevel_key_le [OF assms(1,2)]
  have ys: "ys = [] \<longleftrightarrow> kents ys = []" using f(8) klevel_eq_Nil by metis
  have "upd key c (kents xs @ pents t @ kents ys) = kents xs @ upd key c (pents t) @ kents ys"
    by (rule upd_middle) (use assms(1,4) f(1,2) ys klevel_before [OF assms(1-3)] f(4) in auto)
  then have "upd key c es = kents xs @ upd key c (pents t) @ kents ys" using f(4) by simp
  moreover have "kents xs = [] \<or> closed_key B j (fst (last (kents xs)))"
    using f(7,9) closed_key_mono assms(6) by (cases "xs = []") auto
  moreover have "upd key c (pents t) = [] \<or> kents ys = [] \<or> closed_key B j (fst (last (upd key c (pents t))))"
    using assms(5,6) ys closed_key_mono by blast
  ultimately show ?thesis by (auto simp: klevel_append)
qed

lemma closed_key_zero [simp]: "closed_key B 0 k \<longleftrightarrow> B 0 k"
  by (simp add: closed_key_def)

section \<open>The local path\<close>

definition mutate_ok :: "(bytes \<Rightarrow> bytes) \<Rightarrow> (nat \<Rightarrow> bytes \<Rightarrow> bool) \<Rightarrow> bytes set \<Rightarrow> (bytes \<Rightarrow> bytes option)
    \<Rightarrow> (bytes \<Rightarrow> bytes option) \<Rightarrow> nat \<Rightarrow> entry list \<Rightarrow> bool \<Rightarrow> bool \<Rightarrow> child list option \<Rightarrow> bool" where
  "mutate_ok addr B U m m' l es' removing rm r = (case r of
      None \<Rightarrow> m' = m \<and> removing
    | Some nodes \<Rightarrow> kd nodes = reps addr (klevel B l es')
        \<and> (rm \<or> es' = [] \<or> closed_key B l (fst (last es')))
        \<and> (covers addr B l es' U \<longrightarrow>
             m \<subseteq>\<^sub>m m' \<and> contents_in addr U m' \<and> (\<forall>(k, t) \<in> set (klevel B l es'). holds addr m' t)))"

context object_store
begin

lemma height_loop_correct:
  assumes "\<And>b. length (addr b) = DIGEST_LEN"
  shows "bt_sorted es \<Longrightarrow> entries_wf es \<Longrightarrow> klevel B l es = [(k, t)] \<Longrightarrow> holds addr (contents s) t \<Longrightarrow>
    d_bytes d = addr (pbytes addr t) \<Longrightarrow> l < n \<Longrightarrow> height_loop ops s n h d = Inr (h + l)"
proof (induction l arbitrary: es k t d n h)
  case 0
  then obtain n' where n: "n = Suc n'" by (cases n) auto
  have t: "t = PLeaf es" using klevel_single(1) [OF 0(3)] by simp
  have "read_node ops s d = Inr (Leaf es)"
    using read_node_view [of s t d, OF 0(4) _ 0(5) assms] 0(2) by (simp add: t node_view_simps)
  then show ?case by (simp add: n)
next
  case (Suc l)
  then obtain n' where n: "n = Suc n'" "l < n'" by (cases n) auto
  note st = stored_children [OF Suc.prems(3,4,2)]
  let ?f = "\<lambda>(k, t). (k, from_blake3_bytes (addr (pbytes addr t)))"
  have rd: "read_node ops s d = Inr (InternalNode (map ?f (klevel B l es)))"
    using read_node_view [of s t d, OF Suc.prems(4) st(2) Suc.prems(5) assms]
    unfolding st(1) node_view_simps .
  have "es \<noteq> []" using Suc.prems(3) by auto
  then obtain k' t' ys where c: "klevel B l es = [] @ (k', t') # ys"
    by (cases "klevel B l es") auto
  note f = klevel_key_le [OF Suc.prems(1) c]
  have "height_loop ops s n' (h + 1) (from_blake3_bytes (addr (pbytes addr t'))) = Inr (h + 1 + l)"
    by (rule Suc.IH [OF klevel_child_sorted [OF Suc.prems(1) c] _ f(5) _ _ n(2)])
      (use st(3) [of k' t'] c in \<open>simp_all add: from_blake3_bytes_def digest_of_def\<close>)
  then show ?case using rd c by (simp add: n)
qed

lemma put_level:
  assumes "inj_on addr U" and "contents_in addr U (contents s)"
    and "\<forall>(k, t) \<in> set cs. pbytes addr t \<in> U" and "put_list ops s (map (\<lambda>(k, t). pbytes addr t) cs) = Inr s'"
  shows "contents s \<subseteq>\<^sub>m contents s'" and "contents_in addr U (contents s')"
    and "\<forall>(k, t) \<in> set cs. contents s' (addr (pbytes addr t)) = Some (pbytes addr t)"
proof -
  have "set (map (\<lambda>(k, t). pbytes addr t) cs) \<subseteq> U" using assms(3) by auto
  note w = put_list_within [OF assms(1,2) this assms(4)]
  then show "contents s \<subseteq>\<^sub>m contents s'" and "contents_in addr U (contents s')" by simp_all
  show "\<forall>(k, t) \<in> set cs. contents s' (addr (pbytes addr t)) = Some (pbytes addr t)" using w by fastforce
qed

lemma mutate_leaf:
  assumes "inj_on addr U" and "contents_in addr U (contents s)"
    and "bt_sorted es" and "klevel B 0 es = [(k, t)]" and "read_node ops s d = Inr (Leaf es)"
    and "\<not> rm \<longrightarrow> key \<le> k \<and> closed_key B 0 k"
  shows "\<exists>r s'. mutate ops hash s d l key ch rm = Inr (r, s')
    \<and> mutate_ok addr B U (contents s) (contents s') 0 (upd key (change_of ch) es) (change_of ch = None) rm r"
proof -
  let ?es = "upd key (change_of ch) es"
  have k: "k = fst (last es)" "es \<noteq> []" using klevel_single(1) [OF assms(4)] assms(4) by auto
  have B0: "is_boundary hash x 0 = B 0 x" for x by (simp add: boundary_of_def)
  show ?thesis
  proof (cases "?es \<noteq> [] \<and> \<not> B 0 (fst (last ?es)) \<and> \<not> rm")
    case True
    have "change_of ch = None"
    proof (rule ccontr)
      assume "change_of ch \<noteq> None"
      then have "fst (last ?es) = fst (last es)"
        using assms(6) True k(1) by (intro conjunct2 [OF upd_last_key [OF assms(3) k(2)]]) auto
      with True assms(6) k(1) show False by simp
    qed
    moreover have "mutate ops hash s d l key ch rm = Inr (None, s)"
      using True assms(5) by (simp add: mutate.simps apply_change_upd [OF assms(3)] B0)
    ultimately show ?thesis using True by (auto simp: mutate_ok_def)
  next
    case False
    obtain out s' where o: "chunk_leaves ops hash s ?es = Inr (out, s')" "kd out = reps addr (klevel B 0 ?es)"
        "put_list ops s (map (\<lambda>(k, t). pbytes addr t) (klevel B 0 ?es)) = Inr s'"
      using chunk_leaves_klevel by blast
    have "mutate ops hash s d l key ch rm = Inr (Some out, s')"
      using False assms(5) o(1) by (auto simp: mutate.simps apply_change_upd [OF assms(3)] B0)
    moreover have "rm \<or> ?es = [] \<or> closed_key B 0 (fst (last ?es))" using False by auto
    moreover have "contents s \<subseteq>\<^sub>m contents s' \<and> contents_in addr U (contents s') \<and> (\<forall>(k, t) \<in> set (klevel B 0 ?es). holds addr (contents s') t)"
      if "covers addr B 0 ?es U"
    proof -
      from that have U: "\<forall>(k, t) \<in> set (klevel B 0 ?es). pbytes addr t \<in> U" by (simp add: covers_def)
      note w = put_level [OF assms(1,2) U o(3)]
      have "holds addr (contents s') t" if "(k, t) \<in> set (klevel B 0 ?es)" for k t
        by (rule holds_levels [OF _ that]) (use w(3) in simp)
      with w(1,2) show ?thesis by blast
    qed
    ultimately show ?thesis using o(2) by (auto simp: mutate_ok_def)
  qed
qed

lemma mutate_spine_holds:
  assumes "inj_on addr U" and "contents_in addr U (contents s1)" and "covers addr B (Suc l) es' U"
    and "put_list ops s1 (map (\<lambda>(k, t). pbytes addr t) (klevel B (Suc l) es')) = Inr s2"
    and "\<forall>(k, t) \<in> set (klevel B l es'). holds addr (contents s1) t"
  shows "contents s1 \<subseteq>\<^sub>m contents s2" and "contents_in addr U (contents s2)"
    and "\<forall>(k, t) \<in> set (klevel B (Suc l) es'). holds addr (contents s2) t"
proof -
  have U: "\<forall>(k, t) \<in> set (klevel B (Suc l) es'). pbytes addr t \<in> U"
    using assms(3) unfolding covers_def by blast
  note w = put_level [OF assms(1,2) U assms(4)]
  show "contents s1 \<subseteq>\<^sub>m contents s2" "contents_in addr U (contents s2)" by (fact w(1,2))+
  have "holds addr (contents s2) t" if m: "(k, t) \<in> set (klevel B (Suc l) es')" for k t
  proof -
    from m obtain c where c: "t = PNode c" "set c \<subseteq> set (klevel B l es')"
      using chunk_by_mem [of k t "B (Suc l)" PNode "klevel B l es'"] by auto
    have "list_all (\<lambda>(k, t). holds addr (contents s2) t) c"
      using c(2) assms(5) holds_mono [OF _ w(1)] by (fastforce simp: list_all_iff)
    moreover have "contents s2 (addr (pbytes addr t)) = Some (pbytes addr t)" using w(3) m by fastforce
    ultimately show ?thesis using c(1) by simp
  qed
  then show "\<forall>(k, t) \<in> set (klevel B (Suc l) es'). holds addr (contents s2) t" by blast
qed

lemma mutate_internal:
  assumes "read_node ops s d = Inr (InternalNode children)" and "children \<noteq> []"
    and "(case position (\<lambda>c. key \<le> fst c) children of Some i \<Rightarrow> i | None \<Rightarrow> length children - 1) = i"
    and "mutate ops hash s (snd (children ! i)) l key ch (rm \<and> i = length children - 1) = Inr (r, s1)"
  shows "mutate ops hash s d (Suc l) key ch rm = (case r of None \<Rightarrow> Inr (None, s1)
      | Some nodes \<Rightarrow> let next = take i children @ nodes @ drop (i + 1) children in
          if next = [] then Inr (Some [], s1)
          else rbind (chunk_internal ops hash s1 (Suc l) next) (\<lambda>(out, s2). Inr (Some out, s2)))"
  using assms(1,2) by (subst mutate.simps) (simp add: assms(3,4) [simplified] Let_def del: append_is_Nil_conv)

lemma mutate_correct:
  assumes addr32: "\<And>b. length (addr b) = DIGEST_LEN" and inj: "inj_on addr U"
    and nogap: "change_of ch = None \<longrightarrow> \<not> (B 0 key \<and> B 1 key)"
  shows "bt_sorted es \<Longrightarrow> entries_wf es \<Longrightarrow> klevel B l es = [(k, t)] \<Longrightarrow> holds addr (contents s) t \<Longrightarrow>
    contents_in addr U (contents s) \<Longrightarrow> d_bytes d = addr (pbytes addr t) \<Longrightarrow>
    \<not> rm \<longrightarrow> key \<le> k \<and> closed_key B l k \<Longrightarrow>
    \<exists>r s'. mutate ops hash s d l key ch rm = Inr (r, s')
      \<and> mutate_ok addr B U (contents s) (contents s') l (upd key (change_of ch) es) (change_of ch = None) rm r"
proof (induction l arbitrary: es k t d rm)
  case 0
  have t: "t = PLeaf es" using klevel_single(1) [OF 0(3)] by simp
  have "read_node ops s d = Inr (Leaf es)"
    using read_node_view [of s t d, OF 0(4) _ 0(6) addr32] 0(2) by (simp add: t node_view_simps)
  from mutate_leaf [OF inj 0(5,1,3) this 0(7)] show ?case .
next
  case (Suc l)
  let ?c = "change_of ch" and ?cs = "klevel B l es"
  let ?f = "\<lambda>(k, t). (k, from_blake3_bytes (addr (pbytes addr t)))"
  let ?es = "upd key ?c es"
  note st = stored_children [OF Suc.prems(3,4,2)]
  have rd: "read_node ops s d = Inr (InternalNode (map ?f ?cs))"
    using read_node_view [of s t d, OF Suc.prems(4) st(2) Suc.prems(6) addr32]
    unfolding st(1) node_view_simps .
  have ne: "es \<noteq> []" "?cs \<noteq> []" using Suc.prems(3) by auto
  have k: "k = fst (last es)" "fst (last ?cs) = k"
    using klevel_single(2) [OF Suc.prems(3)] klevel_last [OF ne(1), of B l] by auto
  define i where "i = (case position (\<lambda>c. key \<le> fst c) ?cs of Some i \<Rightarrow> i | None \<Rightarrow> length ?cs - 1)"
  have i: "i < length ?cs" "\<forall>x \<in> set (take i ?cs). fst x < key" "key \<le> fst (?cs ! i) \<or> i = length ?cs - 1"
  proof -
    have "i < length ?cs \<and> (\<forall>x \<in> set (take i ?cs). fst x < key) \<and> (key \<le> fst (?cs ! i) \<or> i = length ?cs - 1)"
    proof (cases "position (\<lambda>c. key \<le> fst c) ?cs")
      case None
      then show ?thesis using position_None [OF None] ne(2) by (auto simp: i_def not_le dest: in_set_takeD)
    next
      case (Some j)
      then show ?thesis using position_Some [OF Some] by (auto simp: i_def not_le)
    qed
    then show "i < length ?cs" "\<forall>x \<in> set (take i ?cs). fst x < key" "key \<le> fst (?cs ! i) \<or> i = length ?cs - 1"
      by simp_all
  qed
  obtain k' t' where kt: "?cs ! i = (k', t')" by force
  let ?xs = "take i ?cs" and ?ys = "drop (Suc i) ?cs"
  have sp: "?cs = ?xs @ (k', t') # ?ys" using id_take_nth_drop [OF i(1)] unfolding kt .
  have ys: "?ys = [] \<longleftrightarrow> i = length ?cs - 1" using i(1) by auto
  note f = klevel_key_le [OF Suc.prems(1) sp]
  have m: "(k', t') \<in> set ?cs" using i(1) kt by (metis nth_mem)
  let ?crm = "rm \<and> i = length ?cs - 1"
  have last_k: "?ys = [] \<Longrightarrow> k' = k" using k(2) kt ys ne(2) by (simp add: last_conv_nth)
  have low: "\<not> ?crm \<longrightarrow> key \<le> k' \<and> closed_key B l k'"
  proof
    assume n: "\<not> ?crm"
    show "key \<le> k' \<and> closed_key B l k'"
    proof (cases "?ys = []")
      case True
      with n ys have "\<not> rm" by simp
      with Suc.prems(7) last_k [OF True] show ?thesis by (auto intro: closed_key_mono)
    next
      case False
      with i(3) kt ys f(6) show ?thesis by auto
    qed
  qed
  obtain r s1 where sub: "mutate ops hash s (from_blake3_bytes (addr (pbytes addr t'))) l key ch ?crm = Inr (r, s1)"
      "mutate_ok addr B U (contents s) (contents s1) l (upd key ?c (pents t')) (?c = None) ?crm r"
  proof -
    have "d_bytes (from_blake3_bytes (addr (pbytes addr t'))) = addr (pbytes addr t')"
      by (simp add: from_blake3_bytes_def digest_of_def)
    from Suc.IH [OF klevel_child_sorted [OF Suc.prems(1) sp] _ f(5) _ Suc.prems(5) this low] st(3) [OF m] that
    show thesis by blast
  qed
  have step: "mutate ops hash s d (Suc l) key ch rm = (case r of None \<Rightarrow> Inr (None, s1)
      | Some nodes \<Rightarrow> let next = take i (map ?f ?cs) @ nodes @ drop (i + 1) (map ?f ?cs) in
          if next = [] then Inr (Some [], s1)
          else rbind (chunk_internal ops hash s1 (Suc l) next) (\<lambda>(out, s2). Inr (Some out, s2)))"
  proof (rule mutate_internal [OF rd])
    have "position (\<lambda>c. key \<le> fst c) (map ?f ?cs) = position (\<lambda>c. key \<le> fst c) ?cs"
      by (simp add: position_map case_prod_unfold)
    then show "(case position (\<lambda>c. key \<le> fst c) (map ?f ?cs) of Some i \<Rightarrow> i | None \<Rightarrow> length (map ?f ?cs) - 1) = i"
      by (simp only: i_def length_map)
    show "mutate ops hash s (snd (map ?f ?cs ! i)) l key ch (rm \<and> i = length (map ?f ?cs) - 1) = Inr (r, s1)"
      using sub(1) i(1) kt by simp
  qed (use ne(2) in simp)
  show ?case
  proof (cases r)
    case None
    with step sub(2) i(1) ys show ?thesis by (auto simp: mutate_ok_def)
  next
    case (Some nodes)
    from sub(2) have kd_nodes: "kd nodes = reps addr (klevel B l (upd key ?c (pents t')))"
      and cl: "?crm \<or> upd key ?c (pents t') = [] \<or> closed_key B l (fst (last (upd key ?c (pents t'))))"
      and mono: "covers addr B l (upd key ?c (pents t')) U \<Longrightarrow> contents s \<subseteq>\<^sub>m contents s1
        \<and> contents_in addr U (contents s1) \<and> (\<forall>(k, t) \<in> set (klevel B l (upd key ?c (pents t'))). holds addr (contents s1) t)"
      unfolding Some mutate_ok_def by simp_all
    have side: "upd key ?c (pents t') = [] \<or> ?ys = [] \<or> closed_key B l (fst (last (upd key ?c (pents t'))))"
      using cl ys by auto
    have i3: "key \<le> k' \<or> ?ys = []" using i(3) kt ys by auto
    note lr = local_rechunk [OF Suc.prems(1) sp i(2) i3 side]
    let ?next = "take i (map ?f ?cs) @ nodes @ drop (i + 1) (map ?f ?cs)"
    have kf: "kd (map ?f zs) = reps addr zs" for zs
      by (simp add: kd_def reps_def from_blake3_bytes_def digest_of_def case_prod_unfold)
    have knext: "kd ?next = reps addr (klevel B l ?es)"
      unfolding lr using kd_nodes kf [of ?xs] kf [of ?ys] by (simp add: take_map drop_map reps_def)
    obtain out s2 where o: "chunk_internal ops hash s1 (Suc l) ?next = Inr (out, s2)"
        "kd out = reps addr (klevel B (Suc l) ?es)"
        "put_list ops s1 (map (\<lambda>(k, t). pbytes addr t) (klevel B (Suc l) ?es)) = Inr s2"
      using chunk_internal_level [OF knext, of s1 "Suc l"] by auto
    have es_ne: "?next = [] \<longleftrightarrow> ?es = []"
    proof -
      have "length ?next = length (klevel B l ?es)"
        using arg_cong [OF knext, of length] by (simp only: kd_def reps_def length_map)
      then have "?next = [] \<longleftrightarrow> klevel B l ?es = []" unfolding length_0_conv [symmetric] by (rule arg_cong)
      then show ?thesis unfolding klevel_eq_Nil .
    qed
    have closed: "rm \<or> ?es = [] \<or> closed_key B (Suc l) (fst (last ?es))"
    proof (cases rm)
      case False
      with Suc.prems(7) have c: "key \<le> k" "closed_key B (Suc l) k" by auto
      then have "B 0 k" "B 1 k" by (auto simp: closed_key_def)
      with nogap have "?c = None \<longrightarrow> key \<noteq> fst (last es)" using k(1) by auto
      from upd_last_key [OF Suc.prems(1) ne(1) _ this] c k(1) show ?thesis by simp
    qed simp
    have post: "contents s \<subseteq>\<^sub>m contents s2 \<and> contents_in addr U (contents s2)
        \<and> (\<forall>(k, t) \<in> set (klevel B (Suc l) ?es). holds addr (contents s2) t)"
      if cov: "covers addr B (Suc l) ?es U"
    proof -
      have "covers addr B l (upd key ?c (pents t')) U"
        using cov klevel_sub_upd [OF Suc.prems(1) sp i(2) i3 side] unfolding covers_def by (meson le_SucI subsetD)
      note m1 = mono [OF this]
      have "holds addr (contents s1) t''" if "(k'', t'') \<in> set (klevel B l ?es)" for k'' t''
      proof -
        from that consider "(k'', t'') \<in> set (klevel B l (upd key ?c (pents t')))" | "(k'', t'') \<in> set ?cs"
          unfolding lr by (auto dest: in_set_takeD in_set_dropD)
        then show ?thesis
        proof cases
          case 1
          then show ?thesis using m1 by blast
        next
          case 2
          then show ?thesis using st(3) [OF 2] m1 holds_mono by blast
        qed
      qed
      then have h: "\<forall>(k, t) \<in> set (klevel B l ?es). holds addr (contents s1) t" by blast
      note w = mutate_spine_holds [OF inj _ cov o(3) h]
      show ?thesis using w m1 map_le_trans by blast
    qed
    show ?thesis
    proof (cases "?es = []")
      case True
      then have "mutate ops hash s d (Suc l) key ch rm = Inr (Some [], s1)"
        using step Some es_ne by (simp add: Let_def)
      moreover have "contents s \<subseteq>\<^sub>m contents s1 \<and> contents_in addr U (contents s1)"
      proof -
        have "s2 = s1" using o(3) True by simp
        moreover have "covers addr B (Suc l) ?es U" using True by (simp add: covers_def)
        ultimately show ?thesis using post by blast
      qed
      ultimately show ?thesis using True by (simp add: mutate_ok_def reps_def)
    next
      case False
      then have "mutate ops hash s d (Suc l) key ch rm = Inr (Some out, s2)"
        unfolding step Some option.case Let_def es_ne o(1) by simp
      then show ?thesis using o(2) closed post unfolding mutate_ok_def by auto
    qed
  qed
qed

end

end
