(* ===== verification/Loom_Prolly_Tree.thy ===== *)
theory Loom_Prolly_Tree
  imports Loom_Prolly_Write
begin

text \<open>
  The contract of the prolly tree: \<open>tree_root\<close> says that a digest is the root of the tree over a sorted
  entry list in a store. Build establishes it, every read is the corresponding read of the entry list, and
  insert and remove lead from the tree of one list to the tree of the changed list. Because the root is a
  function of the entry list alone, it does not depend on the history of the tree.
\<close>

definition tree_root :: "(bytes \<Rightarrow> bytes) \<Rightarrow> (nat \<Rightarrow> bytes \<Rightarrow> bool) \<Rightarrow> (bytes \<Rightarrow> bytes option)
    \<Rightarrow> entry list \<Rightarrow> nat \<Rightarrow> Digest \<Rightarrow> bool" where
  "tree_root addr B m es h d \<longleftrightarrow> bt_sorted es \<and> entries_wf es
     \<and> (\<exists>t. is_top B es h t \<and> holds addr m t \<and> d_bytes d = addr (pbytes addr t))"

lemma is_top_single: "is_top B es h t \<Longrightarrow> \<exists>k. klevel B h es = [(k, t)]"
  by (auto simp: is_top_def)

lemma is_top_nonempty: "is_top B es h t \<Longrightarrow> es \<noteq> []"
  by (auto simp: is_top_def)

lemma above_top_single:
  assumes "is_top B es h t" and "h \<le> l"
  shows "\<exists>k t'. klevel B l es = [(k, t')]"
proof -
  have "length (klevel B l es) \<le> 1"
    using klevel_length_antimono [OF assms(2), of B es] assms(1) by (auto simp: is_top_def)
  moreover have "klevel B l es \<noteq> []" using is_top_nonempty [OF assms(1)] by simp
  ultimately have "length (klevel B l es) = 1" by (cases "klevel B l es") auto
  then show ?thesis by (auto simp: length_Suc_conv)
qed

lemma covers_mono: "covers addr B h es U \<Longrightarrow> j \<le> h \<Longrightarrow> covers addr B j es U"
  unfolding covers_def by (meson le_trans)

lemma finish_levels_build:
  "build_levels ops hash s nodes lv = Inr r \<Longrightarrow> lv = Suc l \<Longrightarrow> finish_levels ops hash s nodes l = Inr r"
proof (induction ops hash s nodes lv arbitrary: l rule: build_levels.induct)
  case (1 ops hash s nodes lv)
  show ?case
  proof (cases "length nodes > 1")
    case True
    with 1(2) obtain ps s' where c: "chunk_internal ops hash s lv nodes = Inr (ps, s')" "lv < 255"
        "build_levels ops hash s' ps (lv + 1) = Inr r"
      by (subst (asm) build_levels.simps) (auto simp: result_simps split: if_splits)
    have "finish_levels ops hash s' ps (Suc l) = Inr r"
      using 1(1) [OF True c(1) refl c(2,3), of "Suc l"] 1(3) by simp
    then show ?thesis using True c(1,2) 1(3) by (subst finish_levels.simps) simp
  next
    case False
    with 1(2) show ?thesis by (simp add: build_levels.simps [of ops hash s nodes lv] finish_levels.simps [of ops hash s nodes l])
  qed
qed

context object_store
begin

lemma collapse_loop_correct:
  assumes addr32: "\<And>b. length (addr b) = DIGEST_LEN" and top: "is_top B es h t" and wf: "entries_wf es"
  shows "klevel B l es = [(k, u)] \<Longrightarrow> h \<le> l \<Longrightarrow> holds addr (contents s) u \<Longrightarrow> d_bytes d = addr (pbytes addr u) \<Longrightarrow>
    l - h < n \<Longrightarrow> \<exists>d'. collapse_loop ops s n d = Inr d' \<and> d_bytes d' = addr (pbytes addr t) \<and> holds addr (contents s) t"
proof (induction l arbitrary: k u d n)
  case 0
  then obtain n' where n: "n = Suc n'" by (cases n) auto
  have u: "u = PLeaf es" using klevel_single(1) [OF 0(1)] by simp
  have "h = 0" using 0(2) by simp
  then have "u = t" using top 0(1) by (auto simp: is_top_def)
  moreover have "read_node ops s d = Inr (Leaf es)"
    using read_node_view [of s u d, OF 0(3) _ 0(4) addr32] wf by (simp add: u node_view_simps)
  ultimately show ?case using 0 by (simp add: n)
next
  case (Suc l)
  then obtain n' where n: "n = Suc n'" by (cases n) auto
  note st = stored_children [OF Suc.prems(1,3) wf]
  let ?f = "\<lambda>(k, t). (k, from_blake3_bytes (addr (pbytes addr t)))"
  have rd: "read_node ops s d = Inr (InternalNode (map ?f (klevel B l es)))"
    using read_node_view [of s u d, OF Suc.prems(3) st(2) Suc.prems(4) addr32]
    unfolding st(1) node_view_simps .
  show ?case
  proof (cases "h = Suc l")
    case True
    then have "length (klevel B l es) > 1" and "u = t" using top Suc.prems(1) by (auto simp: is_top_def)
    then obtain a b cs where "klevel B l es = a # b # cs" by (cases "klevel B l es"; cases "tl (klevel B l es)") auto
    then show ?thesis using rd Suc.prems \<open>u = t\<close> by (simp add: n)
  next
    case False
    with Suc.prems(2) have le: "h \<le> l" by simp
    from above_top_single [OF top le] obtain k' u' where c: "klevel B l es = [(k', u')]" by blast
    have "\<exists>d'. collapse_loop ops s n' (from_blake3_bytes (addr (pbytes addr u'))) = Inr d'
        \<and> d_bytes d' = addr (pbytes addr t) \<and> holds addr (contents s) t"
      by (rule Suc.IH [OF c le]) (use st(3) [of k' u'] c le Suc.prems(5) n in \<open>simp_all add: from_blake3_bytes_def digest_of_def\<close>)
    then show ?thesis using rd c by (simp add: n)
  qed
qed

lemma levels_above_held:
  assumes "inj_on addr U" and "contents_in addr U (contents s)" and "covers addr B h es U"
    and "put_list ops s (concat (map (\<lambda>j. level_bytes addr B j es) [Suc l..<Suc h])) = Inr s'" and "l \<le> h"
    and "\<forall>(k, t) \<in> set (klevel B l es). holds addr (contents s) t"
  shows "contents s \<subseteq>\<^sub>m contents s' \<and> contents_in addr U (contents s')
    \<and> (\<forall>(k, t) \<in> set (klevel B h es). holds addr (contents s') t)"
  using assms(3-5)
proof (induction "h - l" arbitrary: h s')
  case 0
  then show ?case using assms(2,6) by simp
next
  case (Suc n)
  then obtain g where g: "h = Suc g" "l \<le> g" "n = g - l" by (cases h) auto
  let ?bs = "concat (map (\<lambda>j. level_bytes addr B j es) [Suc l..<Suc g])"
  have "concat (map (\<lambda>j. level_bytes addr B j es) [Suc l..<Suc h]) = ?bs @ level_bytes addr B h es"
    using g by simp
  with Suc.prems(2) obtain s1 where s1: "put_list ops s ?bs = Inr s1" "put_list ops s1 (level_bytes addr B h es) = Inr s'"
    by (auto simp: put_list_append result_simps)
  have "covers addr B g es U" using Suc.prems(1) by (rule covers_mono) (simp add: g(1))
  note IH = Suc.hyps(1) [OF g(3) this s1(1) g(2)]
  note w = mutate_spine_holds [OF assms(1) _ Suc.prems(1) [unfolded g(1)] s1(2) [unfolded level_bytes_def g(1)]]
  show ?case using IH w map_le_trans unfolding g(1) by blast
qed

lemma finish_correct:
  assumes addr32: "\<And>b. length (addr b) = DIGEST_LEN" and "inj_on addr U" and "contents_in addr U (contents s)"
    and top: "is_top B es h t" and "h \<le> 254" and wf: "entries_wf es" and "covers addr B h es U"
    and kd: "kd nodes = reps addr (klevel B l es)" and held: "\<forall>(k, t) \<in> set (klevel B l es). holds addr (contents s) t"
    and "l \<le> PROLLY_MAX_DEPTH"
  shows "\<exists>d s'. finish ops hash s nodes l = Inr (d, s') \<and> d_bytes d = addr (pbytes addr t)
    \<and> holds addr (contents s') t \<and> contents s \<subseteq>\<^sub>m contents s' \<and> contents_in addr U (contents s')"
proof -
  let ?m = "max l h"
  have "\<exists>out s1. finish_levels ops hash s nodes l = Inr (out, s1) \<and> kd out = reps addr (klevel B ?m es)
    \<and> contents s \<subseteq>\<^sub>m contents s1 \<and> contents_in addr U (contents s1)
    \<and> (\<forall>(k, t) \<in> set (klevel B ?m es). holds addr (contents s1) t)"
  proof (cases "l \<le> h")
    case True
    obtain out s1 where o: "build_levels ops hash s nodes (Suc l) = Inr (out, s1)" "kd out = reps addr (klevel B h es)"
        "put_list ops s (concat (map (\<lambda>j. level_bytes addr B j es) [Suc l..<Suc h])) = Inr s1"
      using build_levels_klevel [OF top assms(5) True kd, of s] by blast
    from levels_above_held [OF assms(2,3,7) o(3) True held] finish_levels_build [OF o(1) refl] o(2) True
    show ?thesis by (auto simp: max_def)
  next
    case False
    then obtain k u where c: "klevel B l es = [(k, u)]" using above_top_single [OF top, of l] by auto
    then have "length nodes = 1" using arg_cong [OF kd, of length] by (simp add: kd_def reps_def)
    then have "finish_levels ops hash s nodes l = Inr (nodes, s)" by (simp add: finish_levels.simps)
    then show ?thesis using False kd held assms(3) by (simp add: max_def)
  qed
  then obtain out s1 where o: "finish_levels ops hash s nodes l = Inr (out, s1)" "kd out = reps addr (klevel B ?m es)"
      "contents s \<subseteq>\<^sub>m contents s1" "contents_in addr U (contents s1)"
      "\<forall>(k, t) \<in> set (klevel B ?m es). holds addr (contents s1) t"
    by blast
  obtain k u where c: "klevel B ?m es = [(k, u)]" using above_top_single [OF top, of ?m] by auto
  with o(2) obtain d where d: "out = [(k, d)]" "d_bytes d = addr (pbytes addr u)" by (auto simp: kd_def reps_def)
  have "holds addr (contents s1) u" using o(5) c by simp
  from collapse_loop_correct [OF addr32 top wf c _ this d(2), of "PROLLY_MAX_DEPTH + 1"]
  obtain d' where "collapse_loop ops s1 (PROLLY_MAX_DEPTH + 1) d = Inr d'" "d_bytes d' = addr (pbytes addr t)"
      "holds addr (contents s1) t"
    using assms(10) by fastforce
  then show ?thesis using o(1,3,4) d(1) by (auto simp add: finish_def simp del: collapse_loop.simps)
qed


lemma build_correct:
  assumes "inj_on addr U" and "contents_in addr U (contents s)" and "bt_sorted es" and "entries_wf es"
    and "is_top B es h t" and "h \<le> 254" and "covers addr B h es U"
  shows "\<exists>d s'. build ops hash s es = Inr (Some d, s') \<and> d_bytes d = addr (pbytes addr t) \<and> tree_root addr B (contents s') es h d
    \<and> contents s \<subseteq>\<^sub>m contents s' \<and> contents_in addr U (contents s')"
proof -
  obtain d s' where b: "build ops hash s es = Inr (Some d, s')" "d_bytes d = addr (pbytes addr t)"
      "put_list ops s (concat (map (\<lambda>j. level_bytes addr B j es) [0..<Suc h])) = Inr s'"
    using build_klevel [OF is_top_nonempty [OF assms(5)] assms(5,6), of s] by blast
  from holds_after [OF assms(1,2,7) b(3) assms(5)] b(1,2) assms(3-5) show ?thesis
    by (auto simp: tree_root_def)
qed

lemma reads_correct:
  assumes "\<And>b. length (addr b) = DIGEST_LEN" and "tree_root addr B (contents s) es h d"
  shows "h < PROLLY_MAX_DEPTH \<Longrightarrow> prolly_get ops s d key = Inr (map_of es key)"
    and "h \<le> PROLLY_MAX_DEPTH \<Longrightarrow> prolly_entries ops s d = Inr es"
    and "h \<le> PROLLY_MAX_DEPTH \<Longrightarrow> scan_prefix ops s d p = Inr (filter (\<lambda>e. starts_with (fst e) p) es)"
    and "h \<le> PROLLY_MAX_DEPTH \<Longrightarrow> prolly_height ops s d = Inr h"
proof -
  obtain k t where t: "bt_sorted es" "entries_wf es" "klevel B h es = [(k, t)]" "holds addr (contents s) t"
      "d_bytes d = addr (pbytes addr t)"
    using assms(2) by (auto simp: tree_root_def is_top_def)
  show "h < PROLLY_MAX_DEPTH \<Longrightarrow> prolly_get ops s d key = Inr (map_of es key)"
    using get_loop_correct [OF assms(1) t] by (simp add: prolly_get_def)
  show "h \<le> PROLLY_MAX_DEPTH \<Longrightarrow> prolly_entries ops s d = Inr es"
    using collect_entries_correct [OF assms(1) t, of 0 "[]"] by (simp add: prolly_entries_def)
  show "h \<le> PROLLY_MAX_DEPTH \<Longrightarrow> scan_prefix ops s d p = Inr (filter (\<lambda>e. starts_with (fst e) p) es)"
    using collect_prefix_correct [OF assms(1) t, of 0 p "[]"] by (simp add: scan_prefix_def)
  show "h \<le> PROLLY_MAX_DEPTH \<Longrightarrow> prolly_height ops s d = Inr h"
    using height_loop_correct [OF assms(1) t, of "PROLLY_MAX_DEPTH + 1" 0]
    by (simp add: prolly_height_def del: height_loop.simps)
qed

lemma mutate_root:
  assumes "\<And>b. length (addr b) = DIGEST_LEN" and "inj_on addr U" and "contents_in addr U (contents s)"
    and "tree_root addr B (contents s) es h d" and "change_of ch = None \<longrightarrow> \<not> (B 0 key \<and> B 1 key)"
  shows "\<exists>r s'. mutate ops hash s d h key ch True = Inr (r, s')
    \<and> mutate_ok addr B U (contents s) (contents s') h (upd key (change_of ch) es) (change_of ch = None) True r"
proof -
  obtain k t where t: "bt_sorted es" "entries_wf es" "klevel B h es = [(k, t)]" "holds addr (contents s) t"
      "d_bytes d = addr (pbytes addr t)"
    using assms(4) by (auto simp: tree_root_def is_top_def)
  from mutate_correct [OF assms(1,2,5) t(1-4) assms(3) t(5)] show ?thesis by simp
qed

lemma change_correct:
  assumes "\<And>b. length (addr b) = DIGEST_LEN" and "inj_on addr U" and "contents_in addr U (contents s)"
    and "is_top B es' h' t'" and "h' \<le> 254" and "entries_wf es'" and "bt_sorted es'" and "h \<le> PROLLY_MAX_DEPTH"
    and "covers addr B (max h h') es' U" and "mutate_ok addr B U (contents s) (contents s1) h es' rem True (Some nodes)"
  shows "\<exists>d' s'. finish ops hash s1 nodes h = Inr (d', s') \<and> d_bytes d' = addr (pbytes addr t')
    \<and> tree_root addr B (contents s') es' h' d' \<and> contents s \<subseteq>\<^sub>m contents s' \<and> contents_in addr U (contents s')"
proof -
  have cov: "covers addr B h es' U" "covers addr B h' es' U" using assms(9) by (auto intro: covers_mono)
  with assms(10) have m: "kd nodes = reps addr (klevel B h es')" "contents s \<subseteq>\<^sub>m contents s1"
      "contents_in addr U (contents s1)" "\<forall>(k, t) \<in> set (klevel B h es'). holds addr (contents s1) t"
    by (simp_all add: mutate_ok_def)
  from finish_correct [OF assms(1,2) m(3) assms(4-6) cov(2) m(1,4) assms(8)] m(2) assms(4,6,7)
  show ?thesis unfolding tree_root_def by (blast intro: map_le_trans)
qed

lemma insert_correct:
  assumes "\<And>b. length (addr b) = DIGEST_LEN" and "inj_on addr U" and "contents_in addr U (contents s)"
    and "tree_root addr B (contents s) es h d" and "h \<le> PROLLY_MAX_DEPTH"
    and "is_top B (bt_insert key v es) h' t'" and "h' \<le> 254" and "entries_wf (bt_insert key v es)"
    and "covers addr B (max h h') (bt_insert key v es) U"
  shows "\<exists>d' s'. prolly_insert ops hash s (Some d) key v = Inr (d', s') \<and> d_bytes d' = addr (pbytes addr t')
    \<and> tree_root addr B (contents s') (bt_insert key v es) h' d' \<and> contents s \<subseteq>\<^sub>m contents s' \<and> contents_in addr U (contents s')"
proof -
  obtain r s1 where m: "mutate ops hash s d h key (SetTo v) True = Inr (r, s1)"
      "mutate_ok addr B U (contents s) (contents s1) h (bt_insert key v es) False True r"
    using mutate_root [OF assms(1-4), of "SetTo v" key] by (auto simp: upd_def)
  then obtain nodes where r: "r = Some nodes" by (cases r) (simp_all add: mutate_ok_def)
  have "bt_sorted (bt_insert key v es)" using assms(4) by (simp add: tree_root_def bt_sorted_insert)
  from change_correct [OF assms(1-3,6-8) this assms(5,9) m(2) [unfolded r]] reads_correct(4) [OF assms(1,4,5)] m(1)
  show ?thesis by (simp add: prolly_insert_def r)
qed


lemma remove_correct:
  assumes "\<And>b. length (addr b) = DIGEST_LEN" and "inj_on addr U" and "contents_in addr U (contents s)"
    and "tree_root addr B (contents s) es h d" and "h \<le> PROLLY_MAX_DEPTH" and "\<not> (B 0 key \<and> B 1 key)"
    and "is_top B (bt_remove key es) h' t'" and "h' \<le> 254" and "covers addr B (max h h') (bt_remove key es) U"
  shows "\<exists>d' s'. prolly_remove ops hash s d key = Inr (Some d', s') \<and> d_bytes d' = addr (pbytes addr t')
    \<and> tree_root addr B (contents s') (bt_remove key es) h' d' \<and> contents s \<subseteq>\<^sub>m contents s' \<and> contents_in addr U (contents s')"
proof -
  let ?es = "bt_remove key es"
  have wf: "bt_sorted es" "bt_sorted ?es" "entries_wf ?es"
    using assms(4) by (auto simp: tree_root_def entries_wf_def bt_remove_def intro: le_less_trans [OF length_filter_le])
  obtain r s1 where m: "mutate ops hash s d h key RemoveKey True = Inr (r, s1)"
      "mutate_ok addr B U (contents s) (contents s1) h ?es True True r"
    using mutate_root [OF assms(1-4), of RemoveKey key] assms(6) by (auto simp: upd_def)
  note hh = reads_correct(4) [OF assms(1,4,5)]
  show ?thesis
  proof (cases r)
    case (Some nodes)
    have "nodes \<noteq> []"
      using m(2) is_top_nonempty [OF assms(7)] by (auto simp: Some mutate_ok_def reps_def)
    with change_correct [OF assms(1-3,7,8) wf(3,2) assms(5,9) m(2) [unfolded Some]] hh m(1)
    show ?thesis by (auto simp add: prolly_remove_def Some)
  next
    case None
    with m(2) have c: "contents s1 = contents s" by (simp add: mutate_ok_def)
    have "tree_root addr B (contents s1) es h d" using assms(4) c by simp
    from reads_correct(2) [OF assms(1) this assms(5)]
    have "prolly_remove ops hash s d key = build ops hash s1 ?es"
      using hh m(1) wf(1) by (simp add: prolly_remove_def None rebuild_with_def apply_change_upd upd_def)
    moreover have "contents_in addr U (contents s1)" "covers addr B h' ?es U"
      using assms(3,9) c by (auto intro: covers_mono)
    ultimately show ?thesis using build_correct [OF assms(2) _ wf(2,3) assms(7,8), of s1] c by simp
  qed
qed

lemma remove_last_correct:
  assumes "\<And>b. length (addr b) = DIGEST_LEN" and "inj_on addr U" and "contents_in addr U (contents s)"
    and "tree_root addr B (contents s) es h d" and "h \<le> PROLLY_MAX_DEPTH" and "\<not> (B 0 key \<and> B 1 key)"
    and "bt_remove key es = []"
  shows "\<exists>s'. prolly_remove ops hash s d key = Inr (None, s')"
proof -
  obtain r s1 where m: "mutate ops hash s d h key RemoveKey True = Inr (r, s1)"
      "mutate_ok addr B U (contents s) (contents s1) h [] True True r"
    using mutate_root [OF assms(1-4), of RemoveKey key] assms(6,7) by (auto simp: upd_def)
  note hh = reads_correct(4) [OF assms(1,4,5)]
  show ?thesis
  proof (cases r)
    case (Some nodes)
    with m(2) have "nodes = []" by (simp add: mutate_ok_def reps_def kd_def)
    with Some m(1) hh show ?thesis by (simp add: prolly_remove_def)
  next
    case None
    with m(2) have "tree_root addr B (contents s1) es h d" using assms(4) by (simp add: mutate_ok_def)
    from reads_correct(2) [OF assms(1) this assms(5)] assms(4,7) hh m(1) None show ?thesis
      by (simp add: prolly_remove_def rebuild_with_def apply_change_upd upd_def tree_root_def build_def)
  qed
qed

end

section \<open>The tree over the in-memory store\<close>

lemma mem_addr: "store_addr hash (memory_store hash) = hash Blake3"
  by (rule ext) (simp add: memory_store_simps)

lemmas mem_build = mem.build_correct [unfolded mem_addr]
lemmas mem_reads = mem.reads_correct [unfolded mem_addr]
lemmas mem_insert = mem.insert_correct [unfolded mem_addr]
lemmas mem_remove = mem.remove_correct [unfolded mem_addr]
lemmas mem_remove_last = mem.remove_last_correct [unfolded mem_addr]

lemma mem_build_root:
  assumes "is_top (boundary_of hash) es h t" and "h \<le> 254"
  shows "\<exists>d s'. build (memory_store hash) hash s es = Inr (Some d, s') \<and> d_bytes d = hash Blake3 (pbytes (hash Blake3) t)"
  using mem.build_klevel [OF is_top_nonempty [OF assms(1)] assms, of s] unfolding mem_addr by blast

text \<open>C7: A tree built over a sorted list of entries answers every read as that list does: a lookup gives
  the value of the key or nothing, a full scan gives the list, a prefix scan gives exactly the entries whose
  key starts with the prefix, in order.\<close>

theorem prolly_build_reads:
  assumes "\<And>b. length (hash Blake3 b) = DIGEST_LEN" and "inj_on (hash Blake3) U" and "contents_in (hash Blake3) U (map_of s)"
    and "bt_sorted es" and "entries_wf es" and "is_top (boundary_of hash) es h t" and "h < PROLLY_MAX_DEPTH"
    and "covers (hash Blake3) (boundary_of hash) h es U"
  shows "\<exists>d s'. build (memory_store hash) hash s es = Inr (Some d, s')
    \<and> (\<forall>key. prolly_get (memory_store hash) s' d key = Inr (map_of es key))
    \<and> prolly_entries (memory_store hash) s' d = Inr es
    \<and> (\<forall>p. scan_prefix (memory_store hash) s' d p = Inr (filter (\<lambda>e. starts_with (fst e) p) es))"
proof -
  have h: "h \<le> 254" using assms(7) by (simp add: PROLLY_MAX_DEPTH_def)
  obtain d s' where "build (memory_store hash) hash s es = Inr (Some d, s')"
      and t: "tree_root (hash Blake3) (boundary_of hash) (map_of s') es h d"
    using mem_build [OF assms(2-6) h assms(8)] by blast
  with mem_reads [OF assms(1) t] assms(7) show ?thesis by auto
qed

text \<open>C3: Inserting a key into the tree of an entry list gives the tree of the list with that key set: the
  root is the one build computes from scratch, whatever the store and the history, and no object that was
  in the store is lost.\<close>

theorem prolly_insert_canonical:
  assumes "\<And>b. length (hash Blake3 b) = DIGEST_LEN" and "inj_on (hash Blake3) U" and "contents_in (hash Blake3) U (map_of s)"
    and "tree_root (hash Blake3) (boundary_of hash) (map_of s) es h d" and "h \<le> PROLLY_MAX_DEPTH"
    and "is_top (boundary_of hash) (bt_insert key v es) h' t'" and "h' \<le> 254" and "entries_wf (bt_insert key v es)"
    and "covers (hash Blake3) (boundary_of hash) (max h h') (bt_insert key v es) U"
  shows "\<exists>d' s'. prolly_insert (memory_store hash) hash s (Some d) key v = Inr (d', s')
    \<and> tree_root (hash Blake3) (boundary_of hash) (map_of s') (bt_insert key v es) h' d' \<and> map_of s \<subseteq>\<^sub>m map_of s'
    \<and> (\<forall>s0. \<exists>d0 s1. build (memory_store hash) hash s0 (bt_insert key v es) = Inr (Some d0, s1) \<and> d_bytes d0 = d_bytes d')"
proof -
  obtain d' s' where "prolly_insert (memory_store hash) hash s (Some d) key v = Inr (d', s')"
      "d_bytes d' = hash Blake3 (pbytes (hash Blake3) t')"
      "tree_root (hash Blake3) (boundary_of hash) (map_of s') (bt_insert key v es) h' d'" "map_of s \<subseteq>\<^sub>m map_of s'"
    using mem_insert [OF assms] by blast
  with mem_build_root [OF assms(6,7)] show ?thesis by simp
qed

text \<open>C23: Removing a key from the tree of an entry list gives the tree of the list without it, with the root
  build computes from scratch, or no root when nothing is left, provided the key does not close both a leaf
  and an inner node (a boundary at levels 0 and 1).\<close>

theorem prolly_remove_canonical:
  assumes "\<And>b. length (hash Blake3 b) = DIGEST_LEN" and "inj_on (hash Blake3) U" and "contents_in (hash Blake3) U (map_of s)"
    and "tree_root (hash Blake3) (boundary_of hash) (map_of s) es h d" and "h \<le> PROLLY_MAX_DEPTH"
    and "\<not> (boundary_of hash 0 key \<and> boundary_of hash 1 key)"
    and "bt_remove key es \<noteq> [] \<Longrightarrow> is_top (boundary_of hash) (bt_remove key es) h' t'" and "h' \<le> 254"
    and "covers (hash Blake3) (boundary_of hash) (max h h') (bt_remove key es) U"
  shows "if bt_remove key es = [] then \<exists>s'. prolly_remove (memory_store hash) hash s d key = Inr (None, s')
    else \<exists>d' s'. prolly_remove (memory_store hash) hash s d key = Inr (Some d', s')
      \<and> tree_root (hash Blake3) (boundary_of hash) (map_of s') (bt_remove key es) h' d' \<and> map_of s \<subseteq>\<^sub>m map_of s'
      \<and> (\<forall>s0. \<exists>d0 s1. build (memory_store hash) hash s0 (bt_remove key es) = Inr (Some d0, s1) \<and> d_bytes d0 = d_bytes d')"
proof (cases "bt_remove key es = []")
  case True
  with mem_remove_last [OF assms(1-6)] show ?thesis by simp
next
  case False
  note top = assms(7) [OF False]
  obtain d' s' where "prolly_remove (memory_store hash) hash s d key = Inr (Some d', s')"
      "d_bytes d' = hash Blake3 (pbytes (hash Blake3) t')"
      "tree_root (hash Blake3) (boundary_of hash) (map_of s') (bt_remove key es) h' d'" "map_of s \<subseteq>\<^sub>m map_of s'"
    using mem_remove [OF assms(1-6) top assms(8,9)] by blast
  with mem_build_root [OF top assms(8)] False show ?thesis by simp
qed

section \<open>Concrete trees\<close>

text \<open>A level-sensitive hash for concrete trees: every key closes its leaf and no key closes an inner
  node, so that a tree of several entries has one entry per leaf and a root above them.\<close>

definition wit_hash :: hash_fn where "wit_hash a b = take 32 (rev b @ replicate 32 0)"

definition wit_es :: "entry list" where "wit_es = [([1], [7]), ([2], [8])]"

definition wit_tree :: "entry list \<Rightarrow> ptree" where
  "wit_tree es = PNode (map (\<lambda>e. (fst e, PLeaf [e])) es)"

definition node_bytes :: "hash_fn \<Rightarrow> nat \<Rightarrow> entry list \<Rightarrow> bytes list" where
  "node_bytes hash h es = concat (map (\<lambda>j. level_bytes (hash Blake3) (boundary_of hash) j es) [0..<Suc h])"

lemma covers_node_bytes: "set (node_bytes hash h es) \<subseteq> U \<Longrightarrow> covers (hash Blake3) (boundary_of hash) h es U"
  by (force simp: covers_def node_bytes_def level_bytes_def less_Suc_eq_le simp del: upt_Suc)

lemma wit_hash_length: "length (wit_hash a b) = DIGEST_LEN"
  by (simp add: wit_hash_def DIGEST_LEN_def)

lemma is_top_oneI: "klevel B 1 es = [(k, t)] \<Longrightarrow> length (klevel B 0 es) > 1 \<Longrightarrow> is_top B es 1 t"
  by (auto simp: is_top_def)

lemma wit_top: "is_top (boundary_of wit_hash) wit_es 1 (wit_tree wit_es)"
    "is_top (boundary_of wit_hash) (bt_insert [3] [9] wit_es) 1 (wit_tree (bt_insert [3] [9] wit_es))"
proof -
  have "klevel (boundary_of wit_hash) 1 wit_es = [([2], wit_tree wit_es)]"
    "length (klevel (boundary_of wit_hash) 0 wit_es) > 1" by code_simp+
  then show "is_top (boundary_of wit_hash) wit_es 1 (wit_tree wit_es)" by (rule is_top_oneI)
  have "klevel (boundary_of wit_hash) 1 (bt_insert [3] [9] wit_es) = [([3], wit_tree (bt_insert [3] [9] wit_es))]"
    "length (klevel (boundary_of wit_hash) 0 (bt_insert [3] [9] wit_es)) > 1" by code_simp+
  then show "is_top (boundary_of wit_hash) (bt_insert [3] [9] wit_es) 1 (wit_tree (bt_insert [3] [9] wit_es))"
    by (rule is_top_oneI)
qed

lemma wit_sorted: "bt_sorted wit_es" "bt_sorted (bt_insert [3] [9] wit_es)" by code_simp+

lemma wit_entries: "entries_wf wit_es" "entries_wf (bt_insert [3] [9] wit_es)"
  by (simp_all add: entries_wf_def wit_es_def)

definition wit_U :: "bytes list" where
  "wit_U = remdups (node_bytes wit_hash 1 wit_es @ node_bytes wit_hash 1 (bt_insert [3] [9] wit_es))"

lemma wit_inj: "inj_on (wit_hash Blake3) (set wit_U)"
proof -
  have "distinct (map (wit_hash Blake3) wit_U)" by code_simp
  then show ?thesis using distinct_map by blast
qed

lemma wit_covers: "covers (wit_hash Blake3) (boundary_of wit_hash) 1 wit_es (set wit_U)"
    "covers (wit_hash Blake3) (boundary_of wit_hash) 1 (bt_insert [3] [9] wit_es) (set wit_U)"
  by (rule covers_node_bytes; simp add: wit_U_def)+

lemmas wit_build = mem_build [OF wit_inj _ wit_sorted(1) wit_entries(1) wit_top(1) _ wit_covers(1)]

lemma wit_root:
  obtains d s where "build (memory_store wit_hash) wit_hash [] wit_es = Inr (Some d, s)"
    and "contents_in (wit_hash Blake3) (set wit_U) (map_of s)"
    and "tree_root (wit_hash Blake3) (boundary_of wit_hash) (map_of s) wit_es 1 d"
proof -
  have "contents_in (wit_hash Blake3) (set wit_U) (map_of [])" by (simp add: contents_in_def)
  from wit_build [OF this] that show thesis by auto
qed

theorem prolly_build_reads_witness:
  "\<exists>d s. build (memory_store wit_hash) wit_hash [] wit_es = Inr (Some d, s)
     \<and> prolly_get (memory_store wit_hash) s d [2] = Inr (Some [8])"
proof -
  have "contents_in (wit_hash Blake3) (set wit_U) (map_of [])" by (simp add: contents_in_def)
  from prolly_build_reads [OF wit_hash_length wit_inj this wit_sorted(1) wit_entries(1) wit_top(1) _ wit_covers(1)]
  obtain d s where "build (memory_store wit_hash) wit_hash [] wit_es = Inr (Some d, s)"
      "\<forall>key. prolly_get (memory_store wit_hash) s d key = Inr (map_of wit_es key)"
    by (auto simp: PROLLY_MAX_DEPTH_def)
  moreover have "map_of wit_es [2] = Some [8]" by (simp add: wit_es_def)
  ultimately show ?thesis by auto
qed

theorem prolly_insert_canonical_witness:
  "\<exists>d s d' s'. build (memory_store wit_hash) wit_hash [] wit_es = Inr (Some d, s)
     \<and> prolly_insert (memory_store wit_hash) wit_hash s (Some d) [3] [9] = Inr (d', s')
     \<and> (\<exists>d0 s0. build (memory_store wit_hash) wit_hash [] (bt_insert [3] [9] wit_es) = Inr (Some d0, s0) \<and> d_bytes d0 = d_bytes d')"
proof -
  obtain d s where b: "build (memory_store wit_hash) wit_hash [] wit_es = Inr (Some d, s)"
      "contents_in (wit_hash Blake3) (set wit_U) (map_of s)"
      "tree_root (wit_hash Blake3) (boundary_of wit_hash) (map_of s) wit_es 1 d"
    by (rule wit_root)
  have c: "covers (wit_hash Blake3) (boundary_of wit_hash) (max 1 1) (bt_insert [3] [9] wit_es) (set wit_U)"
    using wit_covers(2) by simp
  obtain d' s' where "prolly_insert (memory_store wit_hash) wit_hash s (Some d) [3] [9] = Inr (d', s')"
      "\<forall>s0. \<exists>d0 s1. build (memory_store wit_hash) wit_hash s0 (bt_insert [3] [9] wit_es) = Inr (Some d0, s1) \<and> d_bytes d0 = d_bytes d'"
    using prolly_insert_canonical [OF wit_hash_length wit_inj b(2,3) _ wit_top(2) _ wit_entries(2) c]
    by (auto simp: PROLLY_MAX_DEPTH_def)
  with b(1) show ?thesis by blast
qed

theorem prolly_remove_canonical_witness:
  "\<exists>d s d' s'. build (memory_store wit_hash) wit_hash [] (bt_insert [3] [9] wit_es) = Inr (Some d, s)
     \<and> prolly_remove (memory_store wit_hash) wit_hash s d [3] = Inr (Some d', s')
     \<and> (\<exists>d0 s0. build (memory_store wit_hash) wit_hash [] wit_es = Inr (Some d0, s0) \<and> d_bytes d0 = d_bytes d')"
proof -
  let ?es = "bt_insert [3] [9] wit_es"
  have "contents_in (wit_hash Blake3) (set wit_U) (map_of [])" by (simp add: contents_in_def)
  from mem_build [OF wit_inj this wit_sorted(2) wit_entries(2) wit_top(2) _ wit_covers(2)]
  obtain d s where b: "build (memory_store wit_hash) wit_hash [] ?es = Inr (Some d, s)"
      "contents_in (wit_hash Blake3) (set wit_U) (map_of s)"
      "tree_root (wit_hash Blake3) (boundary_of wit_hash) (map_of s) ?es 1 d"
    by auto
  have rem: "bt_remove [3] ?es = wit_es" and ne: "wit_es \<noteq> []"
    and B: "\<not> (boundary_of wit_hash 0 [3] \<and> boundary_of wit_hash 1 [3])" by code_simp+
  have c: "covers (wit_hash Blake3) (boundary_of wit_hash) (max 1 1) (bt_remove [3] ?es) (set wit_U)"
    using wit_covers(1) rem by simp
  have top: "is_top (boundary_of wit_hash) (bt_remove [3] ?es) 1 (wit_tree wit_es)" using wit_top(1) rem by simp
  obtain d' s' where "prolly_remove (memory_store wit_hash) wit_hash s d [3] = Inr (Some d', s')"
      "\<forall>s0. \<exists>d0 s1. build (memory_store wit_hash) wit_hash s0 wit_es = Inr (Some d0, s1) \<and> d_bytes d0 = d_bytes d'"
    using prolly_remove_canonical [OF wit_hash_length wit_inj b(2,3) _ B top _ c] rem ne
    by (auto simp: PROLLY_MAX_DEPTH_def)
  with b(1) show ?thesis by blast
qed

text \<open>The hash of the next property closes every leaf after one entry and, above that, only the inner node
  that ends with the key 2.\<close>

fun gap_lead :: "bytes \<Rightarrow> u8" where
  "gap_lead [] = 1"
| "gap_lead (level # key) = (if level = 0 \<or> level = 1 \<and> key = [2] then 0 else 1)"

definition gap_hash :: hash_fn where
  "gap_hash a b = [gap_lead (rev b), 0, 0, 0] @ take 28 (rev b @ replicate 28 0)"

definition gap_roots :: "hash_fn \<Rightarrow> entry list \<Rightarrow> bytes \<Rightarrow> (bytes option \<times> bytes option) res" where
  "gap_roots hash es key =
    rbind (build (memory_store hash) hash [] es) (\<lambda>(d, s).
    rbind (ok_or Internal d) (\<lambda>root.
    rbind (prolly_remove (memory_store hash) hash s root key) (\<lambda>(r, _).
    rbind (build (memory_store hash) hash [] (bt_remove key es)) (\<lambda>(r0, _).
      Inr (map_option d_bytes r, map_option d_bytes r0)))))"

text \<open>The side condition of the removal property is needed: when a key closes both its leaf and the inner
  node above it, removing it leaves an inner node that no boundary closes, and the root differs from the one
  build computes over the remaining entries.\<close>

theorem prolly_remove_gap:
  "\<exists>r r0. gap_roots gap_hash [([1], [7]), ([2], [8]), ([3], [9])] [2] = Inr (Some r, Some r0) \<and> r \<noteq> r0"
proof -
  have "case gap_roots gap_hash [([1], [7]), ([2], [8]), ([3], [9])] [2] of
      Inr (Some r, Some r0) \<Rightarrow> r \<noteq> r0 | _ \<Rightarrow> False"
    by code_simp
  then show ?thesis by (auto split: sum.splits option.splits prod.splits)
qed

text \<open>Validation accepts a node that no read accepts: an empty node with an unknown tag passes the
  validation of node bytes and is corrupt for the reader.\<close>

theorem validate_node_unknown_tag:
  "validate_node_bytes [0x82, 0x07, 0x80] = Inr () \<and> decode_node [0x82, 0x07, 0x80] = Inl CorruptObject"
  by code_simp
end
