(* ===== verification/Loom_Fence.thy ===== *)
theory Loom_Fence
  imports Loom_Error
begin

text \<open>
  Fencing tokens of \<^verbatim>\<open>crates/loom-types/src/fence.rs\<close>: an authority, an epoch and a sequence number,
  ordered lexicographically in that order (the derived order), and their packed forms: one 128-bit integer
  and two 64-bit limbs. The packed form keeps the order, so a comparison of packed fences is a comparison of
  fences.
\<close>

datatype Fence = Fence (authority: u32) (epoch: u32) (sequence: u64)

definition EMBEDDED_AUTHORITY :: u32 where "EMBEDDED_AUTHORITY = 0"
definition EMBEDDED_EPOCH :: u32 where "EMBEDDED_EPOCH = 0"

definition fence_embedded :: "u64 \<Rightarrow> Fence" where
  "fence_embedded sq = Fence EMBEDDED_AUTHORITY EMBEDDED_EPOCH sq"

definition is_embedded :: "Fence \<Rightarrow> bool" where
  "is_embedded f = (authority f = EMBEDDED_AUTHORITY \<and> epoch f = EMBEDDED_EPOCH)"

definition embedded_sequence :: "Fence \<Rightarrow> u64 option" where
  "embedded_sequence f = (if is_embedded f then Some (sequence f) else None)"

definition fence_to_u128 :: "Fence \<Rightarrow> u128" where
  "fence_to_u128 f = push_bit 96 (ucast (authority f)) OR push_bit 64 (ucast (epoch f)) OR ucast (sequence f)"

definition fence_from_u128 :: "u128 \<Rightarrow> Fence" where
  "fence_from_u128 v = Fence (ucast (drop_bit 96 v)) (ucast (drop_bit 64 v)) (ucast v)"

definition fence_to_limbs :: "Fence \<Rightarrow> u64 \<times> u64" where
  "fence_to_limbs f = (ucast (fence_to_u128 f), ucast (drop_bit 64 (fence_to_u128 f)))"

definition fence_from_limbs :: "u64 \<Rightarrow> u64 \<Rightarrow> Fence" where
  "fence_from_limbs low high = fence_from_u128 (push_bit 64 (ucast high) OR ucast low)"

text \<open>The derived order of the struct compares its fields in the order of their declaration.\<close>

instantiation Fence :: linorder
begin

definition less_Fence :: "Fence \<Rightarrow> Fence \<Rightarrow> bool" where
  "less_Fence f g \<longleftrightarrow> authority f < authority g
     \<or> authority f = authority g \<and> (epoch f < epoch g \<or> epoch f = epoch g \<and> sequence f < sequence g)"

definition less_eq_Fence :: "Fence \<Rightarrow> Fence \<Rightarrow> bool" where
  "less_eq_Fence f g \<longleftrightarrow> f < g \<or> f = g"

instance
proof
  fix f g :: Fence
  show "f \<le> g \<or> g \<le> f" by (cases f; cases g) (auto simp: less_eq_Fence_def less_Fence_def)
qed (auto simp: less_eq_Fence_def less_Fence_def)

end

section \<open>The packed form\<close>

lemma unat_fence_to_u128:
  "unat (fence_to_u128 f) = 2 ^ 96 * unat (authority f) + 2 ^ 64 * unat (epoch f) + unat (sequence f)"
proof -
  have a: "unat (authority f) < 2 ^ 32" and e: "unat (epoch f) < 2 ^ 32" and s: "unat (sequence f) < 2 ^ 64"
    using unat_bound [of "authority f"] unat_bound [of "epoch f"] unat_bound [of "sequence f"] by simp_all
  let ?a = "push_bit 96 (ucast (authority f)) :: u128" and ?e = "push_bit 64 (ucast (epoch f)) :: u128"
    and ?s = "ucast (sequence f) :: u128"
  have ua: "unat ?a = 2 ^ 96 * unat (authority f)" and ue: "unat ?e = 2 ^ 64 * unat (epoch f)" and us: "unat ?s = unat (sequence f)"
    using a e s by (simp_all add: unsigned_push_bit_eq push_bit_eq_mult take_bit_eq_mod unat_ucast unat_word_ariths mult.commute)
  have d1: "?e AND ?s = 0"
    by (rule bit_word_eqI) (auto simp: bit_and_iff bit_push_bit_iff bit_ucast_iff dest: bit_imp_le_length)
  have d2: "?a AND (?e OR ?s) = 0"
    by (rule bit_word_eqI) (auto simp: bit_and_iff bit_or_iff bit_push_bit_iff bit_ucast_iff dest!: bit_imp_le_length)
  have "fence_to_u128 f = ?a + (?e + ?s)"
    unfolding fence_to_u128_def or.assoc using d1 d2 by (simp add: disjunctive_add_eq_or [symmetric])
  then have "unat (fence_to_u128 f) = (unat ?a + (unat ?e + unat ?s)) mod 2 ^ 128"
    by (simp add: unat_word_ariths mod_simps)
  with ua ue us a e s show ?thesis by simp
qed

lemma pack_less_iff:
  fixes a b x y M :: nat
  assumes "x < M" and "y < M"
  shows "M * a + x < M * b + y \<longleftrightarrow> a < b \<or> a = b \<and> x < y"
proof (cases a b rule: linorder_cases)
  case less
  then have "M * (a + 1) \<le> M * b" by (intro mult_le_mono2) simp
  with assms less show ?thesis by simp
next
  case greater
  then have "M * (b + 1) \<le> M * a" by (intro mult_le_mono2) simp
  with assms greater show ?thesis by simp
qed simp

lemma pack_eq_iff:
  fixes a b x y M :: nat
  assumes "x < M" and "y < M"
  shows "M * a + x = M * b + y \<longleftrightarrow> a = b \<and> x = y"
proof (cases a b rule: linorder_cases)
  case less
  with pack_less_iff [OF assms, of a b] show ?thesis by simp
next
  case greater
  with pack_less_iff [OF assms(2,1), of b a] show ?thesis by simp
qed simp

lemma fence_to_u128_less: "fence_to_u128 f < fence_to_u128 g \<longleftrightarrow> f < g"
proof -
  have b: "unat (epoch x) < 2 ^ 32" "unat (sequence x) < 2 ^ 64" for x
    using unat_bound [of "epoch x"] unat_bound [of "sequence x"] by simp_all
  have u: "unat (fence_to_u128 x) = 2 ^ 64 * (2 ^ 32 * unat (authority x) + unat (epoch x)) + unat (sequence x)" for x
    by (simp add: unat_fence_to_u128)
  show ?thesis
    unfolding word_less_nat_alt u pack_less_iff [OF b(2) b(2)] pack_less_iff [OF b(1) b(1)] pack_eq_iff [OF b(1) b(1)]
      less_Fence_def word_unat_eq_iff by blast
qed

lemma fence_from_to_u128: "fence_from_u128 (fence_to_u128 f) = f"
proof (cases f)
  case (Fence a e s)
  have b: "unat a < 2 ^ 32" "unat e < 2 ^ 32" "unat s < 2 ^ 64"
    using unat_bound [of a] unat_bound [of e] unat_bound [of s] by simp_all
  let ?v = "fence_to_u128 f"
  have v: "unat ?v = 2 ^ 64 * (2 ^ 32 * unat a + unat e) + unat s"
    by (simp add: unat_fence_to_u128 Fence)
  have d: "unat (drop_bit k ?v) = unat ?v div 2 ^ k" for k
    by (rule unat_drop_bit)
  have q64: "unat ?v div 2 ^ 64 = 2 ^ 32 * unat a + unat e" using b unfolding v by simp
  have q96: "unat ?v div 2 ^ 96 = unat a"
  proof -
    have "unat ?v div 2 ^ 96 = unat ?v div 2 ^ 64 div 2 ^ 32" by (simp add: div_mult2_eq [symmetric])
    then show ?thesis unfolding q64 using b by simp
  qed
  have "ucast (drop_bit 96 ?v) = a"
    by (rule word_unat_eq_iff [THEN iffD2]) (use b in \<open>simp add: unat_ucast d q96 [simplified]\<close>)
  moreover have "ucast (drop_bit 64 ?v) = e"
    by (rule word_unat_eq_iff [THEN iffD2]) (use b in \<open>simp add: unat_ucast d q64 [simplified]\<close>)
  moreover have "ucast ?v = s"
  proof (rule word_unat_eq_iff [THEN iffD2])
    have "unat ?v mod 2 ^ 64 = unat s" unfolding v mod_mult_self4 using b(3) by simp
    then show "unat (ucast ?v :: u64) = unat s" by (simp add: unat_ucast)
  qed
  ultimately show ?thesis by (simp add: fence_from_u128_def Fence)
qed

lemma fence_from_to_limbs: "(case fence_to_limbs f of (low, high) \<Rightarrow> fence_from_limbs low high) = f"
proof -
  have "push_bit 64 (ucast (ucast (drop_bit 64 v) :: u64)) OR ucast (ucast v :: u64) = v" for v :: u128
    by (rule bit_word_eqI) (auto simp: bit_or_iff bit_push_bit_iff bit_ucast_iff bit_drop_bit_eq)
  then show ?thesis by (simp add: fence_to_limbs_def fence_from_limbs_def fence_from_to_u128)
qed

text \<open>C24: Packing a fence into 128 bits or two limbs loses nothing, and the packed integers are ordered as the
  fences are, so a store that compares packed fences compares authority, then epoch, then sequence.\<close>

theorem fence_packing:
  "fence_from_u128 (fence_to_u128 f) = f \<and> (case fence_to_limbs f of (low, high) \<Rightarrow> fence_from_limbs low high) = f
    \<and> (fence_to_u128 f < fence_to_u128 g \<longleftrightarrow> f < g)"
  using fence_from_to_u128 fence_from_to_limbs fence_to_u128_less by simp

section \<open>Fencing registers\<close>

text \<open>
  The contract of a register that keeps the highest fence applied to a key: a fence below the mark is refused
  as stale and changes nothing, any other fence becomes the mark, and no step of the owner of the register
  lowers a mark. Both coordinators are such registers.
\<close>

locale fence_register =
  fixes apply_f :: "'s \<Rightarrow> 'k \<Rightarrow> 'f \<Rightarrow> unit res \<times> 's"
    and mark :: "'s \<Rightarrow> 'k \<Rightarrow> 'n::linorder"
    and number :: "'f \<Rightarrow> 'n option"
    and moves :: "'s \<Rightarrow> 's \<Rightarrow> bool"
    and inv :: "'s \<Rightarrow> bool"
  assumes apply_stale: "number f = Some n \<Longrightarrow> n < mark s k \<Longrightarrow> apply_f s k f = (Inl FencingStale, s)"
    and apply_ok: "apply_f s k f = (Inr (), s') \<Longrightarrow> number f = Some (mark s' k)"
    and apply_inv: "inv s \<Longrightarrow> apply_f s k f = (r, s') \<Longrightarrow> inv s'"
    and moves_mono: "inv s \<Longrightarrow> moves s s' \<Longrightarrow> mark s k \<le> mark s' k"
    and moves_inv: "inv s \<Longrightarrow> moves s s' \<Longrightarrow> inv s'"
begin

lemma marks_mono: "moves\<^sup>*\<^sup>* s s' \<Longrightarrow> inv s \<Longrightarrow> mark s k \<le> mark s' k \<and> inv s'"
proof (induction rule: rtranclp_induct)
  case (step y z)
  then show ?case using moves_mono [of y z k] moves_inv [of y z] by (auto intro: order_trans)
qed simp

lemma stale_after:
  assumes "inv s" and "apply_f s k g = (Inr (), s1)" and "moves\<^sup>*\<^sup>* s1 s2"
    and "number g = Some m" and "number f = Some n" and "n < m"
  shows "apply_f s2 k f = (Inl FencingStale, s2)"
proof (rule apply_stale [OF assms(5)])
  have "m = mark s1 k" using apply_ok [OF assms(2)] assms(4) by simp
  also have "\<dots> \<le> mark s2 k" using marks_mono [OF assms(3) apply_inv [OF assms(1,2)]] by blast
  finally show "n < mark s2 k" using assms(6) by simp
qed

end

end
