(* ===== verification/Loom_Lock.thy ===== *)
theory Loom_Lock
  imports Loom_Fence
begin

text \<open>
  The lock coordinator of \<^verbatim>\<open>crates/loom-core/src/lock.rs\<close>: exclusive, shared and semaphore locks with
  leases, reentrancy and fencing tokens. An operation on \<^verbatim>\<open>&mut self\<close> returns its result together with the
  new state, because several operations change the state and then fail: an acquisition that ends in an error
  has already expired old holders, and a use of a lapsed lease removes its holder. The clock is an argument of
  every operation, as in the code; nothing is assumed about the times of successive calls.

  The operations form a step relation, with a restart from the persisted counters as a further step.
  The reachable states keep the invariant \<open>lock_inv\<close>, which gives mutual exclusion and the bounds of
  semaphores; fence counters and applied high-waters never go back.
\<close>

section \<open>State\<close>

datatype LockMode = Exclusive | Shared | Semaphore (permits: u32) (capacity: u32)

record LockOwner =
  lo_principal :: bytes
  lo_session :: bytes

record Holder =
  h_owner :: LockOwner
  h_mode :: LockMode
  h_fence :: Fence
  h_deadline :: u64
  h_reentrancy :: u32

record LockToken =
  lt_key :: bytes
  lt_owner :: LockOwner
  lt_mode :: LockMode
  lt_fence :: Fence
  lt_deadline :: u64

type_synonym LockState = "Holder list"

record LockCoordinator =
  locks :: "(bytes \<times> LockState) list"
  next_fence_by_key :: "(bytes \<times> u64) list"
  applied_fence_by_key :: "(bytes \<times> u64) list"

definition coordinator_default :: LockCoordinator where
  "coordinator_default = \<lparr>locks = [], next_fence_by_key = [], applied_fence_by_key = []\<rparr>"

definition unwrap_or :: "'a \<Rightarrow> 'a option \<Rightarrow> 'a" where
  "unwrap_or d x = (case x of None \<Rightarrow> d | Some y \<Rightarrow> y)"

abbreviation holders_of :: "LockCoordinator \<Rightarrow> bytes \<Rightarrow> LockState" where
  "holders_of c k \<equiv> unwrap_or [] (map_of (locks c) k)"

section \<open>Operations\<close>

definition validate_mode :: "LockMode \<Rightarrow> unit res" where
  "validate_mode m = (case m of
      Exclusive \<Rightarrow> Inr ()
    | Shared \<Rightarrow> Inr ()
    | Semaphore p cap \<Rightarrow> if p = 0 \<or> cap = 0 \<or> cap < p then Inl InvalidArgument else Inr ())"

definition token_for :: "bytes \<Rightarrow> Holder \<Rightarrow> LockToken" where
  "token_for k h = \<lparr>lt_key = k, lt_owner = h_owner h, lt_mode = h_mode h, lt_fence = h_fence h,
     lt_deadline = h_deadline h\<rparr>"

text \<open>Removing a key whose last holder went away, the end of three operations.\<close>

definition drop_empty :: "LockCoordinator \<Rightarrow> bytes \<Rightarrow> LockCoordinator" where
  "drop_empty c k = (if map_of (locks c) k = Some [] then c\<lparr>locks := bt_remove k (locks c)\<rparr> else c)"

definition retain_holders :: "(Holder \<Rightarrow> bool) \<Rightarrow> LockCoordinator \<Rightarrow> bytes \<Rightarrow> LockCoordinator" where
  "retain_holders P c k = drop_empty (case map_of (locks c) k of
      Some hs \<Rightarrow> c\<lparr>locks := bt_insert k (filter P hs) (locks c)\<rparr>
    | None \<Rightarrow> c) k"

definition expire_key :: "LockCoordinator \<Rightarrow> bytes \<Rightarrow> u64 \<Rightarrow> LockCoordinator" where
  "expire_key c k now = retain_holders (\<lambda>h. now < h_deadline h) c k"

definition token_matches :: "LockToken \<Rightarrow> Holder \<Rightarrow> bool" where
  "token_matches t h = (h_owner h = lt_owner t \<and> h_mode h = lt_mode t \<and> h_fence h = lt_fence t)"

definition remove_holder :: "LockCoordinator \<Rightarrow> LockToken \<Rightarrow> LockCoordinator" where
  "remove_holder c t = retain_holders (\<lambda>h. h_owner h \<noteq> lt_owner t \<or> h_mode h \<noteq> lt_mode t \<or> h_fence h \<noteq> lt_fence t) c (lt_key t)"

fun sem_used :: "u32 \<Rightarrow> u32 \<Rightarrow> Holder list \<Rightarrow> u32 option" where
  "sem_used cap used [] = Some used"
| "sem_used cap used (h # hs) = (case h_mode h of
      Semaphore held held_cap \<Rightarrow>
        if held_cap \<noteq> cap then None
        else (case checked_add used held of Some u \<Rightarrow> sem_used cap u hs | None \<Rightarrow> None)
    | _ \<Rightarrow> None)"

definition compatible :: "LockCoordinator \<Rightarrow> bytes \<Rightarrow> LockMode \<Rightarrow> bool" where
  "compatible c k requested = (case map_of (locks c) k of
      None \<Rightarrow> True
    | Some hs \<Rightarrow> (case requested of
        Exclusive \<Rightarrow> hs = []
      | Shared \<Rightarrow> list_all (\<lambda>h. h_mode h = Shared) hs
      | Semaphore p cap \<Rightarrow> (case sem_used cap 0 hs of
            None \<Rightarrow> False
          | Some used \<Rightarrow> (case checked_add used p of Some tot \<Rightarrow> tot \<le> cap | None \<Rightarrow> False))))"

definition issue_fence :: "LockCoordinator \<Rightarrow> bytes \<Rightarrow> Fence \<times> LockCoordinator" where
  "issue_fence c k =
    (let counter = saturating_add (unwrap_or 0 (map_of (next_fence_by_key c) k)) 1
     in (fence_embedded counter, c\<lparr>next_fence_by_key := bt_insert k counter (next_fence_by_key c)\<rparr>))"

definition find_holder :: "LockCoordinator \<Rightarrow> bytes \<Rightarrow> (Holder \<Rightarrow> bool) \<Rightarrow> nat option" where
  "find_holder c k P = (case map_of (locks c) k of None \<Rightarrow> None | Some hs \<Rightarrow> position P hs)"

definition set_holder :: "LockCoordinator \<Rightarrow> bytes \<Rightarrow> nat \<Rightarrow> Holder \<Rightarrow> LockCoordinator" where
  "set_holder c k i h = c\<lparr>locks := bt_insert k ((holders_of c k)[i := h]) (locks c)\<rparr>"

definition push_holder :: "LockCoordinator \<Rightarrow> bytes \<Rightarrow> Holder \<Rightarrow> LockCoordinator" where
  "push_holder c k h = c\<lparr>locks := bt_insert k (holders_of c k @ [h]) (locks c)\<rparr>"

definition try_acquire :: "LockCoordinator \<Rightarrow> bytes \<Rightarrow> LockOwner \<Rightarrow> LockMode \<Rightarrow> u64 \<Rightarrow> u64
    \<Rightarrow> LockToken res \<times> LockCoordinator" where
  "try_acquire c k owner mode lease now = (case validate_mode mode of
      Inl e \<Rightarrow> (Inl e, c)
    | Inr _ \<Rightarrow>
      if lease = 0 then (Inl InvalidArgument, c)
      else let c1 = expire_key c k now in (case checked_add now lease of
          None \<Rightarrow> (Inl InvalidArgument, c1)
        | Some deadline \<Rightarrow> (case find_holder c1 k (\<lambda>h. h_owner h = owner) of
            Some i \<Rightarrow> (let h = holders_of c1 k ! i in
              if h_mode h \<noteq> mode then (Inl Locked, c1)
              else (case checked_add (h_reentrancy h) 1 of
                  None \<Rightarrow> (Inl InvalidArgument, c1)
                | Some r \<Rightarrow> let h' = h\<lparr>h_reentrancy := r, h_deadline := deadline\<rparr>
                            in (Inr (token_for k h'), set_holder c1 k i h')))
          | None \<Rightarrow>
              if \<not> compatible c1 k mode then (Inl Locked, c1)
              else (case issue_fence c1 k of (fence, c2) \<Rightarrow>
                let h = \<lparr>h_owner = owner, h_mode = mode, h_fence = fence, h_deadline = deadline, h_reentrancy = 1\<rparr>
                in (Inr (token_for k h), push_holder c2 k h)))))"

definition refresh :: "LockCoordinator \<Rightarrow> LockToken \<Rightarrow> u64 \<Rightarrow> u64 \<Rightarrow> LockToken res \<times> LockCoordinator" where
  "refresh c t lease now =
    (if lease = 0 then (Inl InvalidArgument, c)
     else (case checked_add now lease of
        None \<Rightarrow> (Inl InvalidArgument, c)
      | Some deadline \<Rightarrow> (case find_holder c (lt_key t) (token_matches t) of
          None \<Rightarrow> (Inl LockNotHeld, c)
        | Some i \<Rightarrow> (let h = holders_of c (lt_key t) ! i in
            if h_deadline h \<le> now then (Inl LockLeaseExpired, remove_holder c t)
            else let h' = h\<lparr>h_deadline := deadline\<rparr>
                 in (Inr (token_for (lt_key t) h'), set_holder c (lt_key t) i h')))))"

definition release :: "LockCoordinator \<Rightarrow> LockToken \<Rightarrow> u64 \<Rightarrow> unit res \<times> LockCoordinator" where
  "release c t now = (case find_holder c (lt_key t) (token_matches t) of
      None \<Rightarrow> (Inl LockNotHeld, c)
    | Some i \<Rightarrow> (let h = holders_of c (lt_key t) ! i in
        if h_deadline h \<le> now then (Inl LockLeaseExpired, remove_holder c t)
        else if 1 < h_reentrancy h
          then (Inr (), set_holder c (lt_key t) i (h\<lparr>h_reentrancy := h_reentrancy h - 1\<rparr>))
        else (Inr (), remove_holder c t)))"

definition break_key :: "LockCoordinator \<Rightarrow> bytes \<Rightarrow> u64 \<Rightarrow> nat \<times> LockCoordinator" where
  "break_key c k now =
    (let c1 = expire_key c k now
     in (length (holders_of c1 k), c1\<lparr>locks := bt_remove k (locks c1)\<rparr>))"

definition release_owner_key :: "LockOwner \<Rightarrow> u64 \<Rightarrow> bytes \<Rightarrow> nat \<times> LockCoordinator \<Rightarrow> nat \<times> LockCoordinator" where
  "release_owner_key owner now k st = (case st of (removed, c) \<Rightarrow>
    let c1 = expire_key c k now;
        gone = length (holders_of c1 k) - length (filter (\<lambda>h. h_owner h \<noteq> owner) (holders_of c1 k))
    in (removed + gone, retain_holders (\<lambda>h. h_owner h \<noteq> owner) c1 k))"

definition release_owner :: "LockCoordinator \<Rightarrow> LockOwner \<Rightarrow> u64 \<Rightarrow> nat \<times> LockCoordinator" where
  "release_owner c owner now = fold (release_owner_key owner now) (map fst (locks c)) (0, c)"

definition apply_fence :: "LockCoordinator \<Rightarrow> bytes \<Rightarrow> Fence \<Rightarrow> unit res \<times> LockCoordinator" where
  "apply_fence c k fence = (case embedded_sequence fence of
      None \<Rightarrow> (Inl InvalidArgument, c)
    | Some sq \<Rightarrow>
        if sq < unwrap_or 0 (map_of (applied_fence_by_key c) k) then (Inl FencingStale, c)
        else (Inr (), c\<lparr>applied_fence_by_key := bt_insert k sq (applied_fence_by_key c)\<rparr>))"

definition apply_fenced_write :: "LockCoordinator \<Rightarrow> LockToken \<Rightarrow> u64 \<Rightarrow> unit res \<times> LockCoordinator" where
  "apply_fenced_write c t now = (case find_holder c (lt_key t) (token_matches t) of
      None \<Rightarrow> (Inl LockNotHeld, c)
    | Some i \<Rightarrow>
        if h_deadline (holders_of c (lt_key t) ! i) \<le> now then (Inl LockLeaseExpired, remove_holder c t)
        else apply_fence c (lt_key t) (lt_fence t))"

definition applied_fence :: "LockCoordinator \<Rightarrow> bytes \<Rightarrow> Fence option" where
  "applied_fence c k = map_option fence_embedded (map_of (applied_fence_by_key c) k)"

definition earliest_live_lease_deadline :: "LockCoordinator \<Rightarrow> bytes \<Rightarrow> u64 \<Rightarrow> u64 option" where
  "earliest_live_lease_deadline c k now = (case map_of (locks c) k of
      None \<Rightarrow> None
    | Some hs \<Rightarrow> (case filter (\<lambda>d. now < d) (map h_deadline hs) of [] \<Rightarrow> None | d # ds \<Rightarrow> Some (fold min ds d)))"

definition fence_counters :: "LockCoordinator \<Rightarrow> (bytes \<times> u64) list" where
  "fence_counters c = next_fence_by_key c"

definition applied_fences :: "LockCoordinator \<Rightarrow> (bytes \<times> u64) list" where
  "applied_fences c = applied_fence_by_key c"

definition collect_map :: "(bytes \<times> u64) list \<Rightarrow> (bytes \<times> u64) list" where
  "collect_map xs = fold (\<lambda>(k, v). bt_insert k v) xs []"

definition restore_fences :: "(bytes \<times> u64) list \<Rightarrow> (bytes \<times> u64) list \<Rightarrow> LockCoordinator" where
  "restore_fences nexts applieds =
    \<lparr>locks = [], next_fence_by_key = collect_map nexts, applied_fence_by_key = collect_map applieds\<rparr>"

section \<open>The invariant\<close>

definition modes_ok :: "LockMode list \<Rightarrow> bool" where
  "modes_ok ms \<longleftrightarrow> ms = [Exclusive] \<or> (\<forall>m \<in> set ms. m = Shared)
     \<or> (\<exists>cap. (\<forall>m \<in> set ms. \<exists>p. m = Semaphore p cap) \<and> sum_list (map (\<lambda>m. unat (permits m)) ms) \<le> unat cap)"

definition holder_ok :: "u64 \<Rightarrow> Holder \<Rightarrow> bool" where
  "holder_ok n h \<longleftrightarrow> is_embedded (h_fence h) \<and> 0 < sequence (h_fence h) \<and> sequence (h_fence h) \<le> n
     \<and> h_reentrancy h \<noteq> 0 \<and> validate_mode (h_mode h) = Inr ()"

definition state_ok :: "u64 \<Rightarrow> LockState \<Rightarrow> bool" where
  "state_ok n hs \<longleftrightarrow> hs \<noteq> [] \<and> distinct (map h_owner hs) \<and> modes_ok (map h_mode hs) \<and> (\<forall>h \<in> set hs. holder_ok n h)"

abbreviation issued :: "LockCoordinator \<Rightarrow> bytes \<Rightarrow> u64" where
  "issued c k \<equiv> unwrap_or 0 (map_of (next_fence_by_key c) k)"

abbreviation high_water :: "LockCoordinator \<Rightarrow> bytes \<Rightarrow> u64" where
  "high_water c k \<equiv> unwrap_or 0 (map_of (applied_fence_by_key c) k)"

definition lock_inv :: "LockCoordinator \<Rightarrow> bool" where
  "lock_inv c \<longleftrightarrow> bt_sorted (locks c) \<and> bt_sorted (next_fence_by_key c) \<and> bt_sorted (applied_fence_by_key c)
     \<and> (\<forall>k hs. map_of (locks c) k = Some hs \<longrightarrow> state_ok (issued c k) hs)"

lemma unwrap_or_simps [simp]: "unwrap_or d None = d" "unwrap_or d (Some x) = x"
  by (simp_all add: unwrap_or_def)

lemma modes_ok_filter: "modes_ok (map h_mode (hs :: LockState)) \<Longrightarrow> modes_ok (map h_mode (filter P hs))"
proof -
  assume m: "modes_ok (map h_mode hs)"
  have le: "sum_list (map f (filter P hs)) \<le> sum_list (map f hs)" for f :: "Holder \<Rightarrow> nat"
    by (induction hs) auto
  from m consider "map h_mode hs = [Exclusive]" | "\<forall>m \<in> set (map h_mode hs). m = Shared"
    | cap where "\<forall>m \<in> set (map h_mode hs). \<exists>p. m = Semaphore p cap"
        "sum_list (map (\<lambda>h. unat (permits (h_mode h))) hs) \<le> unat cap"
    by (auto simp: modes_ok_def comp_def)
  then show ?thesis
  proof cases
    case 1
    then obtain h where "hs = [h]" "h_mode h = Exclusive" by auto
    then show ?thesis by (cases "P h") (auto simp: modes_ok_def)
  next
    case 2
    then show ?thesis by (auto simp: modes_ok_def)
  next
    case 3
    then have "\<forall>m \<in> set (map h_mode (filter P hs)). \<exists>p. m = Semaphore p cap"
      "sum_list (map (\<lambda>m. unat (permits m)) (map h_mode (filter P hs))) \<le> unat cap"
      using order_trans [OF le 3(2)] by (auto simp: comp_def)
    then show ?thesis unfolding modes_ok_def by blast
  qed
qed

lemma state_ok_filter: "state_ok n hs \<Longrightarrow> filter P hs \<noteq> [] \<Longrightarrow> state_ok n (filter P hs)"
  by (auto simp: state_ok_def modes_ok_filter distinct_map_filter)

lemma holder_ok_mono: "holder_ok n h \<Longrightarrow> n \<le> n' \<Longrightarrow> holder_ok n' h"
  by (auto simp: holder_ok_def)

lemma state_ok_update:
  assumes "state_ok n hs" and "i < length hs" and "h_owner h = h_owner (hs ! i)" and "h_mode h = h_mode (hs ! i)"
    and "h_fence h = h_fence (hs ! i)" and "h_reentrancy h \<noteq> 0"
  shows "state_ok n (hs[i := h])"
proof -
  have "map h_owner (hs[i := h]) = map h_owner hs" "map h_mode (hs[i := h]) = map h_mode hs"
    using assms(2-4) by (metis list_update_id map_update nth_map)+
  moreover have "holder_ok n h" using assms by (auto simp: state_ok_def holder_ok_def)
  ultimately show ?thesis using assms(1) set_update_subset_insert [of hs i h] by (auto simp: state_ok_def)
qed

lemma sem_used_Some:
  "sem_used cap used hs = Some u \<Longrightarrow>
    (\<forall>h \<in> set hs. \<exists>p. h_mode h = Semaphore p cap) \<and> unat u = unat used + sum_list (map (\<lambda>h. unat (permits (h_mode h))) hs)"
proof (induction hs arbitrary: used)
  case (Cons h hs)
  then obtain p u1 where "h_mode h = Semaphore p cap" "checked_add used p = Some u1" "sem_used cap u1 hs = Some u"
    by (auto split: LockMode.splits if_splits option.splits)
  with Cons.IH [of u1] checked_add_SomeD(2) [of used p u1] show ?case by auto
qed simp

lemma compatible_modes:
  assumes "compatible c k m" and "map_of (locks c) k = Some hs \<Longrightarrow> modes_ok (map h_mode hs)" and "validate_mode m = Inr ()"
  shows "modes_ok (map h_mode (holders_of c k) @ [m])"
proof (cases m)
  case Exclusive
  with assms(1) show ?thesis by (auto simp: compatible_def modes_ok_def split: option.splits)
next
  case Shared
  with assms(1) show ?thesis by (auto simp: compatible_def modes_ok_def list_all_iff split: option.splits)
next
  case (Semaphore p cap)
  have p: "unat p \<le> unat cap" using assms(3) by (auto simp: Semaphore validate_mode_def word_less_nat_alt split: if_splits)
  show ?thesis
  proof (cases "map_of (locks c) k")
    case None
    then show ?thesis using p by (auto simp: modes_ok_def Semaphore)
  next
    case (Some hs)
    from assms(1) obtain used tot where u: "sem_used cap 0 hs = Some used" "checked_add used p = Some tot" "tot \<le> cap"
      by (auto simp: compatible_def Semaphore Some split: option.splits)
    note s = sem_used_Some [OF u(1)]
    have "sum_list (map (\<lambda>h. unat (permits (h_mode h))) hs) + unat p \<le> unat cap"
      using s u(3) checked_add_SomeD(2) [OF u(2)] by (simp add: word_le_nat_alt)
    with s have "(\<forall>x \<in> set (map h_mode hs @ [m]). \<exists>p. x = Semaphore p cap)
        \<and> sum_list (map (\<lambda>m. unat (permits m)) (map h_mode hs @ [m])) \<le> unat cap"
      by (auto simp: Semaphore comp_def)
    then show ?thesis unfolding modes_ok_def by (auto simp: Some)
  qed
qed

lemma locks_retain:
  "map_of (locks (retain_holders P c k)) = (map_of (locks c))(k :=
     (case map_of (locks c) k of None \<Rightarrow> None | Some hs \<Rightarrow> if filter P hs = [] then None else Some (filter P hs)))"
  by (auto simp: retain_holders_def drop_empty_def map_of_bt_insert map_of_bt_remove fun_eq_iff split: option.splits)

lemma retain_fields:
  "next_fence_by_key (retain_holders P c k) = next_fence_by_key c"
  "applied_fence_by_key (retain_holders P c k) = applied_fence_by_key c"
  "bt_sorted (locks c) \<Longrightarrow> bt_sorted (locks (retain_holders P c k))"
  by (auto simp: retain_holders_def drop_empty_def split: option.splits)

lemma lock_inv_retain: "lock_inv c \<Longrightarrow> lock_inv (retain_holders P c k)"
  by (auto simp: lock_inv_def retain_fields locks_retain state_ok_filter split: if_splits option.splits)

lemma lock_inv_put:
  assumes "lock_inv c" and "state_ok (issued c k) hs"
  shows "lock_inv (c\<lparr>locks := bt_insert k hs (locks c)\<rparr>)"
  using assms by (auto simp: lock_inv_def map_of_bt_insert)

lemma lock_inv_remove: "lock_inv c \<Longrightarrow> lock_inv (c\<lparr>locks := bt_remove k (locks c)\<rparr>)"
  by (auto simp: lock_inv_def map_of_bt_remove split: if_splits)

lemma find_holder_Some:
  assumes "find_holder c k P = Some i"
  shows "map_of (locks c) k = Some (holders_of c k)" and "i < length (holders_of c k)" and "P (holders_of c k ! i)"
  using assms position_Some by (auto simp: find_holder_def split: option.splits)

lemma find_holder_None: "find_holder c k P = None \<Longrightarrow> h \<in> set (holders_of c k) \<Longrightarrow> \<not> P h"
  by (cases "map_of (locks c) k") (auto simp: find_holder_def dest: position_None)

lemma lock_inv_set_holder:
  assumes "lock_inv c" and "find_holder c k P = Some i" and "h_owner h = h_owner (holders_of c k ! i)"
    and "h_mode h = h_mode (holders_of c k ! i)" and "h_fence h = h_fence (holders_of c k ! i)" and "h_reentrancy h \<noteq> 0"
  shows "lock_inv (set_holder c k i h)"
proof -
  note f = find_holder_Some [OF assms(2)]
  have "state_ok (issued c k) (holders_of c k)" using assms(1) f(1) by (simp add: lock_inv_def)
  from state_ok_update [OF this f(2) assms(3-6)] show ?thesis
    unfolding set_holder_def by (rule lock_inv_put [OF assms(1)])
qed

lemma lock_inv_holders: "lock_inv c \<Longrightarrow> map_of (locks c) k = Some hs \<Longrightarrow> state_ok (issued c k) hs"
  by (simp add: lock_inv_def)

lemma issue_fence_fields:
  assumes "issue_fence c k = (f, c')"
  shows "locks c' = locks c" and "applied_fence_by_key c' = applied_fence_by_key c"
    and "issued c' x = (if x = k then saturating_add (issued c k) 1 else issued c x)" and "f = fence_embedded (saturating_add (issued c k) 1)"
  using assms by (auto simp: issue_fence_def Let_def map_of_bt_insert fun_eq_iff)

lemma saturating_add_one_pos: "0 < saturating_add (a :: u64) 1"
  by (rule word_less_nat_alt [THEN iffD2]) (simp add: unat_saturating_add)

lemma lock_inv_issue_push:
  assumes inv: "lock_inv c" and iss: "issue_fence c k = (f, c2)" and comp: "compatible c k m" and v: "validate_mode m = Inr ()"
    and none: "find_holder c k (\<lambda>h. h_owner h = own) = None"
  shows "lock_inv (push_holder c2 k \<lparr>h_owner = own, h_mode = m, h_fence = f, h_deadline = dl, h_reentrancy = 1\<rparr>)"
proof -
  note i = issue_fence_fields [OF iss]
  let ?h = "\<lparr>h_owner = own, h_mode = m, h_fence = f, h_deadline = dl, h_reentrancy = 1\<rparr>"
  have srt: "bt_sorted (next_fence_by_key c2)" using inv iss by (auto simp: issue_fence_def Let_def lock_inv_def)
  have le: "issued c x \<le> issued c2 x" for x using saturating_add_ge [of "issued c k" 1] by (simp add: i(3))
  have ok: "state_ok (issued c2 x) hs" if "map_of (locks c) x = Some hs" for x hs
    using lock_inv_holders [OF inv that] holder_ok_mono [OF _ le [of x]] by (auto simp: state_ok_def)
  have inv2: "lock_inv c2" using inv srt ok i(1,2) by (simp add: lock_inv_def)
  have hs: "\<forall>h \<in> set (holders_of c k). holder_ok (issued c2 k) h" "distinct (map h_owner (holders_of c k))"
    using ok [of k] by (cases "map_of (locks c) k"; simp add: state_ok_def)+
  have "modes_ok (map h_mode (holders_of c k) @ [m])"
    using compatible_modes [OF comp _ v] lock_inv_holders [OF inv] by (simp add: state_ok_def)
  moreover have "holder_ok (issued c2 k) ?h"
    using v saturating_add_one_pos by (simp add: holder_ok_def i(3,4) fence_embedded_def is_embedded_def)
  moreover have "own \<notin> h_owner ` set (holders_of c k)" using find_holder_None [OF none] by auto
  ultimately have "state_ok (issued c2 k) (holders_of c k @ [?h])" using hs by (simp add: state_ok_def)
  then show ?thesis unfolding push_holder_def using lock_inv_put [OF inv2] i(1) by simp
qed

lemma lock_inv_reentrant:
  assumes "lock_inv c" and "find_holder c k P = Some i"
  shows "h_reentrancy (holders_of c k ! i) \<noteq> 0"
  using lock_inv_holders [OF assms(1) find_holder_Some(1) [OF assms(2)]] find_holder_Some(2) [OF assms(2)]
  by (auto simp: state_ok_def holder_ok_def)

lemma lock_inv_expire: "lock_inv c \<Longrightarrow> lock_inv (expire_key c k now)"
  by (simp add: expire_key_def lock_inv_retain)

lemma checked_add_one_nonzero: "checked_add (a :: u32) 1 = Some r \<Longrightarrow> r \<noteq> 0"
  using checked_add_SomeD(2) [of a 1 r] by (auto simp: word_unat_eq_iff)

lemma lock_inv_try_acquire:
  assumes "lock_inv c"
  shows "lock_inv (snd (try_acquire c k own m lease now))"
proof -
  note e = lock_inv_expire [OF assms, of k now]
  show ?thesis
    by (auto simp: try_acquire_def Let_def assms e split: sum.splits option.splits prod.splits
        intro!: lock_inv_set_holder [OF e] lock_inv_issue_push [OF e] dest: checked_add_one_nonzero)
qed

lemma lock_inv_refresh: "lock_inv c \<Longrightarrow> lock_inv (snd (refresh c t lease now))"
  by (auto simp: refresh_def Let_def remove_holder_def split: option.splits intro!: lock_inv_retain lock_inv_set_holder
      dest: lock_inv_reentrant)

lemma lock_inv_release: "lock_inv c \<Longrightarrow> lock_inv (snd (release c t now))"
  by (auto simp: release_def Let_def remove_holder_def split: option.splits intro!: lock_inv_retain lock_inv_set_holder)

lemma lock_inv_break_key: "lock_inv c \<Longrightarrow> lock_inv (snd (break_key c k now))"
  by (simp add: break_key_def Let_def lock_inv_remove lock_inv_expire)

lemma release_owner_fold:
  assumes "\<And>k st. P (snd st) \<Longrightarrow> P (snd (release_owner_key own now k st))" and "P (snd st)"
  shows "P (snd (fold (release_owner_key own now) ks st))"
  using assms by (induction ks arbitrary: st) simp_all

lemma lock_inv_release_owner: "lock_inv c \<Longrightarrow> lock_inv (snd (release_owner c own now))"
  unfolding release_owner_def
  by (rule release_owner_fold) (auto simp: release_owner_key_def Let_def lock_inv_retain lock_inv_expire split: prod.splits)

lemma lock_inv_apply_fence: "lock_inv c \<Longrightarrow> lock_inv (snd (apply_fence c k f))"
  by (auto simp: apply_fence_def lock_inv_def split: option.splits)

lemma lock_inv_apply_fenced_write: "lock_inv c \<Longrightarrow> lock_inv (snd (apply_fenced_write c t now))"
  by (auto simp: apply_fenced_write_def remove_holder_def split: option.splits intro!: lock_inv_retain lock_inv_apply_fence)

lemma collect_map_sorted:
  "bt_sorted xs \<Longrightarrow> collect_map xs = xs"
proof -
  have "bt_sorted (acc @ xs) \<Longrightarrow> fold (\<lambda>(k, v). bt_insert k v) xs acc = acc @ xs" for acc
  proof (induction xs arbitrary: acc)
    case (Cons x xs)
    obtain k v where x: "x = (k, v)" by force
    have "\<forall>a \<in> fst ` set acc. a < k" using Cons.prems by (auto simp: x bt_sorted_def sorted_wrt_append)
    then show ?case using Cons.IH [of "acc @ [x]"] Cons.prems by (simp add: x bt_insert_append)
  qed simp
  from this [of "[]"] show "bt_sorted xs \<Longrightarrow> collect_map xs = xs" by (simp add: collect_map_def)
qed

section \<open>Steps and reachable states\<close>

inductive lock_step :: "LockCoordinator \<Rightarrow> LockCoordinator \<Rightarrow> bool" where
  acquire: "lock_step c (snd (try_acquire c k own m lease now))"
| refresh: "lock_step c (snd (refresh c t lease now))"
| release: "lock_step c (snd (release c t now))"
| break_key: "lock_step c (snd (break_key c k now))"
| release_owner: "lock_step c (snd (release_owner c own now))"
| apply_fence: "lock_step c (snd (apply_fence c k f))"
| fenced_write: "lock_step c (snd (apply_fenced_write c t now))"
| restart: "lock_step c (restore_fences (fence_counters c) (applied_fences c))"

abbreviation lock_steps :: "LockCoordinator \<Rightarrow> LockCoordinator \<Rightarrow> bool" where
  "lock_steps \<equiv> lock_step\<^sup>*\<^sup>*"

definition lock_reachable :: "LockCoordinator \<Rightarrow> bool" where
  "lock_reachable c = lock_steps coordinator_default c"

lemma lock_step_inv: "lock_step c c' \<Longrightarrow> lock_inv c \<Longrightarrow> lock_inv c'"
proof (induction rule: lock_step.induct)
  case (restart c)
  then show ?case by (simp add: restore_fences_def fence_counters_def applied_fences_def lock_inv_def collect_map_sorted)
qed (simp_all add: lock_inv_try_acquire lock_inv_refresh lock_inv_release lock_inv_break_key lock_inv_release_owner
    lock_inv_apply_fence lock_inv_apply_fenced_write)

lemma lock_steps_inv: "lock_steps c c' \<Longrightarrow> lock_inv c \<Longrightarrow> lock_inv c'"
  by (induction rule: rtranclp_induct) (auto intro: lock_step_inv)

lemma lock_reachable_inv: "lock_reachable c \<Longrightarrow> lock_inv c"
  unfolding lock_reachable_def by (erule lock_steps_inv) (simp add: lock_inv_def coordinator_default_def)

lemmas retain_counters = retain_fields(1,2)
lemmas op_counters = expire_key_def remove_holder_def set_holder_def push_holder_def retain_counters

lemma release_owner_counters:
  "next_fence_by_key (snd (release_owner c own now)) = next_fence_by_key c"
  "applied_fence_by_key (snd (release_owner c own now)) = applied_fence_by_key c"
  unfolding release_owner_def
  by (rule release_owner_fold [where P = "\<lambda>x. next_fence_by_key x = next_fence_by_key c"];
      auto simp: release_owner_key_def Let_def op_counters split: prod.splits)
    (rule release_owner_fold [where P = "\<lambda>x. applied_fence_by_key x = applied_fence_by_key c"];
      auto simp: release_owner_key_def Let_def op_counters split: prod.splits)

lemma try_acquire_counters:
  "issued c x \<le> issued (snd (try_acquire c k own m lease now)) x"
  "applied_fence_by_key (snd (try_acquire c k own m lease now)) = applied_fence_by_key c"
proof -
  show "issued c x \<le> issued (snd (try_acquire c k own m lease now)) x"
    by (auto simp: try_acquire_def Let_def op_counters issue_fence_def map_of_bt_insert saturating_add_ge
        split: sum.splits option.splits)
  show "applied_fence_by_key (snd (try_acquire c k own m lease now)) = applied_fence_by_key c"
    by (auto simp: try_acquire_def Let_def op_counters issue_fence_def split: sum.splits option.splits)
qed

lemma lock_step_counters:
  assumes "lock_step c c'" and "lock_inv c"
  shows "issued c k \<le> issued c' k \<and> high_water c k \<le> high_water c' k"
  using assms
proof (induction rule: lock_step.induct)
  case (acquire c k own m lease now)
  then show ?case by (simp add: try_acquire_counters)
next
  case (release_owner c own now)
  then show ?case by (simp add: release_owner_counters)
next
  case (restart c)
  then show ?case by (simp add: restore_fences_def fence_counters_def applied_fences_def collect_map_sorted lock_inv_def)
qed (auto simp: refresh_def release_def break_key_def apply_fence_def apply_fenced_write_def Let_def op_counters
    map_of_bt_insert not_less split: option.splits)

lemma lock_steps_counters:
  "lock_steps c c' \<Longrightarrow> lock_inv c \<Longrightarrow> issued c k \<le> issued c' k \<and> high_water c k \<le> high_water c' k"
proof (induction rule: rtranclp_induct)
  case (step c' c'')
  with lock_steps_inv have "lock_inv c'" by blast
  with step lock_step_counters [of c' c'' k] show ?case by force
qed simp

lemma saturating_add_one_less: "(a :: u64) \<noteq> - 1 \<Longrightarrow> a < saturating_add a 1"
proof -
  assume "a \<noteq> - 1"
  then have "unat a \<noteq> unat (- 1 :: u64)" by (simp only: word_unat_eq_iff simp_thms)
  then have "unat a < 2 ^ 64 - 1" using unat_bound [of a] unfolding unat_max by simp
  then show ?thesis by (simp add: word_less_nat_alt unat_saturating_add)
qed

lemma try_acquire_fresh:
  assumes "try_acquire c k own m lease now = (Inr t, c')"
    and "find_holder (expire_key c k now) k (\<lambda>h. h_owner h = own) = None"
  shows "lt_fence t = fence_embedded (saturating_add (issued c k) 1)"
  using assms by (auto simp: try_acquire_def Let_def issue_fence_def token_for_def expire_key_def retain_counters
      split: sum.splits option.splits if_splits)

lemma try_acquire_holder:
  assumes "try_acquire c k own m lease now = (Inr t, c')"
  shows "\<exists>h hs. map_of (locks c') k = Some hs \<and> h \<in> set hs \<and> t = token_for k h"
proof (cases "find_holder (expire_key c k now) k (\<lambda>h. h_owner h = own)")
  case None
  with assms show ?thesis
    by (auto simp: try_acquire_def Let_def issue_fence_def push_holder_def map_of_bt_insert split: sum.splits option.splits if_splits)
next
  case (Some i)
  note mem = set_update_memI [OF find_holder_Some(2) [OF Some]]
  from Some assms obtain h' where "t = token_for k h'" "c' = set_holder (expire_key c k now) k i h'"
    by (auto simp: try_acquire_def Let_def split: sum.splits option.splits if_splits)
  then show ?thesis using mem by (auto simp: set_holder_def map_of_bt_insert)
qed

interpretation lock_fences: fence_register apply_fence "\<lambda>c k. high_water c k" embedded_sequence lock_step lock_inv
proof unfold_locales
  fix c c' :: LockCoordinator and k f r
  show "lock_inv c'" if "lock_inv c" "apply_fence c k f = (r, c')"
    using lock_inv_apply_fence [OF that(1), of k f] that(2) by simp
  show "high_water c k \<le> high_water c' k" if "lock_inv c" "lock_step c c'"
    using lock_step_counters [OF that(2,1), of k] by simp
  show "lock_inv c'" if "lock_inv c" "lock_step c c'" using lock_step_inv [OF that(2,1)] .
qed (auto simp: apply_fence_def map_of_bt_insert split: option.splits if_splits)

section \<open>Properties of the coordinator\<close>

text \<open>C6: In every reachable state an exclusive holder is alone on its key, shared holders share only with
  shared holders, and the permits of the semaphore holders of a key add up to at most the one capacity they
  all name; no owner holds a key twice.\<close>

theorem lock_mutual_exclusion:
  assumes "lock_reachable c" and "map_of (locks c) k = Some hs" and "h \<in> set hs"
  shows "(case h_mode h of
      Exclusive \<Rightarrow> hs = [h]
    | Shared \<Rightarrow> \<forall>g \<in> set hs. h_mode g = Shared
    | Semaphore p cap \<Rightarrow> (\<forall>g \<in> set hs. \<exists>q. h_mode g = Semaphore q cap)
        \<and> sum_list (map (\<lambda>g. unat (permits (h_mode g))) hs) \<le> unat cap) \<and> distinct (map h_owner hs)"
proof -
  have ok: "state_ok (issued c k) hs" using lock_inv_holders [OF lock_reachable_inv [OF assms(1)] assms(2)] .
  then have m: "modes_ok (map h_mode hs)" and d: "distinct (map h_owner hs)" by (simp_all add: state_ok_def)
  show ?thesis
  proof (cases "h_mode h")
    case Exclusive
    with m assms(3) show ?thesis using d by (auto simp: modes_ok_def map_eq_Cons_conv)
  next
    case Shared
    with m assms(3) show ?thesis using d by (auto simp: modes_ok_def)
  next
    case (Semaphore p cap)
    have "\<not> map h_mode hs = [Exclusive]" "\<not> (\<forall>m \<in> set (map h_mode hs). m = Shared)"
      using Semaphore assms(3) by (auto simp: map_eq_Cons_conv intro!: bexI [of _ h])
    with m obtain cap' where c: "\<forall>m \<in> set (map h_mode hs). \<exists>p. m = Semaphore p cap'"
        "sum_list (map (\<lambda>m. unat (permits m)) (map h_mode hs)) \<le> unat cap'"
      unfolding modes_ok_def by blast
    have "cap' = cap" using c(1) assms(3) Semaphore by fastforce
    with c d Semaphore show ?thesis by (simp add: comp_def)
  qed
qed

definition lock_example :: LockCoordinator where
  "lock_example = snd (try_acquire coordinator_default [1] \<lparr>lo_principal = [2], lo_session = [3]\<rparr> Exclusive 10 100)"

lemma lock_example_reachable: "lock_reachable lock_example"
  unfolding lock_reachable_def lock_example_def by (rule r_into_rtranclp) (rule lock_step.acquire)

definition example_holder :: Holder where
  "example_holder = \<lparr>h_owner = \<lparr>lo_principal = [2], lo_session = [3]\<rparr>, h_mode = Exclusive, h_fence = Fence 0 0 1,
     h_deadline = 110, h_reentrancy = 1\<rparr>"

lemmas try_acquire_eval = try_acquire_def validate_mode_def expire_key_def retain_holders_def drop_empty_def
  checked_add_def find_holder_def compatible_def issue_fence_def push_holder_def saturating_add_def fence_embedded_def
  EMBEDDED_AUTHORITY_def EMBEDDED_EPOCH_def coordinator_default_def Let_def

lemma lock_example_eval: "lock_example = \<lparr>locks = [([1], [example_holder])], next_fence_by_key = [([1], 1)], applied_fence_by_key = []\<rparr>"
  by (simp add: lock_example_def example_holder_def try_acquire_eval)

theorem lock_mutual_exclusion_witness:
  "map_of (locks lock_example) [1] = Some [example_holder] \<and> h_mode example_holder = Exclusive"
proof -
  have "map_of (locks lock_example) [1] = Some [example_holder]" by (simp add: lock_example_eval)
  with lock_mutual_exclusion [OF lock_example_reachable this, of example_holder] show ?thesis
    by (simp add: example_holder_def)
qed

text \<open>C25: A fresh acquisition of a key carries a fence greater than every fence issued for that key before,
  over any sequence of operations and restarts in between, as long as the 64-bit counter of the key is not
  exhausted.\<close>

theorem lock_fence_order:
  assumes "lock_reachable c" and "try_acquire c k o1 m1 l1 n1 = (Inr t1, c1)" and "lock_steps c1 c2"
    and "try_acquire c2 k o2 m2 l2 n2 = (Inr t2, c3)"
    and "find_holder (expire_key c2 k n2) k (\<lambda>h. h_owner h = o2) = None" and "issued c2 k \<noteq> - 1"
  shows "lt_fence t1 < lt_fence t2"
proof -
  have inv1: "lock_inv c1" using lock_inv_try_acquire [OF lock_reachable_inv [OF assms(1)], of k o1 m1 l1 n1] assms(2) by simp
  obtain h hs where h: "map_of (locks c1) k = Some hs" "h \<in> set hs" "t1 = token_for k h"
    using try_acquire_holder [OF assms(2)] by blast
  have t1: "is_embedded (lt_fence t1)" "sequence (lt_fence t1) \<le> issued c1 k"
    using lock_inv_holders [OF inv1 h(1)] h(2,3) by (auto simp: state_ok_def holder_ok_def token_for_def)
  have "issued c1 k \<le> issued c2 k" using lock_steps_counters [OF assms(3) inv1] by blast
  moreover have "lt_fence t2 = fence_embedded (saturating_add (issued c2 k) 1)"
    using try_acquire_fresh [OF assms(4,5)] .
  moreover have "issued c2 k < saturating_add (issued c2 k) 1" using assms(6) by (rule saturating_add_one_less)
  ultimately show ?thesis using t1
    by (cases "lt_fence t1") (auto simp: less_Fence_def fence_embedded_def is_embedded_def)
qed

definition fence_run :: "LockToken res \<times> LockCoordinator" where
  "fence_run = try_acquire lock_example [1] \<lparr>lo_principal = [4], lo_session = [5]\<rparr> Exclusive 10 200"

lemma fence_run_eval:
  "fence_run = (Inr \<lparr>lt_key = [1], lt_owner = \<lparr>lo_principal = [4], lo_session = [5]\<rparr>, lt_mode = Exclusive,
     lt_fence = Fence 0 0 2, lt_deadline = 210\<rparr>, snd fence_run)"
  by (simp add: fence_run_def lock_example_eval example_holder_def try_acquire_eval bt_remove_def token_for_def)

theorem lock_fence_order_witness:
  "\<exists>t1. try_acquire coordinator_default [1] \<lparr>lo_principal = [2], lo_session = [3]\<rparr> Exclusive 10 100 = (Inr t1, lock_example)
     \<and> lt_fence t1 < Fence 0 0 2"
proof -
  obtain t1 where t1: "try_acquire coordinator_default [1] \<lparr>lo_principal = [2], lo_session = [3]\<rparr> Exclusive 10 100 = (Inr t1, lock_example)"
    by (simp add: lock_example_eval example_holder_def try_acquire_eval token_for_def)
  have r: "lock_reachable coordinator_default" by (simp add: lock_reachable_def)
  have n: "find_holder (expire_key lock_example [1] 200) [1] (\<lambda>h. h_owner h = \<lparr>lo_principal = [4], lo_session = [5]\<rparr>) = None"
    by (simp add: lock_example_eval example_holder_def try_acquire_eval bt_remove_def)
  have i: "issued lock_example [1] \<noteq> - 1" by (simp add: lock_example_eval)
  from lock_fence_order [OF r t1 rtranclp.rtrancl_refl fence_run_eval [unfolded fence_run_def] n i] t1 show ?thesis by simp
qed

text \<open>C26: A write that carries a fence below one already applied to its key is refused as stale and changes
  nothing, however many operations and restarts lie between the two writes.\<close>

theorem lock_stale_fence_rejected:
  assumes "lock_reachable c" and "apply_fence c k f2 = (Inr (), c1)" and "lock_steps c1 c2"
    and "is_embedded f1" and "f1 < f2"
  shows "apply_fence c2 k f1 = (Inl FencingStale, c2)"
proof -
  have f2: "is_embedded f2" using assms(2) by (auto simp: apply_fence_def embedded_sequence_def split: option.splits if_splits)
  then have "sequence f1 < sequence f2" using assms(4,5) by (auto simp: less_Fence_def is_embedded_def)
  with assms(4) f2 show ?thesis
    by (intro lock_fences.stale_after [OF lock_reachable_inv [OF assms(1)] assms(2,3)]) (simp_all add: embedded_sequence_def)
qed

theorem lock_stale_fence_rejected_witness:
  "apply_fence (snd (apply_fence coordinator_default [1] (Fence 0 0 2))) [1] (Fence 0 0 1)
     = (Inl FencingStale, snd (apply_fence coordinator_default [1] (Fence 0 0 2)))"
proof (rule lock_stale_fence_rejected [OF _ _ rtranclp.rtrancl_refl])
  show "lock_reachable coordinator_default" by (simp add: lock_reachable_def)
  show "apply_fence coordinator_default [1] (Fence 0 0 2) = (Inr (), snd (apply_fence coordinator_default [1] (Fence 0 0 2)))"
    by (simp add: apply_fence_def embedded_sequence_def is_embedded_def EMBEDDED_AUTHORITY_def EMBEDDED_EPOCH_def coordinator_default_def)
qed (simp_all add: is_embedded_def EMBEDDED_AUTHORITY_def EMBEDDED_EPOCH_def less_Fence_def)

text \<open>C27: A token whose lease has lapsed cannot be used any more: refresh, release and a fenced write answer that
  the lease expired, and each of them removes the holder, so the token is unknown afterwards.\<close>

theorem lock_expired_lease:
  assumes "find_holder c (lt_key t) (token_matches t) = Some i" and "h_deadline (holders_of c (lt_key t) ! i) \<le> now"
    and "lease \<noteq> 0" and "checked_add now lease = Some dl"
  shows "refresh c t lease now = (Inl LockLeaseExpired, remove_holder c t)
    \<and> release c t now = (Inl LockLeaseExpired, remove_holder c t)
    \<and> apply_fenced_write c t now = (Inl LockLeaseExpired, remove_holder c t)
    \<and> release (remove_holder c t) t now' = (Inl LockNotHeld, remove_holder c t)"
proof -
  have "find_holder (remove_holder c t) (lt_key t) (token_matches t) = None"
  proof (rule ccontr)
    assume "find_holder (remove_holder c t) (lt_key t) (token_matches t) \<noteq> None"
    then obtain j where j: "find_holder (remove_holder c t) (lt_key t) (token_matches t) = Some j" by blast
    let ?P = "\<lambda>h. h_owner h \<noteq> lt_owner t \<or> h_mode h \<noteq> lt_mode t \<or> h_fence h \<noteq> lt_fence t"
    have "\<forall>h \<in> set (holders_of (remove_holder c t) (lt_key t)). ?P h"
      by (auto simp: remove_holder_def locks_retain split: option.splits)
    with find_holder_Some(2,3) [OF j] show False by (auto simp: token_matches_def)
  qed
  with assms show ?thesis by (simp add: refresh_def release_def apply_fenced_write_def)
qed

theorem lock_expired_lease_witness:
  "release lock_example (token_for [1] example_holder) 110 = (Inl LockLeaseExpired, remove_holder lock_example (token_for [1] example_holder))"
proof -
  have "find_holder lock_example (lt_key (token_for [1] example_holder)) (token_matches (token_for [1] example_holder)) = Some 0"
    by (simp add: lock_example_eval find_holder_def position_def token_for_def token_matches_def)
  from lock_expired_lease [OF this, of 110 1 111] show ?thesis
    by (simp add: lock_example_eval token_for_def example_holder_def checked_add_def)
qed

text \<open>C28: A lock whose holders have all lapsed does not block anyone: a valid request with a lease whose deadline
  fits in 64 bits is granted, the requester becomes the only holder and its fence is the next one of the key.\<close>

theorem lock_lapsed_is_granted:
  assumes "\<forall>h \<in> set (holders_of c k). h_deadline h \<le> now" and "validate_mode m = Inr ()" and "lease \<noteq> 0"
    and "checked_add now lease = Some dl"
  shows "\<exists>t c'. try_acquire c k own m lease now = (Inr t, c') \<and> lt_owner t = own \<and> lt_deadline t = dl
    \<and> lt_fence t = fence_embedded (saturating_add (issued c k) 1)
    \<and> (\<exists>h. map_of (locks c') k = Some [h] \<and> token_matches t h)"
proof -
  have e: "map_of (locks (expire_key c k now)) k = None"
    using assms(1) by (auto simp: expire_key_def locks_retain filter_empty_conv not_less split: option.splits)
  then have "find_holder (expire_key c k now) k (\<lambda>h. h_owner h = own) = None" "compatible (expire_key c k now) k m"
    by (simp_all add: find_holder_def compatible_def)
  with e assms(2-4) show ?thesis
    by (simp add: try_acquire_def Let_def issue_fence_def push_holder_def map_of_bt_insert token_for_def token_matches_def
        expire_key_def retain_counters)
qed

theorem lock_lapsed_is_granted_witness:
  "\<exists>t c'. try_acquire lock_example [1] \<lparr>lo_principal = [4], lo_session = [5]\<rparr> Exclusive 10 200 = (Inr t, c')"
proof -
  have "\<forall>h \<in> set (holders_of lock_example [1]). h_deadline h \<le> 200"
    by (simp add: lock_example_eval example_holder_def)
  from lock_lapsed_is_granted [OF this, of Exclusive 10 210 "\<lparr>lo_principal = [4], lo_session = [5]\<rparr>"] show ?thesis
    by (auto simp: validate_mode_def checked_add_def)
qed

end
