(* ===== verification/Loom_Coordination.thy ===== *)
theory Loom_Coordination
  imports Loom_Fence "HOL-Library.Product_Lexorder"
begin

text \<open>
  The single-node coordinator of \<^verbatim>\<open>crates/loom-coordination/src/lib.rs\<close>: fence tokens, sequences, group
  generations, producer epochs and transactions, each a counter per scope. A counter that cannot be advanced
  fails, but the code has already made sure the entry exists, so the failing call still inserts a
  missing entry; with the initial values of the code that never happens at the maximum.

  Identifiers are validated text: not empty, no slash and no control character. A \<^verbatim>\<open>String\<close> is its UTF-8
  bytes; the control characters of Unicode are U+0000 to U+001F, U+007F and U+0080 to U+009F, which UTF-8
  writes as the byte itself or as C2 followed by 80 to 9F. The registry of process-wide write locks over file
  paths is not modelled.
\<close>

section \<open>Validated identifiers\<close>

fun has_forbidden :: "bytes \<Rightarrow> bool" where
  "has_forbidden [] = False"
| "has_forbidden (b # bs) = (b < 0x20 \<or> b = 0x2F \<or> b = 0x7F
     \<or> (b = 0xC2 \<and> (case bs of [] \<Rightarrow> False | c # _ \<Rightarrow> 0x80 \<le> c \<and> c \<le> 0x9F)) \<or> has_forbidden bs)"

definition validate_text :: "bytes \<Rightarrow> unit res" where
  "validate_text v = (if v = [] then Inl InvalidArgument else if has_forbidden v then Inl InvalidArgument else Inr ())"

type_synonym AuthorityId = bytes
type_synonym ActorId = bytes
type_synonym ProducerIdentity = bytes
type_synonym TransactionIdentity = bytes
type_synonym CoordinationScope = "bytes list"

definition authority_id_new :: "bytes \<Rightarrow> AuthorityId res" where
  "authority_id_new v = rbind (validate_text v) (\<lambda>_. Inr v)"

definition authority_epoch_new :: "u64 \<Rightarrow> u64 res" where
  "authority_epoch_new v = (if v = 0 then Inl InvalidArgument else Inr v)"

definition scope_new :: "bytes list \<Rightarrow> CoordinationScope res" where
  "scope_new parts = (if parts = [] then Inl InvalidArgument
     else rbind (rmap validate_text parts) (\<lambda>_. Inr parts))"

definition actor_id_new :: "bytes \<Rightarrow> ActorId res" where
  "actor_id_new v = rbind (validate_text v) (\<lambda>_. Inr v)"

definition producer_identity_new :: "bytes \<Rightarrow> ProducerIdentity res" where
  "producer_identity_new v = rbind (validate_text v) (\<lambda>_. Inr v)"

definition transaction_identity_new :: "bytes \<Rightarrow> TransactionIdentity res" where
  "transaction_identity_new v = rbind (validate_text v) (\<lambda>_. Inr v)"

section \<open>State\<close>

datatype TransactionState = Active | Committed | Aborted

record TransactionRecord =
  tr_epoch :: u64
  tr_state :: TransactionState

record SingleNodeCoordinator =
  authority_id :: AuthorityId
  authority_epoch :: u64
  next_fence_by_scope :: "(CoordinationScope \<times> u128) list"
  applied_fence_by_actor :: "((CoordinationScope \<times> ActorId) \<times> u128) list"
  next_sequence_by_scope :: "(CoordinationScope \<times> u64) list"
  producer_epoch_by_key :: "((CoordinationScope \<times> ProducerIdentity) \<times> u64) list"
  group_generation_by_scope :: "(CoordinationScope \<times> u64) list"
  transaction_by_key :: "((CoordinationScope \<times> TransactionIdentity) \<times> TransactionRecord) list"

definition single_node_new :: "AuthorityId \<Rightarrow> u64 \<Rightarrow> SingleNodeCoordinator" where
  "single_node_new i e = \<lparr>authority_id = i, authority_epoch = e, next_fence_by_scope = [], applied_fence_by_actor = [],
     next_sequence_by_scope = [], producer_epoch_by_key = [], group_generation_by_scope = [], transaction_by_key = []\<rparr>"

section \<open>Counters\<close>

definition get_or :: "'v \<Rightarrow> ('k \<times> 'v) list \<Rightarrow> 'k \<Rightarrow> 'v" where
  "get_or d m k = (case map_of m k of None \<Rightarrow> d | Some v \<Rightarrow> v)"

text \<open>The entry is created with its initial value, its old value is the answer and it advances by one.\<close>

definition take_next :: "'v::len word \<Rightarrow> ('k::linorder \<times> 'v word) list \<Rightarrow> 'k \<Rightarrow> 'v word res \<times> ('k \<times> 'v word) list" where
  "take_next init m k = (let cur = get_or init m k in (case checked_add cur 1 of
      None \<Rightarrow> (Inl InvalidArgument, bt_insert k cur m)
    | Some nxt \<Rightarrow> (Inr cur, bt_insert k nxt m)))"

definition next_group_generation :: "SingleNodeCoordinator \<Rightarrow> CoordinationScope \<Rightarrow> u64 res \<times> SingleNodeCoordinator" where
  "next_group_generation c scope = (case take_next 1 (group_generation_by_scope c) scope of
      (r, m) \<Rightarrow> (r, c\<lparr>group_generation_by_scope := m\<rparr>))"

definition next_fence :: "SingleNodeCoordinator \<Rightarrow> CoordinationScope \<Rightarrow> u128 res \<times> SingleNodeCoordinator" where
  "next_fence c scope = (case take_next 1 (next_fence_by_scope c) scope of
      (r, m) \<Rightarrow> (r, c\<lparr>next_fence_by_scope := m\<rparr>))"

definition next_sequence :: "SingleNodeCoordinator \<Rightarrow> CoordinationScope \<Rightarrow> u64 res \<times> SingleNodeCoordinator" where
  "next_sequence c scope = (case take_next 0 (next_sequence_by_scope c) scope of
      (r, m) \<Rightarrow> (r, c\<lparr>next_sequence_by_scope := m\<rparr>))"

definition transaction_record :: "SingleNodeCoordinator \<Rightarrow> CoordinationScope \<Rightarrow> TransactionIdentity \<Rightarrow> TransactionRecord option" where
  "transaction_record c scope t = map_of (transaction_by_key c) (scope, t)"

definition producer_epoch :: "SingleNodeCoordinator \<Rightarrow> CoordinationScope \<Rightarrow> ProducerIdentity \<Rightarrow> u64 option" where
  "producer_epoch c scope p = map_of (producer_epoch_by_key c) (scope, p)"

definition apply_actor_fence :: "SingleNodeCoordinator \<Rightarrow> CoordinationScope \<times> ActorId \<Rightarrow> u128
    \<Rightarrow> unit res \<times> SingleNodeCoordinator" where
  "apply_actor_fence c key fence =
    (if fence < get_or 0 (applied_fence_by_actor c) key then (Inl FencingStale, c)
     else (Inr (), c\<lparr>applied_fence_by_actor := bt_insert key fence (applied_fence_by_actor c)\<rparr>))"

definition register_producer :: "SingleNodeCoordinator \<Rightarrow> CoordinationScope \<Rightarrow> ProducerIdentity
    \<Rightarrow> u64 res \<times> SingleNodeCoordinator" where
  "register_producer c scope p = (let cur = get_or 0 (producer_epoch_by_key c) (scope, p) in (case checked_add cur 1 of
      None \<Rightarrow> (Inl InvalidArgument, c\<lparr>producer_epoch_by_key := bt_insert (scope, p) cur (producer_epoch_by_key c)\<rparr>)
    | Some nxt \<Rightarrow> (Inr nxt, c\<lparr>producer_epoch_by_key := bt_insert (scope, p) nxt (producer_epoch_by_key c)\<rparr>)))"

definition validate_producer_epoch :: "SingleNodeCoordinator \<Rightarrow> CoordinationScope \<Rightarrow> ProducerIdentity \<Rightarrow> u64 \<Rightarrow> unit res" where
  "validate_producer_epoch c scope p e = (case map_of (producer_epoch_by_key c) (scope, p) of
      None \<Rightarrow> Inl NotFound
    | Some cur \<Rightarrow> if e < cur then Inl FencingStale else if cur < e then Inl InvalidArgument else Inr ())"

section \<open>Transactions\<close>

definition begin_transaction :: "SingleNodeCoordinator \<Rightarrow> CoordinationScope \<Rightarrow> TransactionIdentity
    \<Rightarrow> u64 res \<times> SingleNodeCoordinator" where
  "begin_transaction c scope t =
    (case (case map_of (transaction_by_key c) (scope, t) of
        Some r \<Rightarrow> ok_or InvalidArgument (checked_add (tr_epoch r) 1)
      | None \<Rightarrow> Inr 1) of
      Inl e \<Rightarrow> (Inl e, c)
    | Inr ne \<Rightarrow> (Inr ne, c\<lparr>transaction_by_key := bt_insert (scope, t) \<lparr>tr_epoch = ne, tr_state = Active\<rparr> (transaction_by_key c)\<rparr>))"

definition complete_transaction :: "SingleNodeCoordinator \<Rightarrow> CoordinationScope \<Rightarrow> TransactionIdentity \<Rightarrow> u64
    \<Rightarrow> TransactionState \<Rightarrow> unit res \<times> SingleNodeCoordinator" where
  "complete_transaction c scope t e terminal = (case map_of (transaction_by_key c) (scope, t) of
      None \<Rightarrow> (Inl NotFound, c)
    | Some r \<Rightarrow>
        if e < tr_epoch r then (Inl FencingStale, c)
        else if tr_epoch r < e then (Inl InvalidArgument, c)
        else if tr_state r \<noteq> Active then (Inl Conflict, c)
        else (Inr (), c\<lparr>transaction_by_key := bt_insert (scope, t) (r\<lparr>tr_state := terminal\<rparr>) (transaction_by_key c)\<rparr>))"

definition commit_transaction :: "SingleNodeCoordinator \<Rightarrow> CoordinationScope \<Rightarrow> TransactionIdentity \<Rightarrow> u64
    \<Rightarrow> unit res \<times> SingleNodeCoordinator" where
  "commit_transaction c scope t e = complete_transaction c scope t e Committed"

definition abort_transaction :: "SingleNodeCoordinator \<Rightarrow> CoordinationScope \<Rightarrow> TransactionIdentity \<Rightarrow> u64
    \<Rightarrow> unit res \<times> SingleNodeCoordinator" where
  "abort_transaction c scope t e = complete_transaction c scope t e Aborted"

section \<open>Steps\<close>

inductive coord_step :: "SingleNodeCoordinator \<Rightarrow> SingleNodeCoordinator \<Rightarrow> bool" where
  generation: "coord_step c (snd (next_group_generation c scope))"
| fence: "coord_step c (snd (next_fence c scope))"
| seq: "coord_step c (snd (next_sequence c scope))"
| actor_fence: "coord_step c (snd (apply_actor_fence c key f))"
| producer: "coord_step c (snd (register_producer c scope p))"
| begin_tx: "coord_step c (snd (begin_transaction c scope t))"
| commit_tx: "coord_step c (snd (commit_transaction c scope t e))"
| abort_tx: "coord_step c (snd (abort_transaction c scope t e))"

lemmas coord_ops = next_group_generation_def next_fence_def next_sequence_def apply_actor_fence_def register_producer_def
  begin_transaction_def commit_transaction_def abort_transaction_def complete_transaction_def Let_def

lemma get_or_bt_insert: "get_or d (bt_insert k v m) x = (if x = k then v else get_or d m x)"
  by (simp add: get_or_def map_of_bt_insert)

lemma checked_add_one_less: "checked_add (a :: 'a::len word) 1 = Some b \<Longrightarrow> a < b"
proof -
  assume a: "checked_add a 1 = Some b"
  have "unat (1 :: 'a word) = 1" by simp
  with checked_add_SomeD(2) [OF a] show "a < b" by (simp add: word_less_nat_alt)
qed

lemma take_next_law:
  assumes "take_next d m k = (Inr n, m')"
  shows "n = get_or d m k" and "n < get_or d m' k"
  using assms by (auto simp: take_next_def Let_def get_or_bt_insert checked_add_one_less split: option.splits)

lemma take_next_mono: "take_next d m k = (r, m') \<Longrightarrow> get_or d m x \<le> get_or d m' x"
  by (auto simp: take_next_def Let_def get_or_bt_insert checked_add_one_less less_imp_le split: option.splits)

text \<open>The contract of a counter that hands out a value per key: a value is the one the counter shows, the counter
  passes it, and no step of its owner takes the counter back.\<close>

locale ticket_counter =
  fixes nxt :: "'s \<Rightarrow> 'k \<Rightarrow> 'n::linorder res \<times> 's" and shows_val :: "'s \<Rightarrow> 'k \<Rightarrow> 'n" and moves :: "'s \<Rightarrow> 's \<Rightarrow> bool"
  assumes nxt_law: "nxt s k = (Inr n, s') \<Longrightarrow> n = shows_val s k \<and> n < shows_val s' k"
    and moves_mono: "moves s s' \<Longrightarrow> shows_val s k \<le> shows_val s' k"
begin

lemma steps_mono: "moves\<^sup>*\<^sup>* s s' \<Longrightarrow> shows_val s k \<le> shows_val s' k"
  by (induction rule: rtranclp_induct) (auto intro: order_trans moves_mono)

lemma increasing:
  assumes "nxt s k = (Inr m, s1)" and "moves\<^sup>*\<^sup>* s1 s2" and "nxt s2 k = (Inr n, s3)"
  shows "m < n"
proof -
  have "m < shows_val s1 k" using nxt_law [OF assms(1)] by (rule conjunct2)
  also have "\<dots> \<le> shows_val s2 k" using steps_mono [OF assms(2)] .
  also have "\<dots> = n" using nxt_law [OF assms(3)] by simp
  finally show ?thesis .
qed

end

interpretation fences: ticket_counter next_fence "\<lambda>c. get_or 1 (next_fence_by_scope c)" coord_step
proof unfold_locales
  show "get_or 1 (next_fence_by_scope c) k \<le> get_or 1 (next_fence_by_scope c') k" if "coord_step c c'" for c c' k
    using that by (induction rule: coord_step.induct)
      (auto simp: coord_ops split: option.splits sum.splits prod.splits intro: take_next_mono)
qed (auto simp: next_fence_def dest: take_next_law split: prod.splits)

interpretation sequences: ticket_counter next_sequence "\<lambda>c. get_or 0 (next_sequence_by_scope c)" coord_step
proof unfold_locales
  show "get_or 0 (next_sequence_by_scope c) k \<le> get_or 0 (next_sequence_by_scope c') k" if "coord_step c c'" for c c' k
    using that by (induction rule: coord_step.induct)
      (auto simp: coord_ops split: option.splits sum.splits prod.splits intro: take_next_mono)
qed (auto simp: next_sequence_def dest: take_next_law split: prod.splits)

interpretation generations: ticket_counter next_group_generation "\<lambda>c. get_or 1 (group_generation_by_scope c)" coord_step
proof unfold_locales
  show "get_or 1 (group_generation_by_scope c) k \<le> get_or 1 (group_generation_by_scope c') k" if "coord_step c c'" for c c' k
    using that by (induction rule: coord_step.induct)
      (auto simp: coord_ops split: option.splits sum.splits prod.splits intro: take_next_mono)
qed (auto simp: next_group_generation_def dest: take_next_law split: prod.splits)

interpretation actor_fences: fence_register apply_actor_fence "\<lambda>c. get_or 0 (applied_fence_by_actor c)" Some coord_step "\<lambda>_. True"
proof unfold_locales
  show "get_or 0 (applied_fence_by_actor c) k \<le> get_or 0 (applied_fence_by_actor c') k" if "coord_step c c'" for c c' k
    using that by (induction rule: coord_step.induct)
      (auto simp: coord_ops get_or_bt_insert split: option.splits sum.splits prod.splits)
qed (auto simp: apply_actor_fence_def get_or_bt_insert split: if_splits)

lemma producer_epoch_mono:
  "coord_step\<^sup>*\<^sup>* c c' \<Longrightarrow> get_or 0 (producer_epoch_by_key c) k \<le> get_or 0 (producer_epoch_by_key c') k"
proof (induction rule: rtranclp_induct)
  case (step y z)
  from step(2) have "get_or 0 (producer_epoch_by_key y) k \<le> get_or 0 (producer_epoch_by_key z) k"
    by (induction rule: coord_step.induct)
      (auto simp: coord_ops get_or_bt_insert checked_add_one_less less_imp_le split: option.splits sum.splits prod.splits)
  with step(3) show ?case by simp
qed simp

text \<open>A transaction never goes back: its epoch only grows, and within an epoch a finished transaction stays as it
  finished.\<close>

definition tx_le :: "TransactionRecord option \<Rightarrow> TransactionRecord option \<Rightarrow> bool" where
  "tx_le r r' = (case r of None \<Rightarrow> True | Some x \<Rightarrow> (case r' of None \<Rightarrow> False
     | Some y \<Rightarrow> tr_epoch x < tr_epoch y \<or> tr_epoch x = tr_epoch y \<and> (tr_state x = Active \<or> tr_state x = tr_state y)))"

lemma tx_le_refl: "tx_le r r"
  by (auto simp: tx_le_def split: option.splits)

lemma tx_le_trans: "tx_le a b \<Longrightarrow> tx_le b c \<Longrightarrow> tx_le a c"
  by (auto simp: tx_le_def split: option.splits)

lemma coord_step_tx: "coord_step c c' \<Longrightarrow> tx_le (transaction_record c scope t) (transaction_record c' scope t)"
  by (induction rule: coord_step.induct)
    (auto simp: coord_ops transaction_record_def map_of_bt_insert tx_le_refl result_simps split: option.splits sum.splits prod.splits,
     auto simp: tx_le_def checked_add_one_less)

lemma coord_steps_tx: "coord_step\<^sup>*\<^sup>* c c' \<Longrightarrow> tx_le (transaction_record c scope t) (transaction_record c' scope t)"
  by (induction rule: rtranclp_induct) (auto intro: tx_le_refl tx_le_trans coord_step_tx)

section \<open>Properties\<close>

text \<open>C29: Fence tokens, sequences and group generations of a scope are handed out in strictly increasing order,
  whatever the coordinator does in between.\<close>

theorem coordinator_counters_increase:
  assumes "coord_step\<^sup>*\<^sup>* c1 c2"
  shows "(next_fence c scope = (Inr f1, c1) \<and> next_fence c2 scope = (Inr f2, c3) \<longrightarrow> f1 < f2)
    \<and> (next_sequence c scope = (Inr s1, c1) \<and> next_sequence c2 scope = (Inr s2, c3) \<longrightarrow> s1 < s2)
    \<and> (next_group_generation c scope = (Inr g1, c1) \<and> next_group_generation c2 scope = (Inr g2, c3) \<longrightarrow> g1 < g2)"
  using fences.increasing [OF _ assms] sequences.increasing [OF _ assms] generations.increasing [OF _ assms] by blast

theorem coordinator_counters_increase_witness:
  "\<exists>c. next_fence (single_node_new [65] 1) [[66]] = (Inr 1, c) \<and> (\<exists>f d. next_fence c [[66]] = (Inr f, d) \<and> 1 < f)"
proof -
  let ?c = "snd (next_fence (single_node_new [65] 1) [[66]])"
  have a: "next_fence (single_node_new [65] 1) [[66]] = (Inr 1, ?c)"
    and b: "next_fence ?c [[66]] = (Inr 2, snd (next_fence ?c [[66]]))"
    by (simp_all add: next_fence_def take_next_def get_or_def single_node_new_def checked_add_def)
  from coordinator_counters_increase [OF rtranclp.rtrancl_refl, of "single_node_new [65] 1" "[[66]]" 1 ?c 2] a b
  show ?thesis by blast
qed

text \<open>C30: Registering a producer again fences its older instance: the epoch of the earlier registration is
  refused as stale from then on, the newest one is accepted, and a fence below one an actor has applied in the
  scope is refused as well.\<close>

theorem coordinator_fences_old_instances:
  assumes "coord_step\<^sup>*\<^sup>* c1 c2"
  shows "(register_producer c scope p = (Inr e, c1) \<and> register_producer c2 scope p = (Inr e', c3) \<and> coord_step\<^sup>*\<^sup>* c3 c4 \<longrightarrow>
      validate_producer_epoch c4 scope p e = Inl FencingStale \<and> validate_producer_epoch c3 scope p e' = Inr ())
    \<and> (apply_actor_fence c key g = (Inr (), c1) \<and> f < g \<longrightarrow> apply_actor_fence c2 key f = (Inl FencingStale, c2))"
proof (intro conjI impI; (elim conjE)?)
  assume a: "register_producer c scope p = (Inr e, c1)" and b: "register_producer c2 scope p = (Inr e', c3)"
    and m: "coord_step\<^sup>*\<^sup>* c3 c4"
  have e: "get_or 0 (producer_epoch_by_key c1) (scope, p) = e"
    using a by (auto simp: register_producer_def Let_def get_or_bt_insert split: option.splits)
  from b have "get_or 0 (producer_epoch_by_key c2) (scope, p) < e'" and m3: "map_of (producer_epoch_by_key c3) (scope, p) = Some e'"
    by (auto simp: register_producer_def Let_def map_of_bt_insert checked_add_one_less split: option.splits)
  with producer_epoch_mono [OF assms, of "(scope, p)"] e have less: "e < e'" by simp
  have "e' \<le> get_or 0 (producer_epoch_by_key c4) (scope, p)"
    using producer_epoch_mono [OF m, of "(scope, p)"] m3 by (simp add: get_or_def)
  with less have "e < get_or 0 (producer_epoch_by_key c4) (scope, p)" by (rule less_le_trans)
  then show "validate_producer_epoch c4 scope p e = Inl FencingStale"
    by (auto simp: validate_producer_epoch_def get_or_def split: option.splits)
  show "validate_producer_epoch c3 scope p e' = Inr ()" using m3 by (simp add: validate_producer_epoch_def)
next
  assume "apply_actor_fence c key g = (Inr (), c1)" "f < g"
  from actor_fences.stale_after [OF TrueI this(1) assms refl refl this(2)]
  show "apply_actor_fence c2 key f = (Inl FencingStale, c2)" .
qed

theorem coordinator_fences_old_instances_witness:
  "\<exists>c1 c3. register_producer (single_node_new [65] 1) [[66]] [67] = (Inr 1, c1) \<and> register_producer c1 [[66]] [67] = (Inr 2, c3)
     \<and> validate_producer_epoch c3 [[66]] [67] 1 = Inl FencingStale"
proof -
  let ?c1 = "snd (register_producer (single_node_new [65] 1) [[66]] [67])"
  let ?c3 = "snd (register_producer ?c1 [[66]] [67])"
  have a: "register_producer (single_node_new [65] 1) [[66]] [67] = (Inr 1, ?c1)"
    and b: "register_producer ?c1 [[66]] [67] = (Inr 2, ?c3)"
    by (simp_all add: register_producer_def get_or_def single_node_new_def checked_add_def)
  from coordinator_fences_old_instances [OF rtranclp.rtrancl_refl, of "single_node_new [65] 1" "[[66]]" "[67]" 1 ?c1 2 ?c3 ?c3] a b
  show ?thesis by blast
qed

text \<open>C31: A transaction epoch is decided at most once: after a commit or an abort succeeds, every later attempt to
  commit or abort that epoch fails, with a conflict while the epoch is current and as stale after a new begin.\<close>

theorem transaction_decided_once:
  assumes "complete_transaction c scope t e terminal = (Inr (), c1)" and "terminal \<noteq> Active" and "coord_step\<^sup>*\<^sup>* c1 c2"
  shows "complete_transaction c2 scope t e other = (Inl Conflict, c2) \<or> complete_transaction c2 scope t e other = (Inl FencingStale, c2)"
proof -
  have "transaction_record c1 scope t = Some \<lparr>tr_epoch = e, tr_state = terminal\<rparr>"
    using assms(1) by (auto simp: complete_transaction_def transaction_record_def map_of_bt_insert split: option.splits if_splits)
  with coord_steps_tx [OF assms(3), of scope t] assms(2) show ?thesis
    by (auto simp: tx_le_def complete_transaction_def transaction_record_def split: option.splits)
qed

theorem transaction_decided_once_witness:
  "\<exists>c1. commit_transaction (snd (begin_transaction (single_node_new [65] 1) [[66]] [67])) [[66]] [67] 1 = (Inr (), c1)
     \<and> (\<exists>err. abort_transaction c1 [[66]] [67] 1 = (Inl err, c1))"
proof -
  let ?c = "snd (begin_transaction (single_node_new [65] 1) [[66]] [67])"
  let ?c1 = "snd (complete_transaction ?c [[66]] [67] 1 Committed)"
  have "complete_transaction ?c [[66]] [67] 1 Committed = (Inr (), ?c1)"
    by (simp add: complete_transaction_def begin_transaction_def single_node_new_def)
  with transaction_decided_once [OF this _ rtranclp.rtrancl_refl, of Aborted] show ?thesis
    unfolding commit_transaction_def abort_transaction_def by auto
qed

end
