(* ===== verification/Loom_Varint.thy ===== *)
theory Loom_Varint
  imports Loom_Prelude
begin

text \<open>
  The two primitive encodings of \<^verbatim>\<open>crates/loom-store/src/lib.rs\<close> that the page formats share: LEB128
  unsigned integers and the bitwise CRC-32C. A reader gets a buffer and a position and returns the value with
  the advanced position.
\<close>

section \<open>Unsigned LEB128\<close>

function put_uvarint :: "u64 \<Rightarrow> bytes" where
  "put_uvarint v =
    (let byte = ucast (v AND 0x7F); rest = drop_bit 7 v
     in if rest \<noteq> 0 then (byte OR 0x80) # put_uvarint rest else [byte])"
  by pat_completeness auto
termination
proof (relation "measure unat")
  fix v rest :: u64
  assume "rest = drop_bit 7 v" and "rest \<noteq> 0"
  then have "unat rest = unat v div 2 ^ 7" "unat rest \<noteq> 0" by (simp_all only: unat_drop_bit word_unat_eq_iff unat_0 simp_thms)
  then show "(rest, v) \<in> measure unat" by (simp add: div_less_dividend)
qed simp

declare put_uvarint.simps [simp del]

function get_uvarint_loop :: "bytes \<Rightarrow> nat \<Rightarrow> u64 \<Rightarrow> nat \<Rightarrow> (u64 \<times> nat) option" where
  "get_uvarint_loop buf pos value shift =
    (if pos < length buf then
       let byte = buf ! pos; value' = value OR push_bit shift (ucast (byte AND 0x7F))
       in if byte AND 0x80 = 0 then Some (value', pos + 1)
          else if shift + 7 \<ge> 64 then None
          else get_uvarint_loop buf (pos + 1) value' (shift + 7)
     else None)"
  by pat_completeness auto
termination
  by (relation "measure (\<lambda>(buf, pos, value, shift). length buf - pos)") auto

declare get_uvarint_loop.simps [simp del]

definition get_uvarint :: "bytes \<Rightarrow> nat \<Rightarrow> (u64 \<times> nat) option" where
  "get_uvarint buf pos = get_uvarint_loop buf pos 0 0"

lemma low7: "(v :: u64) AND 0x7F = take_bit 7 v"
proof -
  have "(0x7F :: u64) = mask 7" by (simp add: mask_eq_exp_minus_1)
  then show ?thesis by (simp only: take_bit_eq_mask)
qed

lemma bit_128: "bit (0x80 :: 'a::len word) n \<longleftrightarrow> n = 7 \<and> 7 < LENGTH('a)"
proof -
  have "(0x80 :: 'a word) = 2 ^ 7" by simp
  then have "bit (0x80 :: 'a word) n \<longleftrightarrow> bit (2 ^ 7 :: 'a word) n" by (simp only:)
  also have "\<dots> \<longleftrightarrow> n = 7 \<and> 7 < LENGTH('a)" unfolding bit_exp_iff by auto
  finally show ?thesis .
qed

lemma varint_byte:
  fixes v :: u64
  shows "ucast ((ucast (v AND 0x7F) :: u8) AND 0x7F) = take_bit 7 v"
    and "ucast (((ucast (v AND 0x7F) :: u8) OR 0x80) AND 0x7F) = take_bit 7 v"
    and "((ucast (v AND 0x7F) :: u8) AND 0x80 = 0)"
    and "((ucast (v AND 0x7F) :: u8) OR 0x80) AND 0x80 \<noteq> 0"
proof -
  have m: "(0x7F :: u8) = mask 7" by (simp add: mask_eq_exp_minus_1)
  note h = bit_128
  show "ucast ((ucast (v AND 0x7F) :: u8) AND 0x7F) = take_bit 7 v"
    unfolding low7 m by (rule bit_word_eqI) (auto simp: bit_simps)
  then show "ucast (((ucast (v AND 0x7F) :: u8) OR 0x80) AND 0x7F) = take_bit 7 v"
    by (simp add: bit.conj_disj_distrib2)
  show "((ucast (v AND 0x7F) :: u8) AND 0x80 = 0)"
    unfolding low7 by (rule bit_word_eqI) (simp only: bit_and_iff bit_unsigned_iff bit_take_bit_iff bit_128 bit_0_eq; auto)
  have "bit (((ucast (v AND 0x7F) :: u8) OR 0x80) AND 0x80) 7" by (simp add: bit_and_iff bit_or_iff h)
  then show "((ucast (v AND 0x7F) :: u8) OR 0x80) AND 0x80 \<noteq> 0" by (metis bit_0_eq bot_apply bot_bool_def)
qed

lemma varint_join: "push_bit s (take_bit 7 v) OR push_bit (s + 7) (drop_bit 7 v) = push_bit s (v :: u64)"
proof (rule bit_word_eqI)
  fix n assume "n < LENGTH(64)"
  have "s + 7 \<le> n \<Longrightarrow> 7 + (n - (s + 7)) = n - s" by simp
  then show "bit (push_bit s (take_bit 7 v) OR push_bit (s + 7) (drop_bit 7 v)) n = bit (push_bit s v) n"
    by (cases "s + 7 \<le> n") (auto simp: bit_or_iff bit_push_bit_iff bit_take_bit_iff bit_drop_bit_eq)
qed

lemma get_uvarint_put:
  "unat v < 2 ^ (64 - s) \<Longrightarrow> s < 64 \<Longrightarrow>
    get_uvarint_loop (pre @ put_uvarint v @ post) (length pre) acc s = Some (acc OR push_bit s v, length pre + length (put_uvarint v))"
proof (induction v arbitrary: pre acc s rule: put_uvarint.induct)
  case (1 v)
  have u: "unat (drop_bit 7 v) = unat v div 128" using unat_drop_bit [of 7 v] by simp
  show ?case
  proof (cases "drop_bit 7 v = 0")
    case True
    then have "put_uvarint v = [ucast (v AND 0x7F)]" by (simp add: put_uvarint.simps)
    moreover have "take_bit 7 v = v" using True by (metis add.right_neutral bits_ident push_bit_of_0 add_0)
    ultimately show ?thesis by (simp add: get_uvarint_loop.simps varint_byte)
  next
    case False
    let ?b = "(ucast (v AND 0x7F) :: u8) OR 0x80"
    have p: "put_uvarint v = ?b # put_uvarint (drop_bit 7 v)" using False by (subst put_uvarint.simps) (simp add: Let_def)
    have ge: "128 \<le> unat v" using False u by (auto simp: word_unat_eq_iff)
    have s: "s + 7 < 64"
    proof (rule ccontr)
      assume "\<not> s + 7 < 64"
      then have "(2 :: nat) ^ (64 - s) \<le> 2 ^ 7" by (intro power_increasing) auto
      with ge 1(2) show False by simp
    qed
    then have "64 - s = 7 + (64 - (s + 7))" by simp
    then have "(2 :: nat) ^ (64 - s) = 2 ^ 7 * 2 ^ (64 - (s + 7))" by (metis power_add)
    then have "(2 :: nat) ^ (64 - s) = 128 * 2 ^ (64 - (s + 7))" by simp
    then have lt: "unat (drop_bit 7 v) < 2 ^ (64 - (s + 7))" using 1(2) u by (simp add: less_mult_imp_div_less mult.commute)
    have "get_uvarint_loop ((pre @ [?b]) @ put_uvarint (drop_bit 7 v) @ post) (length (pre @ [?b])) (acc OR push_bit s (take_bit 7 v)) (s + 7)
        = Some ((acc OR push_bit s (take_bit 7 v)) OR push_bit (s + 7) (drop_bit 7 v), length (pre @ [?b]) + length (put_uvarint (drop_bit 7 v)))"
      by (rule 1(1) [OF refl refl False lt s])
    moreover have "(acc OR push_bit s (take_bit 7 v)) OR push_bit (s + 7) (drop_bit 7 v) = acc OR push_bit s v"
      unfolding or.assoc varint_join ..
    ultimately show ?thesis
      unfolding p using s by (subst get_uvarint_loop.simps) (simp add: varint_byte)
  qed
qed

lemma get_put_uvarint:
  "get_uvarint (pre @ put_uvarint v @ post) (length pre) = Some (v, length pre + length (put_uvarint v))"
  using get_uvarint_put [of v 0 pre post 0] unat_bound [of v] by (simp add: get_uvarint_def)

section \<open>CRC-32C\<close>

definition crc_bit :: "u32 \<Rightarrow> u32" where
  "crc_bit crc = drop_bit 1 crc XOR (0x82F63B78 AND (- (crc AND 1)))"

definition crc_byte :: "u32 \<Rightarrow> u8 \<Rightarrow> u32" where
  "crc_byte crc b = (crc_bit ^^ 8) (crc XOR ucast b)"

definition crc32c :: "bytes \<Rightarrow> u32" where
  "crc32c data = NOT (fold (\<lambda>b crc. crc_byte crc b) data 0xFFFFFFFF)"

text \<open>A step of the shift register loses nothing: the top bit of the polynomial tells whether the bit that was
  shifted out was set.\<close>

lemma crc_bit_cases: "crc_bit c = (if bit c 0 then drop_bit 1 c XOR 0x82F63B78 else drop_bit 1 c)"
proof (cases "bit c 0")
  case True
  then have "c AND 1 = 1" by (simp add: and_one_eq odd_iff_mod_2_eq_one bit_0)
  then show ?thesis using True by (simp add: crc_bit_def)
next
  case False
  then have "c AND 1 = 0" by (simp add: and_one_eq bit_0 even_iff_mod_2_eq_zero)
  then show ?thesis using False by (simp add: crc_bit_def)
qed

lemma crc_bit_top: "bit (crc_bit c) 31 = bit c 0"
proof -
  have "bit (0x82F63B78 :: u32) 31" by (simp add: bit_numeral_rec)
  moreover have "\<not> bit (drop_bit 1 c) 31" using bit_imp_le_length [of c 32] by (auto simp: bit_drop_bit_eq)
  ultimately show ?thesis by (simp add: crc_bit_cases bit_xor_iff)
qed

lemma crc_bit_inj: "crc_bit c = crc_bit d \<Longrightarrow> c = d"
proof -
  assume eq: "crc_bit c = crc_bit d"
  have b0: "bit c 0 = bit d 0" using crc_bit_top [of c] crc_bit_top [of d] eq by simp
  have "drop_bit 1 c = drop_bit 1 d"
  proof (cases "bit c 0")
    case True
    then have "drop_bit 1 c XOR 0x82F63B78 = drop_bit 1 d XOR 0x82F63B78" using eq b0 by (simp add: crc_bit_cases)
    then have "(drop_bit 1 c XOR 0x82F63B78) XOR 0x82F63B78 = (drop_bit 1 d XOR 0x82F63B78) XOR 0x82F63B78"
      by (rule arg_cong [where f = "\<lambda>w. w XOR 0x82F63B78"])
    then show ?thesis by (simp only: xor.assoc xor_self_eq xor.right_neutral)
  next
    case False
    then show ?thesis using eq b0 by (simp add: crc_bit_cases)
  qed
  then have "bit c (Suc n) = bit d (Suc n)" for n
    by (metis bit_drop_bit_eq comp_apply plus_1_eq_Suc)
  then have "bit c n = bit d n" for n using b0 by (cases n) auto
  then show "c = d" by (intro bit_word_eqI)
qed

lemma crc_bits_inj: "(crc_bit ^^ n) c = (crc_bit ^^ n) d \<Longrightarrow> c = d"
  by (induction n) (auto dest: crc_bit_inj)

lemma crc_byte_inj: "crc_byte c b = crc_byte d b \<Longrightarrow> c = d" "crc_byte c a = crc_byte c b \<Longrightarrow> a = b"
proof -
  assume "crc_byte c b = crc_byte d b"
  then have "c XOR ucast b = d XOR ucast b" unfolding crc_byte_def by (rule crc_bits_inj)
  then have "(c XOR ucast b) XOR ucast b = (d XOR ucast b) XOR ucast b" by simp
  then show "c = d" by (simp only: xor.assoc xor_self_eq xor.right_neutral)
next
  assume "crc_byte c a = crc_byte c b"
  then have "c XOR ucast a = c XOR ucast b" unfolding crc_byte_def by (rule crc_bits_inj)
  then have "c XOR (c XOR ucast a) = c XOR (c XOR ucast b)" by simp
  then have "(ucast a :: u32) = ucast b" by (simp flip: xor.assoc)
  then have "unat (ucast a :: u32) = unat (ucast b :: u32)" by simp
  then show "a = b" using unat_bound [of a] unat_bound [of b] by (simp add: unat_ucast word_unat_eq_iff)
qed

lemma crc_fold_inj: "fold (\<lambda>b crc. crc_byte crc b) bs c = fold (\<lambda>b crc. crc_byte crc b) bs d \<Longrightarrow> c = d"
  by (induction bs arbitrary: c d) (auto dest: crc_byte_inj(1))

lemma crc32c_one_byte:
  assumes "a \<noteq> b"
  shows "crc32c (xs @ a # ys) \<noteq> crc32c (xs @ b # ys)"
proof
  assume "crc32c (xs @ a # ys) = crc32c (xs @ b # ys)"
  then have "fold (\<lambda>b crc. crc_byte crc b) (xs @ a # ys) 0xFFFFFFFF = fold (\<lambda>b crc. crc_byte crc b) (xs @ b # ys) 0xFFFFFFFF"
    unfolding crc32c_def by (metis bit.double_compl)
  then have "crc_byte (fold (\<lambda>b crc. crc_byte crc b) xs 0xFFFFFFFF) a = crc_byte (fold (\<lambda>b crc. crc_byte crc b) xs 0xFFFFFFFF) b"
    by (simp only: fold_append fold_Cons comp_apply) (rule crc_fold_inj)
  from crc_byte_inj(2) [OF this] assms show False by contradiction
qed

lemma crc32c_update:
  assumes "i < length bs" and "b \<noteq> bs ! i"
  shows "crc32c (bs[i := b]) \<noteq> crc32c bs"
proof -
  have "bs[i := b] = take i bs @ b # drop (Suc i) bs" using assms(1) by (rule upd_conv_take_nth_drop)
  moreover have "bs = take i bs @ bs ! i # drop (Suc i) bs" using assms(1) by (rule id_take_nth_drop)
  ultimately show ?thesis using crc32c_one_byte [OF assms(2), of "take i bs" "drop (Suc i) bs"] by metis
qed

end
