(* ===== verification/Loom_Superblock.thy ===== *)
theory Loom_Superblock
  imports Loom_Object Loom_Varint
begin

text \<open>
  The two root records of the page engine: the superblock slot of \<^verbatim>\<open>crates/loom-store/src/superblock.rs\<close>
  and the journal record of \<^verbatim>\<open>crates/loom-store/src/journal.rs\<close>. Both are fixed-size images with a
  CRC-32C over everything before it. An encoder writes its fields in place into a zeroed image, as the
  code does; a digest is the 32 bytes the code keeps.
\<close>

section \<open>Optional fields in an image\<close>

definition put_opt :: "bytes \<Rightarrow> nat \<Rightarrow> bytes option \<Rightarrow> bytes" where
  "put_opt s off x = (case x of None \<Rightarrow> s | Some b \<Rightarrow> put_at (put_at s off [1]) (off + 1) b)"

definition opt_len :: "nat \<Rightarrow> bytes option \<Rightarrow> bool" where
  "opt_len n x = (case x of None \<Rightarrow> True | Some b \<Rightarrow> length b = n)"

text \<open>Writing the next field of an image that is still zero behind a prefix extends the prefix, so an image
  is the concatenation of its fields.\<close>

definition opt_image :: "nat \<Rightarrow> bytes option \<Rightarrow> bytes" where
  "opt_image n x = (case x of None \<Rightarrow> replicate (Suc n) 0 | Some b \<Rightarrow> 1 # b)"

lemma put_at_next:
  "off = length p \<Longrightarrow> length b \<le> k \<Longrightarrow> put_at (p @ replicate k 0) off b = (p @ b) @ replicate (k - length b) 0"
  by (simp add: put_at_def)

lemma put_at_first: "length b \<le> k \<Longrightarrow> put_at (replicate k 0) 0 b = b @ replicate (k - length b) 0"
  by (simp add: put_at_def)

lemma put_opt_next:
  assumes "off = length p" and "opt_len n x" and "Suc n \<le> k"
  shows "put_opt (p @ replicate k 0) off x = (p @ opt_image n x) @ replicate (k - Suc n) 0"
proof (cases x)
  case None
  have "replicate k (0 :: u8) = replicate (Suc n + (k - Suc n)) 0" using assms(3) by simp
  also have "\<dots> = replicate (Suc n) 0 @ replicate (k - Suc n) 0" by (rule replicate_add)
  finally show ?thesis by (simp add: None put_opt_def opt_image_def)
next
  case (Some b)
  have "put_at (p @ replicate k 0) off [1] = (p @ [1]) @ replicate (k - 1) 0"
    using put_at_next [of off p "[1]" k] assms by simp
  moreover have "put_at ((p @ [1]) @ replicate (k - 1) 0) (off + 1) b = ((p @ [1]) @ b) @ replicate (k - 1 - length b) 0"
    using assms Some by (intro put_at_next) (auto simp: opt_len_def)
  ultimately show ?thesis using assms Some by (simp add: put_opt_def opt_image_def opt_len_def)
qed

lemma length_opt_image: "opt_len n x \<Longrightarrow> length (opt_image n x) = Suc n"
  by (simp add: opt_image_def opt_len_def split: option.splits)

lemma opt_image_flag: "opt_image n x ! 0 = (if x = None then 0 else 1)"
  by (simp add: opt_image_def split: option.splits)

lemma opt_image_body: "drop (Suc 0) (opt_image n (Some b)) = b"
  by (simp add: opt_image_def)

text \<open>Changing one byte of an image whose checksum holds breaks the checksum, wherever the byte is.\<close>

definition crc_holds :: "nat \<Rightarrow> bytes \<Rightarrow> bool" where
  "crc_holds n s \<longleftrightarrow> crc32c (subslice s 0 n) = u32_from_le (subslice s n (n + 4))"

lemma crc_holds_append: "length p = n \<Longrightarrow> crc_holds n (p @ u32_le (crc32c p))"
  by (simp add: crc_holds_def subslice_def)

lemma crc_holds_one_byte:
  assumes "crc_holds n s" and "length s = n + 4" and "i < n + 4" and "b \<noteq> s ! i"
  shows "\<not> crc_holds n (s[i := b])"
proof (cases "i < n")
  case True
  have "subslice (s[i := b]) 0 n = (subslice s 0 n)[i := b]" by (simp add: subslice_def take_update_swap)
  moreover have "crc32c ((subslice s 0 n)[i := b]) \<noteq> crc32c (subslice s 0 n)"
    using True assms by (intro crc32c_update) (auto simp: subslice_def)
  moreover have "subslice (s[i := b]) n (n + 4) = subslice s n (n + 4)" using True by (simp add: subslice_def)
  ultimately show ?thesis using assms(1) by (simp add: crc_holds_def)
next
  case False
  have "subslice (s[i := b]) n (n + 4) \<noteq> subslice s n (n + 4)"
  proof
    assume "subslice (s[i := b]) n (n + 4) = subslice s n (n + 4)"
    then have "subslice (s[i := b]) n (n + 4) ! (i - n) = subslice s n (n + 4) ! (i - n)" by simp
    with False assms show False by (simp add: subslice_def)
  qed
  moreover have "length (subslice (s[i := b]) n (n + 4)) = 4" "length (subslice s n (n + 4)) = 4"
    using assms(2) by simp_all
  ultimately have "u32_from_le (subslice (s[i := b]) n (n + 4)) \<noteq> u32_from_le (subslice s n (n + 4))"
    by (metis u32_le_from_le)
  moreover have "subslice (s[i := b]) 0 n = subslice s 0 n" using False by (simp add: subslice_def)
  ultimately show ?thesis using assms(1) by (simp add: crc_holds_def)
qed

section \<open>Superblocks\<close>

type_synonym PageId = u64

definition SLOT_SIZE :: nat where "SLOT_SIZE = 4096"
definition CRC_OFFSET :: nat where "CRC_OFFSET = 4092"
definition LOOM_MAGIC :: bytes where "LOOM_MAGIC = [0x4C, 0x4F, 0x4F, 0x4D, 0x46, 0x53, 0x00, 0x01]"
definition FORMAT_MAJOR :: u16 where "FORMAT_MAJOR = 1"
definition FORMAT_MINOR :: u16 where "FORMAT_MINOR = 0"

lemma length_LOOM_MAGIC [simp]: "length LOOM_MAGIC = 8"
  by (simp add: LOOM_MAGIC_def)

record Superblock =
  sb_generation :: u64
  sb_page_count :: u64
  sb_digest_algo :: Algo
  sb_region_table :: "PageId option"
  sb_reference :: "bytes option"
  sb_control :: "bytes option"
  sb_encryption :: "bytes option"

definition superblock_fields :: "Superblock \<Rightarrow> bytes" where
  "superblock_fields sb =
    (let s0 = replicate SLOT_SIZE 0;
         s1 = put_at s0 0 LOOM_MAGIC;
         s2 = put_at s1 8 (u16_le FORMAT_MAJOR);
         s3 = put_at s2 10 (u16_le FORMAT_MINOR);
         s4 = put_at s3 12 (u64_le (sb_generation sb));
         s5 = put_at s4 20 [algo_code (sb_digest_algo sb)];
         s6 = put_at s5 21 (u64_le (sb_page_count sb));
         s7 = put_opt s6 29 (map_option u64_le (sb_region_table sb));
         s8 = put_opt s7 38 (sb_reference sb);
         s9 = put_opt s8 71 (sb_control sb)
     in put_opt s9 104 (map_option (\<lambda>em. u16_le (word_of_nat (length em)) @ em) (sb_encryption sb)))"

text \<open>The image is closed by its checksum; metadata that runs past the slot panics in the code.\<close>

definition superblock_encode :: "Superblock \<Rightarrow> bytes res" where
  "superblock_encode sb =
    (if (case sb_encryption sb of None \<Rightarrow> False | Some em \<Rightarrow> 107 + length em > SLOT_SIZE) then Inl Internal
     else let s = superblock_fields sb
          in Inr (put_at s CRC_OFFSET (u32_le (crc32c (subslice s 0 CRC_OFFSET)))))"

definition superblock_decode :: "bytes \<Rightarrow> Superblock option" where
  "superblock_decode s =
    (if subslice s 0 8 \<noteq> LOOM_MAGIC then None
     else if u16_from_le (subslice s 8 10) \<noteq> FORMAT_MAJOR then None
     else (case algo_from_code (s ! 20) of
       Inl _ \<Rightarrow> None
     | Inr algo \<Rightarrow>
       if crc32c (subslice s 0 CRC_OFFSET) \<noteq> u32_from_le (subslice s CRC_OFFSET (CRC_OFFSET + 4)) then None
       else let page_count = u64_from_le (subslice s 21 29); pid = u64_from_le (subslice s 30 38);
                len = unat (u16_from_le (subslice s 105 107))
         in if s ! 29 \<noteq> 0 \<and> page_count \<le> pid then None
            else if s ! 104 = 1 \<and> 107 + len > CRC_OFFSET then None
            else Some \<lparr>sb_generation = u64_from_le (subslice s 12 20), sb_page_count = page_count, sb_digest_algo = algo,
              sb_region_table = (if s ! 29 = 0 then None else Some pid),
              sb_reference = (if s ! 38 = 1 then Some (subslice s 39 71) else None),
              sb_control = (if s ! 71 = 1 then Some (subslice s 72 104) else None),
              sb_encryption = (if s ! 104 = 1 then Some (subslice s 107 (107 + len)) else None)\<rparr>))"

definition superblock_wf :: "Superblock \<Rightarrow> bool" where
  "superblock_wf sb \<longleftrightarrow> (case sb_region_table sb of None \<Rightarrow> True | Some pid \<Rightarrow> pid < sb_page_count sb)
     \<and> opt_len 32 (sb_reference sb) \<and> opt_len 32 (sb_control sb)
     \<and> (case sb_encryption sb of None \<Rightarrow> True | Some em \<Rightarrow> 107 + length em \<le> CRC_OFFSET)"

text \<open>A slot as the concatenation of its fields.\<close>

definition enc_image :: "bytes option \<Rightarrow> bytes" where
  "enc_image x = (case x of None \<Rightarrow> [] | Some em \<Rightarrow> 1 # u16_le (word_of_nat (length em)) @ em)"

definition superblock_prefix :: "Superblock \<Rightarrow> bytes" where
  "superblock_prefix sb = LOOM_MAGIC @ u16_le FORMAT_MAJOR @ u16_le FORMAT_MINOR @ u64_le (sb_generation sb)
     @ [algo_code (sb_digest_algo sb)] @ u64_le (sb_page_count sb) @ opt_image 8 (map_option u64_le (sb_region_table sb))
     @ opt_image 32 (sb_reference sb) @ opt_image 32 (sb_control sb)"

lemma superblock_fields_image:
  assumes "superblock_wf sb"
  shows "superblock_fields sb = superblock_prefix sb @ enc_image (sb_encryption sb)
    @ replicate (3992 - length (enc_image (sb_encryption sb))) 0"
proof -
  have o: "opt_len 8 (map_option u64_le (sb_region_table sb))" "opt_len 32 (sb_reference sb)" "opt_len 32 (sb_control sb)"
    using assms by (auto simp: superblock_wf_def opt_len_def split: option.splits)
  note r = o length_opt_image [OF o(1)] length_opt_image [OF o(2)] length_opt_image [OF o(3)]
  have next_opt: "off = length q \<Longrightarrow> Suc n \<le> k \<Longrightarrow> put_opt (q @ replicate k 0) off x = (q @ opt_image n x) @ replicate (k - Suc n) 0"
    if "opt_len n x" for off q n k x using that by (rule put_opt_next [rotated])
  have p: "superblock_fields sb =
      put_opt (superblock_prefix sb @ replicate 3992 0) 104 (map_option (\<lambda>em. u16_le (word_of_nat (length em)) @ em) (sb_encryption sb))"
    unfolding superblock_fields_def superblock_prefix_def SLOT_SIZE_def Let_def append_assoc [symmetric]
    by (simp add: put_at_first put_at_next next_opt [OF o(1)] next_opt [OF o(2)] next_opt [OF o(3)] r del: append_assoc)
  have l: "104 = length (superblock_prefix sb)" by (simp add: superblock_prefix_def r)
  show ?thesis
  proof (cases "sb_encryption sb")
    case None
    then show ?thesis by (simp add: p put_opt_def enc_image_def)
  next
    case (Some em)
    then have "107 + length em \<le> 4092" using assms by (simp add: superblock_wf_def CRC_OFFSET_def)
    then show ?thesis
      using put_opt_next [OF l, of "2 + length em" "Some (u16_le (word_of_nat (length em)) @ em)" 3992] Some
      by (simp add: p opt_len_def opt_image_def enc_image_def)
  qed
qed

definition superblock_body :: "Superblock \<Rightarrow> bytes" where
  "superblock_body sb = superblock_prefix sb @ enc_image (sb_encryption sb)
     @ replicate (3988 - length (enc_image (sb_encryption sb))) 0"

lemma superblock_lengths:
  assumes "superblock_wf sb"
  shows "length (superblock_prefix sb) = 104" and "length (enc_image (sb_encryption sb)) \<le> 3988"
    and "length (superblock_body sb) = 4092"
proof -
  have o: "opt_len 8 (map_option u64_le (sb_region_table sb))" "opt_len 32 (sb_reference sb)" "opt_len 32 (sb_control sb)"
    using assms by (auto simp: superblock_wf_def opt_len_def split: option.splits)
  show p: "length (superblock_prefix sb) = 104" using o by (simp add: superblock_prefix_def length_opt_image)
  show e: "length (enc_image (sb_encryption sb)) \<le> 3988"
    using assms by (auto simp: superblock_wf_def enc_image_def CRC_OFFSET_def split: option.splits)
  show "length (superblock_body sb) = 4092" using p e by (simp add: superblock_body_def)
qed

lemma superblock_encode_image:
  assumes "superblock_wf sb"
  shows "superblock_encode sb = Inr (superblock_body sb @ u32_le (crc32c (superblock_body sb)))"
proof -
  note l = superblock_lengths [OF assms]
  have ok: "\<not> (case sb_encryption sb of None \<Rightarrow> False | Some em \<Rightarrow> 107 + length em > SLOT_SIZE)"
    using assms by (auto simp: superblock_wf_def CRC_OFFSET_def SLOT_SIZE_def split: option.splits)
  have "superblock_fields sb = superblock_body sb @ replicate 4 0"
    using l(2) by (simp add: superblock_fields_image [OF assms] superblock_body_def flip: replicate_add)
  then show ?thesis
    using ok l(3) by (simp add: superblock_encode_def Let_def CRC_OFFSET_def put_at_def subslice_def)
qed

lemma subslice_at: "i = length p \<Longrightarrow> j = i + length b \<Longrightarrow> subslice (p @ b @ q) i j = b"
  by (simp add: subslice_def)

lemma algo_from_code_code [simp]: "algo_from_code (algo_code a) = Inr a"
  by (cases a) (simp_all add: algo_from_code_def)

lemma superblock_prefix_reads:
  assumes "superblock_wf sb" and s_def: "s = superblock_prefix sb @ q"
  shows "subslice s 0 8 = LOOM_MAGIC" and "subslice s 8 10 = u16_le FORMAT_MAJOR" and "s ! 20 = algo_code (sb_digest_algo sb)"
    and "subslice s 12 20 = u64_le (sb_generation sb)" and "subslice s 21 29 = u64_le (sb_page_count sb)"
    and "s ! 29 = (if sb_region_table sb = None then 0 else 1)" and "s ! 38 = (if sb_reference sb = None then 0 else 1)"
    and "s ! 71 = (if sb_control sb = None then 0 else 1)"
    and "sb_region_table sb = Some pid \<Longrightarrow> subslice s 30 38 = u64_le pid"
    and "sb_reference sb = Some r \<Longrightarrow> subslice s 39 71 = r" and "sb_control sb = Some c \<Longrightarrow> subslice s 72 104 = c"
proof -
  have o: "opt_len 8 (map_option u64_le (sb_region_table sb))" "opt_len 32 (sb_reference sb)" "opt_len 32 (sb_control sb)"
    using assms by (auto simp: superblock_wf_def opt_len_def split: option.splits)
  note r = s_def superblock_prefix_def length_opt_image [OF o(1)] length_opt_image [OF o(2)] length_opt_image [OF o(3)]
    opt_image_flag
  show "subslice s 0 8 = LOOM_MAGIC" "subslice s 8 10 = u16_le FORMAT_MAJOR"
    "subslice s 12 20 = u64_le (sb_generation sb)" "subslice s 21 29 = u64_le (sb_page_count sb)"
    by (simp_all add: r subslice_def)
  show "s ! 20 = algo_code (sb_digest_algo sb)" "s ! 29 = (if sb_region_table sb = None then 0 else 1)"
    "s ! 38 = (if sb_reference sb = None then 0 else 1)" "s ! 71 = (if sb_control sb = None then 0 else 1)"
    by (simp_all add: r nth_append)
  show "subslice s 30 38 = u64_le pid" if "sb_region_table sb = Some pid"
    using that by (simp add: r subslice_def opt_image_body)
  show "subslice s 39 71 = rr" if "sb_reference sb = Some rr" for rr
    using that o(2) by (simp add: r subslice_def opt_image_body opt_len_def)
  show "subslice s 72 104 = c" if "sb_control sb = Some c"
    using that o(3) by (simp add: r subslice_def opt_image_body opt_len_def)
qed

lemma superblock_decode_image:
  assumes "superblock_wf sb" and s: "s = superblock_prefix sb @ enc_image (sb_encryption sb) @ replicate k 0 @ c"
    and "crc_holds CRC_OFFSET s" and "sb_encryption sb = None \<Longrightarrow> k > 0"
  shows "superblock_decode s = Some sb"
proof -
  note r = superblock_prefix_reads [OF assms(1) s]
  note l = superblock_lengths(1) [OF assms(1)]
  have flag: "s ! 104 = (if sb_encryption sb = None then 0 else 1)"
    using assms(4) by (auto simp: s nth_append l enc_image_def split: option.split)
  have len: "unat (u16_from_le (subslice s 105 107)) = length em" "subslice s 107 (107 + length em) = em"
    "107 + length em \<le> CRC_OFFSET" if e: "sb_encryption sb = Some em" for em
  proof -
    show le: "107 + length em \<le> CRC_OFFSET" using assms(1) e by (simp add: superblock_wf_def)
    have "subslice s 105 107 = u16_le (word_of_nat (length em))" by (simp add: s subslice_def l e enc_image_def)
    then show "unat (u16_from_le (subslice s 105 107)) = length em"
      using le by (simp add: CRC_OFFSET_def unat_of_nat)
    show "subslice s 107 (107 + length em) = em" by (simp add: s subslice_def l e enc_image_def)
  qed
  have crc: "crc32c (subslice s 0 CRC_OFFSET) = u32_from_le (subslice s CRC_OFFSET (CRC_OFFSET + 4))"
    using assms(3) by (simp add: crc_holds_def)
  have rt: "\<not> (s ! 29 \<noteq> 0 \<and> sb_page_count sb \<le> u64_from_le (subslice s 30 38))"
    using assms(1) r(9) by (auto simp: superblock_wf_def r(6) split: option.splits)
  have em: "\<not> (s ! 104 = 1 \<and> 107 + unat (u16_from_le (subslice s 105 107)) > CRC_OFFSET)"
    using len by (auto simp: flag split: if_splits)
  have "superblock_decode s = Some \<lparr>sb_generation = sb_generation sb, sb_page_count = sb_page_count sb, sb_digest_algo = sb_digest_algo sb,
      sb_region_table = sb_region_table sb, sb_reference = sb_reference sb, sb_control = sb_control sb, sb_encryption = sb_encryption sb\<rparr>"
    using rt em crc len r(9) r(10) r(11) unfolding superblock_decode_def
    by (simp add: r(1-8) flag Let_def) auto
  then show ?thesis by simp
qed

lemma superblock_decode_crc: "superblock_decode s = Some sb \<Longrightarrow> crc_holds CRC_OFFSET s"
  by (simp add: superblock_decode_def crc_holds_def split: if_splits sum.splits)

lemma superblock_decode_one_byte:
  assumes "superblock_decode s = Some sb" and "length s = SLOT_SIZE" and "i < SLOT_SIZE" and "b \<noteq> s ! i"
  shows "superblock_decode (s[i := b]) = None"
proof (cases "superblock_decode (s[i := b])")
  case (Some sb')
  from superblock_decode_crc [OF this] crc_holds_one_byte [OF superblock_decode_crc [OF assms(1)], of i b] assms
  show ?thesis by (simp add: SLOT_SIZE_def CRC_OFFSET_def)
qed

lemma superblock_encode_ok:
  assumes "superblock_wf sb"
  obtains s where "superblock_encode sb = Inr s" and "length s = SLOT_SIZE" and "superblock_decode s = Some sb"
proof
  let ?s = "superblock_body sb @ u32_le (crc32c (superblock_body sb))"
  note l = superblock_lengths [OF assms]
  show "superblock_encode sb = Inr ?s" by (rule superblock_encode_image [OF assms])
  show "length ?s = SLOT_SIZE" using l by (simp add: SLOT_SIZE_def)
  have "crc_holds CRC_OFFSET ?s" using l by (intro crc_holds_append) (simp add: CRC_OFFSET_def)
  moreover have "?s = superblock_prefix sb @ enc_image (sb_encryption sb)
      @ replicate (3988 - length (enc_image (sb_encryption sb))) 0 @ u32_le (crc32c (superblock_body sb))"
    by (simp add: superblock_body_def)
  ultimately show "superblock_decode ?s = Some sb"
    by (intro superblock_decode_image [OF assms]) (auto simp: enc_image_def)
qed

section \<open>Journal records\<close>

definition J_MAGIC :: bytes where "J_MAGIC = [0x4A, 0x52, 0x4E, 0x4C]"
definition KIND_PREPARE :: u8 where "KIND_PREPARE = 0"
definition KIND_COMMIT :: u8 where "KIND_COMMIT = 1"
definition KIND_ABORT :: u8 where "KIND_ABORT = 2"
definition KIND_CHECKPOINT :: u8 where "KIND_CHECKPOINT = 3"
definition RECORD_SIZE :: nat where "RECORD_SIZE = 4 + 1 + 8 + 8 + 1 + 8 + 1 + 32 + 1 + 32 + 4"
definition CRC_AT :: nat where "CRC_AT = RECORD_SIZE - 4"

record Roots =
  rt_generation :: u64
  rt_page_count :: u64
  rt_region_table :: "PageId option"
  rt_reference :: "bytes option"
  rt_control :: "bytes option"

definition encode_commit :: "Roots \<Rightarrow> bytes" where
  "encode_commit rt =
    (let r0 = replicate RECORD_SIZE 0;
         r1 = put_at r0 0 J_MAGIC;
         r2 = put_at r1 4 [KIND_COMMIT];
         r3 = put_at r2 5 (u64_le (rt_generation rt));
         r4 = put_at r3 13 (u64_le (rt_page_count rt));
         r5 = put_opt r4 21 (map_option u64_le (rt_region_table rt));
         r6 = put_opt r5 30 (rt_reference rt);
         r7 = put_opt r6 63 (rt_control rt)
     in put_at r7 CRC_AT (u32_le (crc32c (subslice r7 0 CRC_AT))))"

definition journal_decode :: "bytes \<Rightarrow> (u8 \<times> Roots) option" where
  "journal_decode buf =
    (if length buf < RECORD_SIZE \<or> subslice buf 0 4 \<noteq> J_MAGIC then None
     else if crc32c (subslice buf 0 CRC_AT) \<noteq> u32_from_le (subslice buf CRC_AT RECORD_SIZE) then None
     else let kind = buf ! 4
       in if kind \<notin> {KIND_PREPARE, KIND_COMMIT, KIND_ABORT, KIND_CHECKPOINT} then None
          else Some (kind, \<lparr>rt_generation = u64_from_le (subslice buf 5 13), rt_page_count = u64_from_le (subslice buf 13 21),
            rt_region_table = (if buf ! 21 = 0 then None else Some (u64_from_le (subslice buf 22 30))),
            rt_reference = (if buf ! 30 = 1 then Some (subslice buf 31 63) else None),
            rt_control = (if buf ! 63 = 1 then Some (subslice buf 64 96) else None)\<rparr>))"

definition roots_wf :: "Roots \<Rightarrow> bool" where
  "roots_wf rt \<longleftrightarrow> opt_len 32 (rt_reference rt) \<and> opt_len 32 (rt_control rt)"

definition commit_body :: "Roots \<Rightarrow> bytes" where
  "commit_body rt = J_MAGIC @ [KIND_COMMIT] @ u64_le (rt_generation rt) @ u64_le (rt_page_count rt)
     @ opt_image 8 (map_option u64_le (rt_region_table rt)) @ opt_image 32 (rt_reference rt) @ opt_image 32 (rt_control rt)"

lemma length_J_MAGIC [simp]: "length J_MAGIC = 4"
  by (simp add: J_MAGIC_def)

lemma roots_images:
  assumes "roots_wf rt"
  shows "opt_len 8 (map_option u64_le (rt_region_table rt))" "opt_len 32 (rt_reference rt)" "opt_len 32 (rt_control rt)"
  using assms by (auto simp: roots_wf_def opt_len_def split: option.splits)

lemma length_commit_body: "roots_wf rt \<Longrightarrow> length (commit_body rt) = 96"
  using roots_images [of rt] by (simp add: commit_body_def length_opt_image)

lemma encode_commit_image:
  assumes "roots_wf rt"
  shows "encode_commit rt = commit_body rt @ u32_le (crc32c (commit_body rt))"
proof -
  note o = roots_images [OF assms]
  note n = put_opt_next [OF _ o(1)] put_opt_next [OF _ o(2)] put_opt_next [OF _ o(3)]
  have "put_opt (put_opt (put_opt (put_at (put_at (put_at (put_at (replicate 100 0) 0 J_MAGIC) 4 [KIND_COMMIT]) 5 (u64_le (rt_generation rt)))
      13 (u64_le (rt_page_count rt))) 21 (map_option u64_le (rt_region_table rt))) 30 (rt_reference rt)) 63 (rt_control rt)
    = commit_body rt @ replicate 4 0"
    unfolding commit_body_def append_assoc [symmetric]
    by (simp add: put_at_first put_at_next n length_opt_image o del: append_assoc)
  then show ?thesis
    using length_commit_body [OF assms]
    by (simp add: encode_commit_def Let_def RECORD_SIZE_def CRC_AT_def put_at_def subslice_def)
qed

lemma journal_decode_commit:
  assumes "roots_wf rt"
  shows "journal_decode (encode_commit rt @ q) = Some (KIND_COMMIT, rt)"
proof -
  note o = roots_images [OF assms]
  define s where "s = commit_body rt @ u32_le (crc32c (commit_body rt)) @ q"
  have l: "length s = 100 + length q" by (simp add: s_def length_commit_body [OF assms])
  have crc: "crc32c (subslice s 0 CRC_AT) = u32_from_le (subslice s CRC_AT RECORD_SIZE)"
    by (simp add: s_def CRC_AT_def RECORD_SIZE_def subslice_def length_commit_body [OF assms])
  note r = s_def commit_body_def length_opt_image [OF o(1)] length_opt_image [OF o(2)] length_opt_image [OF o(3)] opt_image_flag
  have reads: "subslice s 0 4 = J_MAGIC" "s ! 4 = KIND_COMMIT" "subslice s 5 13 = u64_le (rt_generation rt)"
    "subslice s 13 21 = u64_le (rt_page_count rt)" "s ! 21 = (if rt_region_table rt = None then 0 else 1)"
    "s ! 30 = (if rt_reference rt = None then 0 else 1)" "s ! 63 = (if rt_control rt = None then 0 else 1)"
    by (simp_all add: r subslice_def nth_append)
  have opts: "rt_region_table rt = Some pid \<Longrightarrow> subslice s 22 30 = u64_le pid"
    "rt_reference rt = Some a \<Longrightarrow> subslice s 31 63 = a" "rt_control rt = Some c \<Longrightarrow> subslice s 64 96 = c" for pid a c
    using o by (simp_all add: r subslice_def opt_image_body opt_len_def)
  have "journal_decode s = Some (KIND_COMMIT, \<lparr>rt_generation = rt_generation rt, rt_page_count = rt_page_count rt,
      rt_region_table = rt_region_table rt, rt_reference = rt_reference rt, rt_control = rt_control rt\<rparr>)"
    using crc l opts unfolding journal_decode_def by (simp add: reads RECORD_SIZE_def Let_def) auto
  then show ?thesis by (simp add: encode_commit_image [OF assms] s_def)
qed

lemma journal_decode_one_byte:
  assumes "journal_decode s = Some kr" and "length s = RECORD_SIZE" and "i < RECORD_SIZE" and "b \<noteq> s ! i"
  shows "journal_decode (s[i := b]) = None"
proof (cases "journal_decode (s[i := b])")
  case (Some kr')
  have crc: "crc_holds CRC_AT t" if "journal_decode t = Some x" for t x
    using that by (simp add: journal_decode_def crc_holds_def CRC_AT_def RECORD_SIZE_def split: if_splits)
  from crc [OF Some] crc_holds_one_byte [OF crc [OF assms(1)], of i b] assms
  show ?thesis by (simp add: RECORD_SIZE_def CRC_AT_def)
qed

lemma length_encode_commit: "roots_wf rt \<Longrightarrow> length (encode_commit rt) = RECORD_SIZE"
  by (simp add: encode_commit_image length_commit_body RECORD_SIZE_def)

section \<open>Properties\<close>

text \<open>C32: a well-formed superblock is written as one 4096-byte slot, reading the slot back gives the superblock,
  and a slot in which any one byte was changed is refused.\<close>

theorem superblock_slot_detects:
  assumes "superblock_wf sb"
  shows "\<exists>s. superblock_encode sb = Inr s \<and> length s = SLOT_SIZE \<and> superblock_decode s = Some sb
    \<and> (\<forall>i b. i < SLOT_SIZE \<and> b \<noteq> s ! i \<longrightarrow> superblock_decode (s[i := b]) = None)"
proof -
  obtain s where s: "superblock_encode sb = Inr s" "length s = SLOT_SIZE" "superblock_decode s = Some sb"
    using superblock_encode_ok [OF assms] .
  with superblock_decode_one_byte show ?thesis by blast
qed

definition example_superblock :: Superblock where
  "example_superblock = \<lparr>sb_generation = 7, sb_page_count = 3, sb_digest_algo = Sha256, sb_region_table = Some 2,
     sb_reference = Some (replicate 32 5), sb_control = None, sb_encryption = Some [1, 2, 3]\<rparr>"

lemma superblock_slot_detects_witness:
  "\<exists>s. superblock_encode example_superblock = Inr s \<and> length s = SLOT_SIZE \<and> superblock_decode s = Some example_superblock
    \<and> (\<forall>i b. i < SLOT_SIZE \<and> b \<noteq> s ! i \<longrightarrow> superblock_decode (s[i := b]) = None)"
  by (rule superblock_slot_detects) (simp add: example_superblock_def superblock_wf_def opt_len_def CRC_OFFSET_def)

text \<open>C33: a commit record read back from the journal, whatever follows it, gives the root set it was written
  for, and a record in which any one byte was changed is refused.\<close>

theorem journal_record_detects:
  assumes "roots_wf rt"
  shows "journal_decode (encode_commit rt @ q) = Some (KIND_COMMIT, rt) \<and> length (encode_commit rt) = RECORD_SIZE
    \<and> (\<forall>i b. i < RECORD_SIZE \<and> b \<noteq> encode_commit rt ! i \<longrightarrow> journal_decode ((encode_commit rt)[i := b]) = None)"
  using journal_decode_commit [OF assms] journal_decode_commit [OF assms, of "[]"] length_encode_commit [OF assms]
    journal_decode_one_byte [of "encode_commit rt"] by auto

definition example_roots :: Roots where
  "example_roots = \<lparr>rt_generation = 8, rt_page_count = 4, rt_region_table = Some 3, rt_reference = Some (replicate 32 5),
     rt_control = None\<rparr>"

lemma journal_record_detects_witness:
  "journal_decode (encode_commit example_roots @ [9]) = Some (KIND_COMMIT, example_roots)"
  using journal_record_detects [of example_roots "[9]"] by (simp add: example_roots_def roots_wf_def opt_len_def)

end
