(* ===== verification/Loom_Backing.thy ===== *)
theory Loom_Backing
  imports Loom_Prelude
begin

text \<open>
  The block-device surface under the page engine, \<^verbatim>\<open>crates/loom-store/src/backing.rs\<close>: the in-memory
  backing, the planning backing that records writes instead of making them, and the prepared transaction it
  hands over. A backing is the byte list it holds; an operation that takes \<^verbatim>\<open>&mut self\<close> returns the new
  state. The locale states what the layers above rely on, and both backings are interpreted in it.
\<close>

section \<open>The in-memory backing\<close>

datatype io_error = InvalidInput | UnexpectedEof | InvalidData

type_synonym 'a io = "io_error + 'a"

definition USIZE_END :: nat where "USIZE_END = 2 ^ 64"

definition vec_resize :: "bytes \<Rightarrow> nat \<Rightarrow> bytes" where
  "vec_resize m n = take n m @ replicate (n - length m) 0"

definition mem_pread :: "bytes \<Rightarrow> u64 \<Rightarrow> nat \<Rightarrow> bytes io" where
  "mem_pread m off n =
    (let fin = unat off + n
     in if fin \<ge> USIZE_END then Inl InvalidInput
        else if fin > length m then Inl UnexpectedEof
        else Inr (subslice m (unat off) fin))"

definition mem_pwrite :: "bytes \<Rightarrow> u64 \<Rightarrow> bytes \<Rightarrow> bytes io" where
  "mem_pwrite m off buf =
    (let fin = unat off + length buf
     in if fin \<ge> USIZE_END then Inl InvalidInput
        else Inr (put_at (if fin > length m then vec_resize m fin else m) (unat off) buf))"

definition mem_size :: "bytes \<Rightarrow> u64 io" where
  "mem_size m = Inr (word_of_nat (length m))"

definition mem_grow :: "bytes \<Rightarrow> u64 \<Rightarrow> bytes io" where
  "mem_grow m len = Inr (vec_resize m (unat len))"

definition mem_fsync :: "bytes \<Rightarrow> bytes io" where
  "mem_fsync m = Inr m"

lemma length_vec_resize [simp]: "length (vec_resize m n) = n"
  by (simp add: vec_resize_def)

lemma nth_vec_resize: "i < n \<Longrightarrow> vec_resize m n ! i = (if i < length m then m ! i else 0)"
  by (simp add: vec_resize_def nth_append)

lemma mem_pwrite_ok:
  assumes "mem_pwrite m off b = Inr m'"
  shows "length m' = max (length m) (unat off + length b)" and "unat off + length b < USIZE_END"
    and "i < length m' \<Longrightarrow> m' ! i = (if unat off \<le> i \<and> i < unat off + length b then b ! (i - unat off)
      else if i < length m then m ! i else 0)"
  using assms by (auto simp: mem_pwrite_def Let_def length_put_at nth_put_at nth_vec_resize split: if_splits)

lemma mem_pread_written:
  assumes "mem_pwrite m off b = Inr m'"
  shows "mem_pread m' off (length b) = Inr b"
  using assms
  by (auto simp: mem_pwrite_def mem_pread_def Let_def length_put_at subslice_put_at_same split: if_splits)

lemma mem_pread_elsewhere:
  assumes "mem_pwrite m off b = Inr m'" and "unat at + n \<le> length m"
    and "unat at + n \<le> unat off \<or> unat off + length b \<le> unat at"
  shows "mem_pread m' at n = mem_pread m at n"
  using assms
  by (auto simp: mem_pwrite_def mem_pread_def Let_def length_put_at subslice_put_at_other vec_resize_def
      subslice_append_left split: if_splits)

section \<open>Planned operations\<close>

datatype PreparedBackingOperation =
    PWrite u64 bytes
  | PResize u64
  | PFsync

record PreparedBackingTransaction =
  pt_source_len :: u64
  pt_final_len :: u64
  pt_operations :: "PreparedBackingOperation list"

fun is_write :: "PreparedBackingOperation \<Rightarrow> bool" where
  "is_write (PWrite _ _) = True"
| "is_write _ = False"

definition pt_write_count :: "PreparedBackingTransaction \<Rightarrow> nat" where
  "pt_write_count t = length (filter is_write (pt_operations t))"

fun apply_operation :: "bytes \<Rightarrow> PreparedBackingOperation \<Rightarrow> bytes io" where
  "apply_operation m (PWrite off b) = mem_pwrite m off b"
| "apply_operation m (PResize len) = mem_grow m len"
| "apply_operation m PFsync = mem_fsync m"

fun apply_operations :: "bytes \<Rightarrow> PreparedBackingOperation list \<Rightarrow> io_error option \<times> bytes" where
  "apply_operations m [] = (None, m)"
| "apply_operations m (x # xs) =
    (case apply_operation m x of Inl e \<Rightarrow> (Some e, m) | Inr m' \<Rightarrow> apply_operations m' xs)"

text \<open>Applying a transaction returns what it did to the backing with the error, if any: a failed operation leaves
  the ones before it in place.\<close>

definition pt_apply :: "PreparedBackingTransaction \<Rightarrow> bytes \<Rightarrow> io_error option \<times> bytes" where
  "pt_apply t m = (if mem_size m \<noteq> Inr (pt_source_len t) then (Some InvalidData, m) else apply_operations m (pt_operations t))"

record PlanningBacking =
  pb_source :: bytes
  pb_source_len :: u64
  pb_len :: u64
  pb_operations :: "PreparedBackingOperation list"

definition planning_new :: "bytes \<Rightarrow> PlanningBacking io" where
  "planning_new source = rbind (mem_size source) (\<lambda>n.
     Inr \<lparr>pb_source = source, pb_source_len = n, pb_len = n, pb_operations = []\<rparr>)"

definition planning_finish :: "PlanningBacking \<Rightarrow> PreparedBackingTransaction" where
  "planning_finish p = \<lparr>pt_source_len = pb_source_len p, pt_final_len = pb_len p, pt_operations = pb_operations p\<rparr>"

definition overlay_write :: "PlanningBacking \<Rightarrow> u64 \<Rightarrow> bytes \<Rightarrow> PlanningBacking" where
  "overlay_write p off b = p\<lparr>pb_operations := pb_operations p @ [PWrite off b]\<rparr>"

text \<open>The part of a recorded write that falls into the window read is copied over the buffer; the write's end
  saturates.\<close>

fun overlay_read :: "nat \<Rightarrow> nat \<Rightarrow> PreparedBackingOperation \<Rightarrow> bytes \<Rightarrow> bytes" where
  "overlay_read off fin (PWrite wo b) buf =
    (let write_end = min (unat wo + length b) (USIZE_END - 1);
         overlap_start = max off (unat wo); overlap_end = min fin write_end
     in if overlap_start < overlap_end
        then put_at buf (overlap_start - off) (subslice b (overlap_start - unat wo) (overlap_end - unat wo))
        else buf)"
| "overlay_read off fin _ buf = buf"

definition planning_pread :: "PlanningBacking \<Rightarrow> u64 \<Rightarrow> nat \<Rightarrow> bytes io" where
  "planning_pread p off n =
    (let fin = unat off + n
     in if fin \<ge> USIZE_END then Inl InvalidInput
        else if fin > unat (pb_len p) then Inl UnexpectedEof
        else rbind (if off < pb_source_len p
                    then rbind (mem_pread (pb_source p) off (min fin (unat (pb_source_len p)) - unat off)) (\<lambda>b. Inr (put_at (replicate n 0) 0 b))
                    else Inr (replicate n 0))
          (\<lambda>buf. Inr (fold (overlay_read (unat off) fin) (pb_operations p) buf)))"

definition planning_pwrite :: "PlanningBacking \<Rightarrow> u64 \<Rightarrow> bytes \<Rightarrow> PlanningBacking io" where
  "planning_pwrite p off buf =
    (let fin = unat off + length buf
     in if fin \<ge> USIZE_END then Inl InvalidInput
        else Inr (overlay_write (p\<lparr>pb_len := max (pb_len p) (word_of_nat fin)\<rparr>) off buf))"


definition planning_grow :: "PlanningBacking \<Rightarrow> u64 \<Rightarrow> PlanningBacking io" where
  "planning_grow p len = Inr (p\<lparr>pb_len := len, pb_operations := pb_operations p @ [PResize len]\<rparr>)"

definition planning_fsync :: "PlanningBacking \<Rightarrow> PlanningBacking io" where
  "planning_fsync p = Inr (p\<lparr>pb_operations := pb_operations p @ [PFsync]\<rparr>)"

section \<open>What the layers above rely on\<close>

locale backing_io =
  fixes pread :: "'s \<Rightarrow> u64 \<Rightarrow> nat \<Rightarrow> bytes io"
    and pwrite :: "'s \<Rightarrow> u64 \<Rightarrow> bytes \<Rightarrow> 's io"
    and size_of :: "'s \<Rightarrow> u64 io"
    and grow :: "'s \<Rightarrow> u64 \<Rightarrow> 's io"
    and fsync :: "'s \<Rightarrow> 's io"
    and view :: "'s \<Rightarrow> bytes"
    and ok :: "'s \<Rightarrow> bool"
  assumes bounded: "ok s \<Longrightarrow> length (view s) < USIZE_END"
    and reads: "ok s \<Longrightarrow> pread s off n = mem_pread (view s) off n"
    and written: "ok s \<Longrightarrow> unat off + length b < USIZE_END \<Longrightarrow>
      \<exists>s'. pwrite s off b = Inr s' \<and> ok s' \<and> mem_pwrite (view s) off b = Inr (view s')"
    and sized: "ok s \<Longrightarrow> size_of s = mem_size (view s)"
    and grown: "ok s \<Longrightarrow> length (view s) \<le> unat len \<Longrightarrow>
      \<exists>s'. grow s len = Inr s' \<and> ok s' \<and> mem_grow (view s) len = Inr (view s')"
    and fsynced: "ok s \<Longrightarrow> \<exists>s'. fsync s = Inr s' \<and> ok s' \<and> view s' = view s"
begin

lemma read_written:
  assumes "ok s" and "unat off + length b < USIZE_END"
  shows "\<exists>s'. pwrite s off b = Inr s' \<and> ok s' \<and> pread s' off (length b) = Inr b"
proof -
  obtain s' where s': "pwrite s off b = Inr s'" "ok s'" "mem_pwrite (view s) off b = Inr (view s')"
    using written [OF assms] by blast
  with mem_pread_written show ?thesis by (auto simp: reads)
qed

lemma read_elsewhere:
  assumes "ok s" and "unat off + length b < USIZE_END" and "unat at + n \<le> length (view s)"
    and "unat at + n \<le> unat off \<or> unat off + length b \<le> unat at"
  shows "\<exists>s'. pwrite s off b = Inr s' \<and> ok s' \<and> pread s' at n = pread s at n"
proof -
  obtain s' where s': "pwrite s off b = Inr s'" "ok s'" "mem_pwrite (view s) off b = Inr (view s')"
    using written [OF assms(1,2)] by blast
  with mem_pread_elsewhere [OF s'(3) assms(3,4)] assms(1) show ?thesis by (auto simp: reads)
qed

end

interpretation mem: backing_io mem_pread mem_pwrite mem_size mem_grow mem_fsync "\<lambda>m. m" "\<lambda>m. length m < USIZE_END"
proof unfold_locales
  fix m b :: bytes and off :: u64 assume "length m < USIZE_END" and l: "unat off + length b < USIZE_END"
  moreover from l obtain m' where m': "mem_pwrite m off b = Inr m'" by (simp add: mem_pwrite_def Let_def)
  ultimately show "\<exists>s'. mem_pwrite m off b = Inr s' \<and> length s' < USIZE_END \<and> mem_pwrite m off b = Inr s'"
    using mem_pwrite_ok(1) [OF m'] by simp
next
  fix m :: bytes and len :: u64
  show "\<exists>s'. mem_grow m len = Inr s' \<and> length s' < USIZE_END \<and> mem_grow m len = Inr s'"
    using unat_bound [of len] by (simp add: mem_grow_def USIZE_END_def)
qed (auto simp: mem_fsync_def)

section \<open>Planned reads are the reads after applying\<close>
















text \<open>A caller drives a planning backing with a list of calls.\<close>

fun planning_run :: "PlanningBacking \<Rightarrow> PreparedBackingOperation list \<Rightarrow> PlanningBacking io" where
  "planning_run p [] = Inr p"
| "planning_run p (PWrite off b # xs) = rbind (planning_pwrite p off b) (\<lambda>q. planning_run q xs)"
| "planning_run p (PResize len # xs) = rbind (planning_grow p len) (\<lambda>q. planning_run q xs)"
| "planning_run p (PFsync # xs) = rbind (planning_fsync p) (\<lambda>q. planning_run q xs)"


section \<open>Properties\<close>



text \<open>the planning backing forgets a shrinking resize. After a resize to nothing and a resize back to one
  byte it still reads the source's byte, where the applied transaction leaves a zero.\<close>

theorem planning_shrink_gap:
  "\<exists>m xs p0 p m'. planning_new m = Inr p0 \<and> planning_run p0 xs = Inr p \<and> pt_apply (planning_finish p) m = (None, m')
     \<and> planning_pread p 0 1 = Inr [7] \<and> mem_pread m' 0 1 = Inr [0]"
proof -
  let ?start = "\<lparr>pb_source = [7], pb_source_len = 1, pb_len = 1, pb_operations = []\<rparr>"
  let ?stop = "\<lparr>pb_source = [7], pb_source_len = 1, pb_len = 1, pb_operations = [PResize 0, PResize 1]\<rparr>"
  have "planning_new [7] = Inr ?start" by (simp add: planning_new_def mem_size_def rbind_def)
  moreover have "planning_run ?start [PResize 0, PResize 1] = Inr ?stop" by (simp add: planning_grow_def result_simps)
  moreover have "pt_apply (planning_finish ?stop) [7] = (None, [0])"
    by (simp add: pt_apply_def planning_finish_def mem_size_def mem_grow_def vec_resize_def)
  moreover have "planning_pread ?stop 0 1 = Inr [7]"
    by (simp add: planning_pread_def mem_pread_def Let_def USIZE_END_def subslice_def put_at_def result_simps)
  moreover have "mem_pread [0] 0 1 = Inr [0]" by (simp add: mem_pread_def USIZE_END_def subslice_def)
  ultimately show ?thesis by blast
qed

end
