(* ===== verification/Loom_Recovery.thy ===== *)
theory Loom_Recovery
  imports Loom_Superblock Loom_Backing
begin

text \<open>
  How a store file keeps its root set across crashes: the header of \<^verbatim>\<open>crates/loom-store/src/lib.rs\<close>
  (two superblock slots and the journal ring), opening with recovery, and the commit edge at the end of
  \<^verbatim>\<open>finish_txn_impl\<close> in \<^verbatim>\<open>record_io.rs\<close>. The file is the byte list of the backing. A crash leaves a write
  torn: the bytes outside it are as before.
\<close>

section \<open>Layout\<close>

definition JOURNAL_OFFSET :: u64 where "JOURNAL_OFFSET = 2 * 4096"
definition RING_SLOTS :: u64 where "RING_SLOTS = 32"
definition CHECKPOINT_INTERVAL :: u64 where "CHECKPOINT_INTERVAL = 16"
definition DATA_START :: u64 where "DATA_START = 3 * 4096"
definition PAGE_SIZE :: u64 where "PAGE_SIZE = 4096"

definition REUSE_SAFE_WINDOW :: u64 where
  "REUSE_SAFE_WINDOW = (if RING_SLOTS > 2 * CHECKPOINT_INTERVAL then RING_SLOTS else 2 * CHECKPOINT_INTERVAL)"

definition io_err :: "'a io \<Rightarrow> 'a res" where
  "io_err = map_err (\<lambda>_. Io)"

definition ring_off :: "u64 \<Rightarrow> u64" where
  "ring_off g = JOURNAL_OFFSET + (g mod RING_SLOTS) * word_of_nat RECORD_SIZE"

definition cp_slot :: "u64 \<Rightarrow> u64" where
  "cp_slot g = ((g div CHECKPOINT_INTERVAL) AND 1) * word_of_nat SLOT_SIZE"

section \<open>Opening\<close>

definition fresh_superblock :: "Algo \<Rightarrow> bytes option \<Rightarrow> Superblock" where
  "fresh_superblock algo em = \<lparr>sb_generation = 0, sb_page_count = 0, sb_digest_algo = algo, sb_region_table = None,
     sb_reference = None, sb_control = None, sb_encryption = em\<rparr>"

definition store_init :: "Algo \<Rightarrow> bytes option \<Rightarrow> bytes res" where
  "store_init algo em =
    rbind (io_err (mem_pwrite [] 0 (replicate (unat DATA_START) 0))) (\<lambda>f0.
    rbind (superblock_encode (fresh_superblock algo em)) (\<lambda>sb.
    rbind (io_err (mem_pwrite f0 0 sb)) (\<lambda>f1.
    rbind (io_err (mem_pwrite f1 (word_of_nat SLOT_SIZE) sb)) (\<lambda>f2.
    io_err (mem_fsync f2)))))"

definition newest_step :: "bytes \<Rightarrow> u64 \<Rightarrow> Roots option \<Rightarrow> Roots option" where
  "newest_step f i newest =
    (case mem_pread f (JOURNAL_OFFSET + i * word_of_nat RECORD_SIZE) RECORD_SIZE of
       Inl _ \<Rightarrow> newest
     | Inr rbuf \<Rightarrow> (case journal_decode rbuf of
         None \<Rightarrow> newest
       | Some (kind, jr) \<Rightarrow>
           if kind = KIND_COMMIT \<and> (case newest of None \<Rightarrow> True | Some n \<Rightarrow> rt_generation jr > rt_generation n)
           then Some jr else newest))"

definition newest_commit :: "bytes \<Rightarrow> Roots option" where
  "newest_commit f = fold (\<lambda>i. newest_step f (word_of_nat i)) [0 ..< unat RING_SLOTS] None"

definition pick_superblock :: "Superblock option \<Rightarrow> Superblock option \<Rightarrow> Superblock res" where
  "pick_superblock a b =
    (case (a, b) of
       (None, None) \<Rightarrow> Inl CorruptObject
     | (Some x, None) \<Rightarrow> Inr x
     | (None, Some y) \<Rightarrow> Inr y
     | (Some x, Some y) \<Rightarrow> Inr (if sb_generation y > sb_generation x then y else x))"

definition with_roots :: "Superblock \<Rightarrow> Roots \<Rightarrow> Superblock" where
  "with_roots sb jr = \<lparr>sb_generation = rt_generation jr, sb_page_count = rt_page_count jr, sb_digest_algo = sb_digest_algo sb,
     sb_region_table = rt_region_table jr, sb_reference = rt_reference jr, sb_control = rt_control jr,
     sb_encryption = sb_encryption sb\<rparr>"

definition write_superblock_checkpoint :: "Superblock \<Rightarrow> bytes \<Rightarrow> bytes res" where
  "write_superblock_checkpoint sb f =
    rbind (superblock_encode sb) (\<lambda>s.
    rbind (io_err (mem_pwrite f (cp_slot (sb_generation sb)) s)) (\<lambda>f'. io_err (mem_fsync f')))"

text \<open>The superblock recovery settles on, with whether it came from the ring and is to be folded.\<close>

definition recover_superblock :: "bytes \<Rightarrow> (Superblock \<times> bool) res" where
  "recover_superblock f =
    rbind (io_err (mem_pread f 0 SLOT_SIZE)) (\<lambda>a.
    rbind (io_err (mem_pread f (word_of_nat SLOT_SIZE) SLOT_SIZE)) (\<lambda>b.
    rbind (pick_superblock (superblock_decode a) (superblock_decode b)) (\<lambda>sb.
    Inr (case newest_commit f of
           None \<Rightarrow> (sb, False)
         | Some jr \<Rightarrow> if rt_generation jr > sb_generation sb then (with_roots sb jr, True) else (sb, False)))))"

definition open_existing :: "bool \<Rightarrow> bytes \<Rightarrow> (Superblock \<times> bytes) res" where
  "open_existing writable f =
    rbind (recover_superblock f) (\<lambda>(sb, folded).
    rbind (if folded \<and> writable then write_superblock_checkpoint sb f else Inr f) (\<lambda>f'.
    if word_of_nat (length f) < DATA_START + sb_page_count sb * PAGE_SIZE then Inl CorruptObject else Inr (sb, f')))"

definition store_open :: "bool \<Rightarrow> bytes option \<Rightarrow> Algo \<Rightarrow> bytes \<Rightarrow> (Superblock \<times> bytes) res" where
  "store_open writable em algo f =
    (if em \<noteq> None \<and> f \<noteq> [] then Inl AlreadyExists
     else if f = [] then
       if \<not> writable then Inl CorruptObject
       else rbind (store_init algo em) (\<lambda>f'. Inr (fresh_superblock algo em, f'))
     else if length f < unat DATA_START then Inl CorruptObject
     else open_existing writable f)"

section \<open>The commit edge\<close>

definition validate_truncated_roots ::
    "u64 \<Rightarrow> PageId option \<Rightarrow> PageId option \<Rightarrow> PageId option \<Rightarrow> PageId option \<Rightarrow> PageId \<Rightarrow> PageId \<Rightarrow> (PageId \<times> u64) option \<Rightarrow> unit res" where
  "validate_truncated_roots page_count index_root overlay_root current_record_root root_catalog_root region_table_root maintenance_root freemap =
    (if page_count = 0 then Inl CorruptObject
     else if \<exists>page \<in> set (List.map_filter (\<lambda>r. r) [index_root, overlay_root, current_record_root, root_catalog_root,
         Some region_table_root, Some maintenance_root]). page \<ge> page_count then Inl CorruptObject
     else case freemap of
       None \<Rightarrow> Inr ()
     | Some (root, pages) \<Rightarrow>
         if unat root + unat pages \<ge> 2 ^ 64 then Inl CorruptObject
         else if pages = 0 \<or> root + pages > page_count then Inl CorruptObject else Inr ())"

definition commit_ring :: "Roots \<Rightarrow> bytes \<Rightarrow> bytes res" where
  "commit_ring rt f =
    rbind (io_err (mem_fsync f)) (\<lambda>f1.
    rbind (io_err (mem_pwrite f1 (ring_off (rt_generation rt)) (encode_commit rt))) (\<lambda>f2. io_err (mem_fsync f2)))"

definition commit_grow :: "u64 \<Rightarrow> bytes \<Rightarrow> bytes res" where
  "commit_grow page_count f =
    (let committed_len = DATA_START + page_count * PAGE_SIZE
     in rbind (io_err (mem_size f)) (\<lambda>n. if n < committed_len then io_err (mem_grow f committed_len) else Inr f))"

definition commit_tail :: "Superblock \<Rightarrow> Roots \<Rightarrow> bytes \<Rightarrow> bytes res" where
  "commit_tail sb rt f =
    rbind (commit_ring rt f) (\<lambda>f1.
    rbind (commit_grow (rt_page_count rt) f1) (\<lambda>f2.
    if rt_generation rt mod CHECKPOINT_INTERVAL = 0 then write_superblock_checkpoint (with_roots sb rt) f2 else Inr f2))"

section \<open>The header as slots and records\<close>

definition slot_of :: "bytes \<Rightarrow> nat \<Rightarrow> Superblock option" where
  "slot_of f i = superblock_decode (subslice f (i * 4096) (i * 4096 + 4096))"

definition ring_of :: "bytes \<Rightarrow> nat \<Rightarrow> Roots option" where
  "ring_of f i = (case journal_decode (subslice f (8192 + i * 100) (8192 + i * 100 + 100)) of
     None \<Rightarrow> None | Some (kind, jr) \<Rightarrow> if kind = KIND_COMMIT then Some jr else None)"

definition picked :: "bytes \<Rightarrow> Superblock res" where
  "picked f = pick_superblock (slot_of f 0) (slot_of f 1)"

definition file_ok :: "bytes \<Rightarrow> bool" where
  "file_ok f \<longleftrightarrow> 12288 \<le> length f \<and> length f < USIZE_END"

definition newer :: "Roots option \<Rightarrow> Roots option \<Rightarrow> Roots option" where
  "newer r newest = (case r of None \<Rightarrow> newest | Some jr \<Rightarrow>
     (case newest of None \<Rightarrow> Some jr | Some n \<Rightarrow> if rt_generation jr > rt_generation n then Some jr else newest))"

lemma layout: "unat JOURNAL_OFFSET = 8192" "unat RING_SLOTS = 32" "unat CHECKPOINT_INTERVAL = 16" "unat DATA_START = 12288"
  "unat PAGE_SIZE = 4096" "RECORD_SIZE = 100" "SLOT_SIZE = 4096"
  by (simp_all add: JOURNAL_OFFSET_def RING_SLOTS_def CHECKPOINT_INTERVAL_def DATA_START_def PAGE_SIZE_def RECORD_SIZE_def SLOT_SIZE_def)

lemma unat_ring_off: "unat (ring_off g) = 8192 + unat g mod 32 * 100"
proof -
  have m: "unat (g mod RING_SLOTS) = unat g mod 32" by (simp add: unat_mod_distrib layout)
  have "unat ((g mod RING_SLOTS) * word_of_nat RECORD_SIZE) = unat g mod 32 * 100"
    using m by (subst unat_mult_lem [THEN iffD1]) (simp_all add: layout m)
  then show ?thesis unfolding ring_off_def
    by (subst unat_add_lem [THEN iffD1]) (simp_all add: layout, presburger?)
qed

lemma unat_cp_slot: "unat (cp_slot g) = unat g div 16 mod 2 * 4096"
proof -
  have m: "unat ((g div CHECKPOINT_INTERVAL) AND 1) = unat g div 16 mod 2"
    by (simp add: and_one_eq unat_mod_distrib unat_div_distrib layout)
  then show ?thesis unfolding cp_slot_def
    by (subst unat_mult_lem [THEN iffD1]) (simp_all add: layout)
qed

lemma newest_step_view:
  assumes "file_ok f" and "i < 32"
  shows "newest_step f (word_of_nat i) = newer (ring_of f i)"
proof
  fix newest
  have o: "unat (JOURNAL_OFFSET + word_of_nat i * word_of_nat RECORD_SIZE) = 8192 + i * 100"
  proof -
    have "unat (word_of_nat (8192 + i * 100) :: u64) = 8192 + i * 100" using assms(2) by (simp only: unat_of_nat) simp
    moreover have "JOURNAL_OFFSET + word_of_nat i * word_of_nat RECORD_SIZE = (word_of_nat (8192 + i * 100) :: u64)"
      by (simp add: JOURNAL_OFFSET_def layout)
    ultimately show ?thesis by simp
  qed
  then have "mem_pread f (JOURNAL_OFFSET + word_of_nat i * word_of_nat RECORD_SIZE) RECORD_SIZE
      = Inr (subslice f (8192 + i * 100) (8192 + i * 100 + 100))"
    using assms by (simp add: mem_pread_def Let_def file_ok_def layout(6))
  then show "newest_step f (word_of_nat i) newest = newer (ring_of f i) newest"
    by (auto simp: newest_step_def newer_def ring_of_def split: option.splits)
qed

lemma newest_commit_view: "file_ok f \<Longrightarrow> newest_commit f = fold (\<lambda>i. newer (ring_of f i)) [0 ..< 32] None"
  unfolding newest_commit_def layout(2) by (rule fold_cong) (auto simp: newest_step_view)

lemma recover_superblock_view:
  assumes "file_ok f"
  shows "recover_superblock f = rbind (picked f) (\<lambda>sb.
    Inr (case fold (\<lambda>i. newer (ring_of f i)) [0 ..< 32] None of
           None \<Rightarrow> (sb, False)
         | Some jr \<Rightarrow> if rt_generation jr > sb_generation sb then (with_roots sb jr, True) else (sb, False)))"
proof -
  have "mem_pread f 0 SLOT_SIZE = Inr (subslice f 0 4096)" "mem_pread f (word_of_nat SLOT_SIZE) SLOT_SIZE = Inr (subslice f 4096 8192)"
    using assms by (simp_all add: mem_pread_def Let_def file_ok_def layout)
  then show ?thesis
    by (simp add: recover_superblock_def io_err_def map_err_def rbind_def newest_commit_view [OF assms] slot_of_def picked_def)
qed

section \<open>Writes to the header\<close>

text \<open>A torn write changes nothing outside its range; a finished write is one of them.\<close>

definition torn_write :: "bytes \<Rightarrow> nat \<Rightarrow> nat \<Rightarrow> bytes \<Rightarrow> bool" where
  "torn_write f off n f' \<longleftrightarrow> length f' = length f \<and> (\<forall>i < length f. i < off \<or> off + n \<le> i \<longrightarrow> f' ! i = f ! i)"

lemma torn_write_subslice:
  assumes "torn_write f off n f'" and "j \<le> length f" and "j \<le> off \<or> off + n \<le> i"
  shows "subslice f' i j = subslice f i j"
  using assms by (intro nth_equalityI) (auto simp: torn_write_def subslice_def)

lemma torn_slot_view:
  assumes "torn_write f (q * 4096) 4096 f'" and "file_ok f" and "q < 2"
  shows "file_ok f'" and "i < 2 \<Longrightarrow> i \<noteq> q \<Longrightarrow> slot_of f' i = slot_of f i" and "i < 32 \<Longrightarrow> ring_of f' i = ring_of f i"
proof -
  show "file_ok f'" using assms by (simp add: torn_write_def file_ok_def)
  show "slot_of f' i = slot_of f i" if "i < 2" "i \<noteq> q"
  proof -
    have "i * 4096 + 4096 \<le> q * 4096 \<or> q * 4096 + 4096 \<le> i * 4096" using that(2) by linarith
    then show ?thesis unfolding slot_of_def
      using assms(2) that by (subst torn_write_subslice [OF assms(1)]) (auto simp: file_ok_def)
  qed
  show "ring_of f' i = ring_of f i" if "i < 32" unfolding ring_of_def
    using assms(2,3) that by (subst torn_write_subslice [OF assms(1)]) (auto simp: file_ok_def)
qed

lemma torn_ring_view:
  assumes "torn_write f (8192 + k * 100) 100 f'" and "file_ok f" and "k < 32"
  shows "file_ok f'" and "i < 2 \<Longrightarrow> slot_of f' i = slot_of f i" and "i < 32 \<Longrightarrow> i \<noteq> k \<Longrightarrow> ring_of f' i = ring_of f i"
proof -
  show "file_ok f'" using assms by (simp add: torn_write_def file_ok_def)
  show "slot_of f' i = slot_of f i" if "i < 2" unfolding slot_of_def
    using assms(2) that by (subst torn_write_subslice [OF assms(1)]) (auto simp: file_ok_def)
  show "ring_of f' i = ring_of f i" if "i < 32" "i \<noteq> k"
  proof -
    have "8192 + i * 100 + 100 \<le> 8192 + k * 100 \<or> 8192 + k * 100 + 100 \<le> 8192 + i * 100" using that(2) by linarith
    then show ?thesis unfolding ring_of_def
      using assms(2) that by (subst torn_write_subslice [OF assms(1)]) (auto simp: file_ok_def)
  qed
qed

lemma mem_pwrite_torn:
  assumes "unat off + length b \<le> length f" and "length f < USIZE_END"
  shows "\<exists>f'. mem_pwrite f off b = Inr f' \<and> torn_write f (unat off) (length b) f' \<and> subslice f' (unat off) (unat off + length b) = b"
  using assms by (auto simp: mem_pwrite_def Let_def torn_write_def length_put_at nth_put_at subslice_put_at_same)

lemma write_checkpoint_view:
  assumes "superblock_wf sb" and "file_ok f"
  defines "q \<equiv> unat (sb_generation sb) div 16 mod 2"
  shows "\<exists>f'. write_superblock_checkpoint sb f = Inr f' \<and> torn_write f (q * 4096) 4096 f' \<and> slot_of f' q = Some sb"
proof -
  obtain s where s: "superblock_encode sb = Inr s" "length s = 4096" "superblock_decode s = Some sb"
    using superblock_encode_ok [OF assms(1)] unfolding layout(7) .
  have o: "unat (cp_slot (sb_generation sb)) = q * 4096" unfolding q_def by (rule unat_cp_slot)
  have "q < 2" by (simp add: q_def)
  then have "unat (cp_slot (sb_generation sb)) + length s \<le> length f" "length f < USIZE_END"
    using assms(2) unfolding o s(2) file_ok_def by linarith+
  from mem_pwrite_torn [OF this] obtain f' where "mem_pwrite f (cp_slot (sb_generation sb)) s = Inr f'"
      "torn_write f (q * 4096) 4096 f'" "subslice f' (q * 4096) (q * 4096 + 4096) = s"
    unfolding o s(2) by blast
  then show ?thesis
    using s by (simp add: write_superblock_checkpoint_def io_err_def map_err_def mem_fsync_def rbind_def slot_of_def)
qed

lemma commit_ring_view:
  assumes "roots_wf rt" and "file_ok f"
  defines "k \<equiv> unat (rt_generation rt) mod 32"
  shows "\<exists>f'. commit_ring rt f = Inr f' \<and> torn_write f (8192 + k * 100) 100 f' \<and> ring_of f' k = Some rt"
proof -
  have l: "length (encode_commit rt) = 100" using length_encode_commit [OF assms(1)] by (simp add: layout)
  have d: "journal_decode (encode_commit rt) = Some (KIND_COMMIT, rt)" using journal_decode_commit [OF assms(1), of "[]"] by simp
  have o: "unat (ring_off (rt_generation rt)) = 8192 + k * 100" unfolding k_def by (rule unat_ring_off)
  have "k < 32" by (simp add: k_def)
  then have "unat (ring_off (rt_generation rt)) + length (encode_commit rt) \<le> length f" "length f < USIZE_END"
    using assms(2) unfolding o l file_ok_def by linarith+
  from mem_pwrite_torn [OF this] obtain f' where "mem_pwrite f (ring_off (rt_generation rt)) (encode_commit rt) = Inr f'"
      "torn_write f (8192 + k * 100) 100 f'" "subslice f' (8192 + k * 100) (8192 + k * 100 + 100) = encode_commit rt"
    unfolding o l by blast
  then show ?thesis
    using d by (simp add: commit_ring_def io_err_def map_err_def mem_fsync_def rbind_def ring_of_def)
qed

section \<open>What the header keeps\<close>

definition roots_of :: "Superblock \<Rightarrow> Roots" where
  "roots_of sb = \<lparr>rt_generation = sb_generation sb, rt_page_count = sb_page_count sb, rt_region_table = sb_region_table sb,
     rt_reference = sb_reference sb, rt_control = sb_control sb\<rparr>"

lemma roots_of_simps [simp]:
  "rt_generation (roots_of sb) = sb_generation sb" "roots_of (with_roots sb rt) = rt" "roots_of (sb\<lparr>sb_encryption := e\<rparr>) = roots_of sb"
  "sb_generation (with_roots sb rt) = rt_generation rt" "sb_encryption (with_roots sb rt) = sb_encryption sb"
  "sb_digest_algo (with_roots sb rt) = sb_digest_algo sb" "sb_page_count (with_roots sb rt) = rt_page_count rt"
  by (simp_all add: roots_of_def with_roots_def)

lemma with_roots_of:
  "sb_digest_algo x = sb_digest_algo sb \<Longrightarrow> with_roots x (roots_of sb) = sb\<lparr>sb_encryption := sb_encryption x\<rparr>"
  by (simp add: with_roots_def roots_of_def)

lemma roots_of_eq:
  "roots_of x = roots_of sb \<Longrightarrow> sb_digest_algo x = sb_digest_algo sb \<Longrightarrow> x = sb\<lparr>sb_encryption := sb_encryption x\<rparr>"
  by (cases x; cases sb) (simp add: roots_of_def)

lemma newer_fold:
  assumes "fold (\<lambda>i. newer (R i)) is n0 = n"
  shows "case n of None \<Rightarrow> n0 = None \<and> (\<forall>i \<in> set is. R i = None)
    | Some r \<Rightarrow> (n0 = Some r \<or> (\<exists>i \<in> set is. R i = Some r))
       \<and> (\<forall>x. (n0 = Some x \<or> (\<exists>i \<in> set is. R i = Some x)) \<longrightarrow> rt_generation x \<le> rt_generation r)"
  using assms
proof (induction "is" arbitrary: n0)
  case Nil
  then show ?case by (auto split: option.split)
next
  case (Cons i xs)
  then have "fold (\<lambda>i. newer (R i)) xs (newer (R i) n0) = n" by simp
  from Cons.IH [OF this] show ?case
    by (fastforce simp: newer_def split: option.splits if_splits)
qed

definition own_slot :: "Superblock \<Rightarrow> nat" where
  "own_slot sb = unat (sb_generation sb) div 16 mod 2"

definition other_slot :: "Superblock \<Rightarrow> nat" where
  "other_slot sb = 1 - own_slot sb"

definition slot_ok :: "Superblock \<Rightarrow> bytes option set \<Rightarrow> Superblock \<Rightarrow> bool" where
  "slot_ok sb E x \<longleftrightarrow> sb_digest_algo x = sb_digest_algo sb \<and> sb_encryption x \<in> E \<and> sb_generation x \<le> sb_generation sb
     \<and> (sb_generation x = sb_generation sb \<longrightarrow> roots_of x = roots_of sb)"

definition ring_ok :: "bytes \<Rightarrow> Superblock \<Rightarrow> bool" where
  "ring_ok f sb \<longleftrightarrow> (\<forall>i < 32. \<forall>r. ring_of f i = Some r \<longrightarrow> rt_generation r \<le> sb_generation sb
       \<and> (rt_generation r = sb_generation sb \<longrightarrow> r = roots_of sb))
     \<and> (sb_generation sb \<noteq> 0 \<longrightarrow> ring_of f (unat (sb_generation sb) mod 32) = Some (roots_of sb))"

definition encs_ok :: "bytes option set \<Rightarrow> bool" where
  "encs_ok E \<longleftrightarrow> (\<forall>em. Some em \<in> E \<longrightarrow> 107 + length em \<le> CRC_OFFSET)"

text \<open>The committed superblock can be recovered: the slot the last checkpoint did not write is readable, and so is
  the one it wrote unless its write was torn.\<close>

definition disk_core :: "bytes \<Rightarrow> Superblock \<Rightarrow> bytes option set \<Rightarrow> bool" where
  "disk_core f sb E \<longleftrightarrow> file_ok f \<and> superblock_wf sb \<and> encs_ok E \<and> sb_encryption sb \<in> E \<and> ring_ok f sb
     \<and> (\<exists>x. slot_of f (other_slot sb) = Some x \<and> slot_ok sb E x \<and> (sb_generation x = sb_generation sb \<longrightarrow> sb_generation sb = 0))
     \<and> (case slot_of f (own_slot sb) of None \<Rightarrow> sb_generation sb \<noteq> 0 | Some x \<Rightarrow> slot_ok sb E x)"

text \<open>In a running store both slots are readable, and recovery would find the metadata of the running store.\<close>

definition disk_full :: "bytes \<Rightarrow> Superblock \<Rightarrow> bytes option set \<Rightarrow> bool" where
  "disk_full f sb E \<longleftrightarrow> disk_core f sb E \<and> slot_of f (own_slot sb) \<noteq> None
     \<and> (\<exists>x. picked f = Inr x \<and> sb_encryption x = sb_encryption sb)"

definition fits :: "bytes \<Rightarrow> Superblock \<Rightarrow> bool" where
  "fits f sb \<longleftrightarrow> 12288 + unat (sb_page_count sb) * 4096 \<le> length f"

lemma own_slot_less: "own_slot sb < 2" "other_slot sb < 2" "own_slot sb = 0 \<and> other_slot sb = 1 \<or> own_slot sb = 1 \<and> other_slot sb = 0"
  by (auto simp: own_slot_def other_slot_def)

lemma picked_cases:
  assumes "disk_core f sb E"
  obtains x where "picked f = Inr x" and "slot_ok sb E x" and "slot_of f (own_slot sb) = None \<longrightarrow> sb_generation x \<noteq> sb_generation sb"
proof -
  have "\<exists>x. picked f = Inr x \<and> slot_ok sb E x \<and> (slot_of f (own_slot sb) = None \<longrightarrow> sb_generation x \<noteq> sb_generation sb)"
    using assms own_slot_less(3) [of sb]
    by (auto simp: disk_core_def picked_def pick_superblock_def split: option.splits)
  then obtain x where "picked f = Inr x \<and> slot_ok sb E x \<and> (slot_of f (own_slot sb) = None \<longrightarrow> sb_generation x \<noteq> sb_generation sb)" ..
  then show thesis by (intro that [of x]) simp_all
qed

lemma newest_committed:
  assumes "ring_ok f sb"
  defines "n \<equiv> fold (\<lambda>i. newer (ring_of f i)) [0 ..< 32] None"
  shows "sb_generation sb \<noteq> 0 \<Longrightarrow> n = Some (roots_of sb)" and "n = Some r \<Longrightarrow> rt_generation r \<le> sb_generation sb"
proof -
  have "fold (\<lambda>i. newer (ring_of f i)) [0 ..< 32] None = n" by (simp add: n_def)
  note m = newer_fold [OF this]
  show le: "rt_generation r \<le> sb_generation sb" if "n = Some r" for r
    using m that assms(1) by (auto simp: ring_ok_def)
  show "n = Some (roots_of sb)" if g: "sb_generation sb \<noteq> 0"
  proof -
    let ?k = "unat (sb_generation sb) mod 32"
    have k: "?k \<in> set [0 ..< 32]" "ring_of f ?k = Some (roots_of sb)" using assms(1) g by (auto simp: ring_ok_def)
    then obtain r where r: "n = Some r" using m by (cases n) auto
    then obtain i where i: "i < 32" "ring_of f i = Some r" using m by auto
    have "sb_generation sb \<le> rt_generation r" using m r k by fastforce
    with le [OF r] have "rt_generation r = sb_generation sb" by simp
    with i assms(1) r show ?thesis by (auto simp: ring_ok_def)
  qed
qed

lemma recover_picked:
  assumes "file_ok f" and "ring_ok f sb" and "picked f = Inr x" and "slot_ok sb E x"
  shows "recover_superblock f = Inr (sb\<lparr>sb_encryption := sb_encryption x\<rparr>, sb_generation x < sb_generation sb)"
proof (cases "sb_generation x < sb_generation sb")
  case True
  then have "sb_generation sb \<noteq> 0" by auto
  from newest_committed(1) [OF assms(2) this] True show ?thesis
    using assms by (simp add: recover_superblock_view rbind_def with_roots_of slot_ok_def)
next
  case False
  then have "sb_generation x = sb_generation sb" using assms(4) by (simp add: slot_ok_def)
  then have "x = sb\<lparr>sb_encryption := sb_encryption x\<rparr>" using assms(4) by (intro roots_of_eq) (auto simp: slot_ok_def)
  with False show ?thesis
    using assms(3) newest_committed(2) [OF assms(2)] \<open>sb_generation x = sb_generation sb\<close>
    by (auto simp: recover_superblock_view [OF assms(1)] rbind_def split: option.split dest!: leD)
qed

lemma encryption_only [simp]:
  "own_slot (sb\<lparr>sb_encryption := e\<rparr>) = own_slot sb" "other_slot (sb\<lparr>sb_encryption := e\<rparr>) = other_slot sb" "slot_ok (sb\<lparr>sb_encryption := e\<rparr>) E x = slot_ok sb E x"
  "ring_ok f (sb\<lparr>sb_encryption := e\<rparr>) = ring_ok f sb" "fits f (sb\<lparr>sb_encryption := e\<rparr>) = fits f sb"
  by (simp_all add: own_slot_def other_slot_def slot_ok_def ring_ok_def fits_def)

lemma superblock_wf_encryption: "superblock_wf sb \<Longrightarrow> encs_ok E \<Longrightarrow> e \<in> E \<Longrightarrow> superblock_wf (sb\<lparr>sb_encryption := e\<rparr>)"
  by (auto simp: superblock_wf_def encs_ok_def split: option.splits)

lemma slot_ok_mono: "slot_ok sb E x \<Longrightarrow> E \<subseteq> E' \<Longrightarrow> slot_ok sb E' x"
  by (auto simp: slot_ok_def)

lemma disk_core_encryption: "disk_core f sb E \<Longrightarrow> e \<in> E \<Longrightarrow> disk_core f (sb\<lparr>sb_encryption := e\<rparr>) E"
  by (auto simp: disk_core_def superblock_wf_encryption split: option.splits)

lemma ring_ok_cong: "(\<And>i. i < 32 \<Longrightarrow> ring_of f' i = ring_of f i) \<Longrightarrow> ring_ok f' sb = ring_ok f sb"
  by (simp add: ring_ok_def)

lemma checkpoint_core:
  assumes "disk_core f sb E" and "torn_write f (own_slot sb * 4096) 4096 f'"
    and "slot_of f' (own_slot sb) \<in> {None, slot_of f (own_slot sb), Some (sb\<lparr>sb_encryption := e\<rparr>)}"
    and "e \<in> E'" and "E \<subseteq> E'" and "encs_ok E'" and "sb_generation sb \<noteq> 0 \<or> slot_of f' (own_slot sb) \<noteq> None"
  shows "disk_core f' sb E'"
proof -
  have fo: "file_ok f" using assms(1) by (simp add: disk_core_def)
  note v = torn_slot_view [OF assms(2) fo own_slot_less(1)]
  have "other_slot sb \<noteq> own_slot sb" using own_slot_less(3) [of sb] by auto
  then have o: "slot_of f' (other_slot sb) = slot_of f (other_slot sb)" by (rule v(2) [OF own_slot_less(2)])
  have r: "ring_ok f' sb = ring_ok f sb" by (rule ring_ok_cong) (rule v(3))
  have own: "case slot_of f' (own_slot sb) of None \<Rightarrow> sb_generation sb \<noteq> 0 | Some x \<Rightarrow> slot_ok sb E' x"
  proof (cases "slot_of f' (own_slot sb)")
    case None
    then show ?thesis using assms(7) by simp
  next
    case (Some x)
    then consider "slot_of f (own_slot sb) = Some x" | "x = sb\<lparr>sb_encryption := e\<rparr>" using assms(3) by auto
    then show ?thesis
    proof cases
      case 1
      then have "slot_ok sb E x" using assms(1) by (simp add: disk_core_def)
      with Some assms(5) show ?thesis by (simp add: slot_ok_mono)
    next
      case 2
      with Some assms(4) show ?thesis by (simp add: slot_ok_def)
    qed
  qed
  then show ?thesis
    using assms(1,5,6) v(1) by (auto simp: disk_core_def o r intro: slot_ok_mono)
qed

lemma checkpoint_full:
  assumes "disk_core f sb E" and "torn_write f (own_slot sb * 4096) 4096 f'"
    and "slot_of f' (own_slot sb) = Some (sb\<lparr>sb_encryption := e\<rparr>)" and "e \<in> E'" and "E \<subseteq> E'" and "encs_ok E'"
  shows "disk_full f' (sb\<lparr>sb_encryption := e\<rparr>) E'"
proof -
  have c: "disk_core f' sb E'" using assms by (intro checkpoint_core [of f sb E f' e]) auto
  then obtain y where y: "slot_of f' (other_slot sb) = Some y" "slot_ok sb E' y"
      "sb_generation y = sb_generation sb \<longrightarrow> sb_generation sb = 0"
    by (auto simp: disk_core_def)
  have "picked f' = Inr (sb\<lparr>sb_encryption := e\<rparr>)"
  proof -
    have le: "\<not> sb_generation sb < sb_generation y" using y(2) by (auto simp: slot_ok_def not_less)
    consider "own_slot sb = 0" "other_slot sb = 1" | "own_slot sb = 1" "other_slot sb = 0" using own_slot_less(3) [of sb] by auto
    then show ?thesis
    proof cases
      case 1
      then show ?thesis using y(1) le assms(3) by (simp add: picked_def pick_superblock_def)
    next
      case 2
      then have "sb_generation sb \<noteq> 0" by (auto simp: own_slot_def)
      with y le have "sb_generation y < sb_generation sb" by (auto simp: slot_ok_def)
      then show ?thesis using 2 y(1) assms(3) by (simp add: picked_def pick_superblock_def)
    qed
  qed
  with disk_core_encryption [OF c assms(4)] assms(3) show ?thesis by (simp add: disk_full_def)
qed

lemma next_ring_slot:
  assumes "(g :: u64) + 1 \<noteq> 0"
  shows "unat (g + 1) mod 32 \<noteq> unat g mod 32" and "g < g + 1"
proof -
  have u: "unat (g + 1) = unat g + 1" using assms by (metis Suc_eq_plus1 add.commute unatSuc)
  then show "unat (g + 1) mod 32 \<noteq> unat g mod 32" by (simp add: mod_Suc)
  show "g < g + 1" using u by (simp add: word_less_nat_alt)
qed

lemma ring_old:
  assumes "disk_core f sb E" and "torn_write f (8192 + k * 100) 100 f'" and "k < 32" and "k \<noteq> unat (sb_generation sb) mod 32"
    and "ring_of f' k \<in> {None, ring_of f k}"
  shows "disk_core f' sb E"
proof -
  have fo: "file_ok f" using assms(1) by (simp add: disk_core_def)
  note v = torn_ring_view [OF assms(2) fo assms(3)]
  have sub: "ring_of f' i = Some r \<Longrightarrow> ring_of f i = Some r" if "i < 32" for i r
    using v(3) [OF that] assms(5) by (cases "i = k") auto
  have "ring_of f' (unat (sb_generation sb) mod 32) = ring_of f (unat (sb_generation sb) mod 32)"
    using assms(4) by (intro v(3)) auto
  then have "ring_ok f' sb" using assms(1) sub unfolding disk_core_def ring_ok_def by metis
  moreover have "slot_of f' (own_slot sb) = slot_of f (own_slot sb)" "slot_of f' (other_slot sb) = slot_of f (other_slot sb)"
    by (rule v(2), rule own_slot_less)+
  ultimately show ?thesis using assms(1) v(1) by (simp add: disk_core_def)
qed

lemma ring_new:
  assumes "disk_full f sb E" and "torn_write f (8192 + k * 100) 100 f'" and "k = unat (rt_generation rt) mod 32"
    and "ring_of f' k = Some rt" and "rt_generation rt = sb_generation sb + 1" and "rt_generation rt \<noteq> 0"
    and "superblock_wf (with_roots sb rt)"
  shows "disk_full f' (with_roots sb rt) E"
proof -
  let ?n = "with_roots sb rt"
  have k: "k < 32" using assms(3) by simp
  have c: "disk_core f sb E" and fo: "file_ok f" using assms(1) by (simp_all add: disk_full_def disk_core_def)
  note v = torn_ring_view [OF assms(2) fo k]
  note nx = next_ring_slot [of "sb_generation sb"]
  have lt: "sb_generation sb < rt_generation rt" using nx(2) assms(5,6) by simp
  have old: "ring_of f i = Some r \<Longrightarrow> rt_generation r \<le> sb_generation sb" if "i < 32" for i r
    using c that by (simp add: disk_core_def ring_ok_def)
  have "ring_ok f' ?n"
    unfolding ring_ok_def using old v(3) assms(3,4) lt by (fastforce dest: order.strict_trans1)
  moreover have slots: "\<exists>x. slot_of f' i = Some x \<and> slot_ok ?n E x \<and> sb_generation x \<noteq> sb_generation ?n" if "i < 2" for i
  proof -
    have "i = own_slot sb \<or> i = other_slot sb" using that own_slot_less(3) [of sb] by auto
    then obtain x where "slot_of f i = Some x" "slot_ok sb E x"
      using assms(1) by (auto simp: disk_full_def disk_core_def)
    then show ?thesis using v(2) [OF that] lt by (auto simp: slot_ok_def)
  qed
  moreover obtain x y where xy: "slot_of f' (own_slot ?n) = Some x" "slot_ok ?n E x"
      "slot_of f' (other_slot ?n) = Some y" "slot_ok ?n E y" "sb_generation y \<noteq> sb_generation ?n"
    using slots [OF own_slot_less(1), of ?n] slots [OF own_slot_less(2), of ?n] by blast
  moreover have "encs_ok E" "sb_encryption ?n \<in> E" using c by (simp_all add: disk_core_def)
  ultimately have core: "disk_core f' ?n E" using v(1) assms(7) by (simp add: disk_core_def)
  have "picked f' = picked f" using v(2) by (simp add: picked_def)
  with core assms(1) xy(1) show ?thesis by (simp add: disk_full_def)
qed

lemma same_header:
  assumes "disk_core f sb E" and "take 12288 f' = take 12288 f" and "length f \<le> length f'" and "length f' < USIZE_END"
  shows "disk_core f' sb E" and "disk_full f sb E \<Longrightarrow> disk_full f' sb E"
proof -
  have fo: "file_ok f" using assms(1) by (simp add: disk_core_def)
  then have fo': "file_ok f'" using assms(3,4) by (simp add: file_ok_def)
  have sub: "subslice f' i j = subslice f i j" if "j \<le> 12288" for i j
  proof -
    have "subslice g i j = subslice (take 12288 g) i j" for g using that by (simp add: subslice_def drop_take min_def)
    then show ?thesis using assms(2) by metis
  qed
  have s: "slot_of f' i = slot_of f i" if "i < 2" for i using that by (simp add: slot_of_def sub)
  have "ring_of f' i = ring_of f i" if "i < 32" for i using that by (simp add: ring_of_def sub)
  then have r: "ring_ok f' sb = ring_ok f sb" by (rule ring_ok_cong)
  show "disk_core f' sb E" using assms(1) fo' by (simp add: disk_core_def s own_slot_less r)
  then show "disk_full f' sb E" if "disk_full f sb E"
    using that by (simp add: disk_full_def s own_slot_less picked_def)
qed

end
