(* ===== verification/Loom_Crash.thy ===== *)
theory Loom_Crash
  imports Loom_Recovery
begin

text \<open>
  The store file across commits, key changes, crashes and reopenings, as a transition system over the
  operations of the recovery theory. A crash may tear the write under way; a torn slot or record reads as
  nothing, as its old content or as its new content. The properties say that a committed root set is never
  lost, and name the two windows in which the code does lose something.
\<close>

section \<open>Opening and committing\<close>

lemma fits_check:
  assumes "fits f sb" and "length f < USIZE_END"
  shows "\<not> word_of_nat (length f) < DATA_START + sb_page_count sb * PAGE_SIZE"
proof -
  have b: "12288 + unat (sb_page_count sb) * 4096 < 2 ^ 64" using assms by (simp add: fits_def USIZE_END_def)
  then have "unat (sb_page_count sb * PAGE_SIZE) = unat (sb_page_count sb) * 4096"
    by (subst unat_mult_lem [THEN iffD1]) (simp_all add: layout)
  then have "unat (DATA_START + sb_page_count sb * PAGE_SIZE) = 12288 + unat (sb_page_count sb) * 4096"
    using b by (subst unat_add_lem [THEN iffD1]) (simp_all add: layout)
  moreover have "unat (word_of_nat (length f) :: u64) = length f" using assms(2) by (simp add: unat_of_nat USIZE_END_def)
  ultimately show ?thesis using assms(1) by (simp add: word_less_nat_alt fits_def)
qed

lemma fits_torn: "torn_write f off n f' \<Longrightarrow> fits f' sb = fits f sb"
  by (simp add: torn_write_def fits_def)

lemma open_picked:
  assumes c: "disk_core f sb E" and "fits f sb" and p: "picked f = Inr x" "slot_ok sb E x"
    and own: "slot_of f (own_slot sb) = None \<longrightarrow> sb_generation x \<noteq> sb_generation sb"
  defines "sb' \<equiv> sb\<lparr>sb_encryption := sb_encryption x\<rparr>"
  shows "\<exists>f'. open_existing w f = Inr (sb', f') \<and> fits f' sb' \<and> (w \<longrightarrow> disk_full f' sb' E) \<and> (\<not> w \<longrightarrow> f' = f)"
proof -
  have fo: "file_ok f" "ring_ok f sb" "superblock_wf sb" "encs_ok E" using c by (simp_all add: disk_core_def)
  have e: "sb_encryption x \<in> E" using p(2) by (simp add: slot_ok_def)
  note rec = recover_picked [OF fo(1,2) p]
  have chk: "\<not> word_of_nat (length f) < DATA_START + sb_page_count sb' * PAGE_SIZE"
    using fits_check [of f sb'] assms(2) fo(1) by (simp add: sb'_def file_ok_def)
  consider "w" "sb_generation x < sb_generation sb" | "w" "\<not> sb_generation x < sb_generation sb" | "\<not> w" by blast
  then show ?thesis
  proof cases
    case 1
    obtain f' where f': "write_superblock_checkpoint sb' f = Inr f'" "torn_write f (own_slot sb * 4096) 4096 f'"
        "slot_of f' (own_slot sb) = Some sb'"
      using write_checkpoint_view [OF superblock_wf_encryption [OF fo(3,4) e] fo(1)] by (auto simp: sb'_def own_slot_def)
    then have "disk_full f' sb' E" using checkpoint_full [OF c f'(2), of "sb_encryption x" E] e fo(4) by (simp add: sb'_def)
    then show ?thesis
      using f' 1 chk assms(2) fits_torn [OF f'(2)] by (simp add: open_existing_def rec rbind_def sb'_def)
  next
    case 2
    then have "slot_of f (own_slot sb) \<noteq> None" using own p(2) by (auto simp: slot_ok_def)
    then have "disk_full f sb' E" using disk_core_encryption [OF c e] p(1) by (simp add: disk_full_def sb'_def)
    then show ?thesis using 2 chk assms(2) by (simp add: open_existing_def rec rbind_def sb'_def)
  next
    case 3
    then show ?thesis using chk assms(2) by (simp add: open_existing_def rec rbind_def sb'_def)
  qed
qed

lemma open_core:
  assumes "disk_core f sb E" and "fits f sb"
  shows "\<exists>e \<in> E. \<exists>f'. open_existing w f = Inr (sb\<lparr>sb_encryption := e\<rparr>, f') \<and> fits f' sb
    \<and> (w \<longrightarrow> disk_full f' (sb\<lparr>sb_encryption := e\<rparr>) E)"
proof -
  obtain x where x: "picked f = Inr x" "slot_ok sb E x" "slot_of f (own_slot sb) = None \<longrightarrow> sb_generation x \<noteq> sb_generation sb"
    by (rule picked_cases [OF assms(1)])
  have "\<exists>f'. open_existing w f = Inr (sb\<lparr>sb_encryption := sb_encryption x\<rparr>, f') \<and> fits f' sb
      \<and> (w \<longrightarrow> disk_full f' (sb\<lparr>sb_encryption := sb_encryption x\<rparr>) E)"
    using open_picked [OF assms x, of w] unfolding encryption_only by blast
  moreover have "sb_encryption x \<in> E" using x(2) by (simp add: slot_ok_def)
  ultimately show ?thesis by blast
qed

lemma open_full:
  assumes "disk_full f sb E" and "fits f sb"
  shows "\<exists>f'. open_existing w f = Inr (sb, f') \<and> fits f' sb \<and> (w \<longrightarrow> disk_full f' sb E)"
proof -
  have c: "disk_core f sb E" using assms(1) by (simp add: disk_full_def)
  obtain x where x: "picked f = Inr x" "slot_ok sb E x" "slot_of f (own_slot sb) = None \<longrightarrow> sb_generation x \<noteq> sb_generation sb"
    by (rule picked_cases [OF c])
  have "sb_encryption x = sb_encryption sb" using assms(1) x(1) by (auto simp: disk_full_def)
  then have "sb\<lparr>sb_encryption := sb_encryption x\<rparr> = sb" by simp
  with open_picked [OF c assms(2) x, of w] show ?thesis by (simp only:) blast
qed

lemma open_truncated:
  assumes c: "disk_core f sb E" and "word_of_nat (length f) < DATA_START + sb_page_count sb * PAGE_SIZE"
  shows "open_existing w f = Inl CorruptObject"
proof -
  obtain x where x: "picked f = Inr x" "slot_ok sb E x" using picked_cases [OF c] .
  have fo: "file_ok f" "ring_ok f sb" "superblock_wf sb" "encs_ok E" using c by (simp_all add: disk_core_def)
  have e: "sb_encryption x \<in> E" using x(2) by (simp add: slot_ok_def)
  obtain g where "write_superblock_checkpoint (sb\<lparr>sb_encryption := sb_encryption x\<rparr>) f = Inr g"
    using write_checkpoint_view [OF superblock_wf_encryption [OF fo(3,4) e] fo(1)] by blast
  with assms(2) show ?thesis by (simp add: open_existing_def recover_picked [OF fo(1,2) x] rbind_def)
qed

lemma store_open_existing:
  assumes "disk_core f sb E"
  shows "store_open w None algo f = open_existing w f"
proof -
  have l: "12288 \<le> length f" using assms by (simp add: disk_core_def file_ok_def)
  then have "f \<noteq> []" by auto
  with l show ?thesis by (simp add: store_open_def layout)
qed

definition commit_ready ::
    "Superblock \<Rightarrow> PageId option \<Rightarrow> PageId option \<Rightarrow> PageId option \<Rightarrow> PageId option \<Rightarrow> PageId \<Rightarrow> (PageId \<times> u64) option \<Rightarrow> Roots \<Rightarrow> bool" where
  "commit_ready sb index_root overlay_root current_record_root root_catalog_root maintenance_root freemap rt \<longleftrightarrow>
    rt_generation rt = sb_generation sb + 1 \<and> rt_generation rt \<noteq> 0
    \<and> (case rt_region_table rt of None \<Rightarrow> False | Some p \<Rightarrow>
         validate_truncated_roots (rt_page_count rt) index_root overlay_root current_record_root root_catalog_root p maintenance_root freemap = Inr ())
    \<and> opt_len 32 (rt_reference rt) \<and> opt_len 32 (rt_control rt) \<and> 12288 + unat (rt_page_count rt) * 4096 < USIZE_END"

lemma commit_ready_wf:
  assumes "commit_ready sb ir ov cr rc mt fm rt" and "superblock_wf sb"
  shows "roots_wf rt" and "superblock_wf (with_roots sb rt)"
proof -
  show "roots_wf rt" using assms(1) by (simp add: commit_ready_def roots_wf_def)
  obtain p where p: "rt_region_table rt = Some p"
      "validate_truncated_roots (rt_page_count rt) ir ov cr rc p mt fm = Inr ()"
    using assms(1) by (auto simp: commit_ready_def split: option.splits)
  have "p < rt_page_count rt"
  proof (rule ccontr)
    assume "\<not> p < rt_page_count rt"
    then have "\<exists>page \<in> set (List.map_filter (\<lambda>r. r) [ir, ov, cr, rc, Some p, Some mt]). page \<ge> rt_page_count rt"
      by (auto simp: List.map_filter_def not_less intro!: bexI [of _ p] split: option.splits)
    with p(2) show False by (auto simp: validate_truncated_roots_def split: if_splits)
  qed
  with p(1) assms show "superblock_wf (with_roots sb rt)"
    by (simp add: superblock_wf_def commit_ready_def with_roots_def)
qed

lemma commit_grow_view:
  assumes "file_ok f" and "12288 + unat page_count * 4096 < USIZE_END"
  shows "\<exists>f'. commit_grow page_count f = Inr f' \<and> take 12288 f' = take 12288 f \<and> length f \<le> length f' \<and> length f' < USIZE_END
    \<and> 12288 + unat page_count * 4096 \<le> length f'"
proof -
  have "unat (page_count * PAGE_SIZE) = unat page_count * 4096"
    using assms(2) by (subst unat_mult_lem [THEN iffD1]) (simp_all add: layout USIZE_END_def)
  then have c: "unat (DATA_START + page_count * PAGE_SIZE) = 12288 + unat page_count * 4096"
    using assms(2) by (subst unat_add_lem [THEN iffD1]) (simp_all add: layout USIZE_END_def)
  have l: "unat (word_of_nat (length f) :: u64) = length f" using assms(1) by (simp add: file_ok_def unat_of_nat USIZE_END_def)
  show ?thesis
  proof (cases "length f < 12288 + unat page_count * 4096")
    case True
    then have "commit_grow page_count f = Inr (vec_resize f (12288 + unat page_count * 4096))"
      by (simp add: commit_grow_def Let_def mem_size_def mem_grow_def io_err_def map_err_def rbind_def word_less_nat_alt l c)
    moreover have "take 12288 (vec_resize f (12288 + unat page_count * 4096)) = take 12288 f"
      using True assms(1) by (simp add: vec_resize_def file_ok_def min_def)
    ultimately show ?thesis using True assms(2) by simp
  next
    case False
    then have "commit_grow page_count f = Inr f"
      by (simp add: commit_grow_def Let_def mem_size_def io_err_def map_err_def rbind_def word_less_nat_alt l c)
    with False assms(1) show ?thesis by (simp add: file_ok_def)
  qed
qed

text \<open>The two states inside a commit: after the record is durable, and after the file has grown.\<close>

lemma commit_ring_full:
  assumes "disk_full f sb E" and "commit_ready sb ir ov cr rc mt fm rt"
  shows "\<exists>f1. commit_ring rt f = Inr f1 \<and> disk_full f1 (with_roots sb rt) E \<and> length f1 = length f"
proof -
  have c: "file_ok f" "superblock_wf sb" using assms(1) by (simp_all add: disk_full_def disk_core_def)
  note w = commit_ready_wf [OF assms(2) c(2)]
  obtain f1 where f1: "commit_ring rt f = Inr f1" "torn_write f (8192 + unat (rt_generation rt) mod 32 * 100) 100 f1"
      "ring_of f1 (unat (rt_generation rt) mod 32) = Some rt"
    using commit_ring_view [OF w(1) c(1)] by blast
  have "disk_full f1 (with_roots sb rt) E"
    using assms(2) by (intro ring_new [OF assms(1) f1(2) refl f1(3) _ _ w(2)]) (auto simp: commit_ready_def)
  with f1 show ?thesis by (auto simp: torn_write_def)
qed

lemma commit_grow_full:
  assumes "disk_full f sb E" and "12288 + unat (sb_page_count sb) * 4096 < USIZE_END"
  shows "\<exists>f2. commit_grow (sb_page_count sb) f = Inr f2 \<and> disk_full f2 sb E \<and> fits f2 sb"
proof -
  have c: "disk_core f sb E" "file_ok f" using assms(1) by (simp_all add: disk_full_def disk_core_def)
  obtain f2 where f2: "commit_grow (sb_page_count sb) f = Inr f2" "take 12288 f2 = take 12288 f" "length f \<le> length f2"
      "length f2 < USIZE_END" "12288 + unat (sb_page_count sb) * 4096 \<le> length f2"
    using commit_grow_view [OF c(2) assms(2)] by blast
  from same_header(2) [OF c(1) f2(2-4) assms(1)] f2 show ?thesis by (simp add: fits_def)
qed

lemma checkpoint_written:
  assumes "disk_core f sb E" and "fits f sb" and "e \<in> E'" and "E \<subseteq> E'" and "encs_ok E'"
  shows "\<exists>f'. write_superblock_checkpoint (sb\<lparr>sb_encryption := e\<rparr>) f = Inr f' \<and> disk_full f' (sb\<lparr>sb_encryption := e\<rparr>) E' \<and> fits f' sb"
proof -
  have c: "file_ok f" "superblock_wf sb" using assms(1) by (simp_all add: disk_core_def)
  obtain f' where f': "write_superblock_checkpoint (sb\<lparr>sb_encryption := e\<rparr>) f = Inr f'" "torn_write f (own_slot sb * 4096) 4096 f'"
      "slot_of f' (own_slot sb) = Some (sb\<lparr>sb_encryption := e\<rparr>)"
    using write_checkpoint_view [OF superblock_wf_encryption [OF c(2) assms(5,3)] c(1)] by (auto simp: own_slot_def)
  from checkpoint_full [OF assms(1) f'(2,3) assms(3-5)] f' assms(2) fits_torn [OF f'(2)] show ?thesis by auto
qed

lemma commit_tail_full:
  assumes "disk_full f sb E" and "commit_ready sb ir ov cr rc mt fm rt"
  shows "\<exists>f'. commit_tail sb rt f = Inr f' \<and> disk_full f' (with_roots sb rt) E \<and> fits f' (with_roots sb rt)"
proof -
  let ?n = "with_roots sb rt"
  obtain f1 where f1: "commit_ring rt f = Inr f1" "disk_full f1 ?n E" using commit_ring_full [OF assms] by blast
  have "12288 + unat (sb_page_count ?n) * 4096 < USIZE_END" using assms(2) by (simp add: commit_ready_def)
  from commit_grow_full [OF f1(2) this] obtain f2 where f2: "commit_grow (rt_page_count rt) f1 = Inr f2" "disk_full f2 ?n E" "fits f2 ?n"
    by auto
  have core: "disk_core f2 ?n E" using f2(2) by (simp add: disk_full_def)
  then have e: "sb_encryption ?n \<in> E" "encs_ok E" by (simp_all add: disk_core_def)
  have "?n\<lparr>sb_encryption := sb_encryption ?n\<rparr> = ?n" by simp
  with checkpoint_written [OF core f2(3) e(1) subset_refl e(2)]
  have "\<exists>f'. write_superblock_checkpoint ?n f2 = Inr f' \<and> disk_full f' ?n E \<and> fits f' ?n" by (simp only:)
  then show ?thesis using f1(1) f2 by (auto simp: commit_tail_def rbind_def)
qed

lemma decode_zeros: "journal_decode (replicate n 0) = None"
proof -
  have "subslice (replicate n (0 :: u8)) 0 4 \<noteq> J_MAGIC" if "100 \<le> n"
  proof
    assume "subslice (replicate n (0 :: u8)) 0 4 = J_MAGIC"
    then have "subslice (replicate n (0 :: u8)) 0 4 ! 0 = J_MAGIC ! 0" by simp
    with that show False by (simp add: subslice_def J_MAGIC_def)
  qed
  then show ?thesis by (auto simp: journal_decode_def layout)
qed

lemma store_init_full:
  assumes "encs_ok {em}"
  shows "\<exists>f. store_init algo em = Inr f \<and> disk_full f (fresh_superblock algo em) {em} \<and> fits f (fresh_superblock algo em)
    \<and> length f = 12288"
proof -
  let ?sb = "fresh_superblock algo em"
  have wf: "superblock_wf ?sb" using assms by (auto simp: superblock_wf_def fresh_superblock_def opt_len_def encs_ok_def split: option.splits)
  obtain s where s: "superblock_encode ?sb = Inr s" "length s = 4096" "superblock_decode s = Some ?sb"
    using superblock_encode_ok [OF wf] unfolding layout(7) .
  define f0 :: bytes where "f0 = replicate 12288 0"
  define f1 where "f1 = put_at f0 0 s"
  define f where "f = put_at f1 4096 s"
  have l: "length f0 = 12288" "length f1 = 12288" "length f = 12288" by (simp_all add: f0_def f1_def f_def length_put_at s)
  have w0: "mem_pwrite [] 0 (replicate (unat DATA_START) 0) = Inr f0"
    by (simp add: mem_pwrite_def Let_def USIZE_END_def layout vec_resize_def put_at_def f0_def)
  have w1: "mem_pwrite f0 0 s = Inr f1" and w2: "mem_pwrite f1 (word_of_nat SLOT_SIZE) s = Inr f"
    using l s by (simp_all add: mem_pwrite_def Let_def USIZE_END_def layout f1_def f_def)
  have init: "store_init algo em = Inr f"
    by (simp add: store_init_def w0 w1 w2 s(1) io_err_def map_err_def rbind_def mem_fsync_def)
  have slots: "slot_of f 0 = Some ?sb" "slot_of f 1 = Some ?sb"
    using s l by (simp_all add: slot_of_def f_def f1_def subslice_put_at_same subslice_put_at_other length_put_at)
  have rings: "ring_of f i = None" if "i < 32" for i
  proof -
    have "subslice f (8192 + i * 100) (8192 + i * 100 + 100) = subslice f0 (8192 + i * 100) (8192 + i * 100 + 100)"
      using that s l by (simp add: f_def f1_def subslice_put_at_other length_put_at)
    also have "\<dots> = replicate 100 0" using that by (simp add: f0_def subslice_replicate)
    finally show ?thesis by (simp add: ring_of_def decode_zeros)
  qed
  have g: "sb_generation ?sb = 0" "sb_encryption ?sb = em" "sb_page_count ?sb = 0" by (simp_all add: fresh_superblock_def)
  then have own: "own_slot ?sb = 0" "other_slot ?sb = 1" by (simp_all add: own_slot_def other_slot_def)
  have "slot_ok ?sb {em} ?sb" by (simp add: slot_ok_def g)
  then have "disk_core f ?sb {em}"
    using wf assms l slots rings by (simp add: disk_core_def own g ring_ok_def file_ok_def USIZE_END_def)
  then have "disk_full f ?sb {em}" using slots by (simp add: disk_full_def own picked_def pick_superblock_def)
  with init l show ?thesis by (simp add: fits_def g)
qed

section \<open>The store across crashes\<close>

record store =
  st_file :: bytes
  st_sb :: Superblock
  st_up :: bool
  st_encs :: "bytes option set"

text \<open>What a torn slot or record may read as.\<close>

definition torn_slot :: "bytes \<Rightarrow> Superblock \<Rightarrow> bytes \<Rightarrow> bool" where
  "torn_slot f sb f' \<longleftrightarrow> torn_write f (unat (cp_slot (sb_generation sb))) SLOT_SIZE f'
     \<and> slot_of f' (own_slot sb) \<in> {None, slot_of f (own_slot sb), Some sb}"

definition torn_record :: "bytes \<Rightarrow> Roots \<Rightarrow> bytes \<Rightarrow> bool" where
  "torn_record f rt f' \<longleftrightarrow> torn_write f (unat (ring_off (rt_generation rt))) RECORD_SIZE f'"

definition ring_slot :: "Roots \<Rightarrow> nat" where
  "ring_slot rt = unat (rt_generation rt) mod 32"

inductive store_step :: "store \<Rightarrow> store \<Rightarrow> bool" where
  data: "st_up s \<Longrightarrow> mem_pwrite (st_file s) off b = Inr f' \<Longrightarrow> unat DATA_START \<le> unat off \<Longrightarrow>
    store_step s (s\<lparr>st_file := f'\<rparr>)"
| commit: "st_up s \<Longrightarrow> commit_ready (st_sb s) ir ov cr rc mt fm rt \<Longrightarrow> commit_tail (st_sb s) rt (st_file s) = Inr f' \<Longrightarrow>
    store_step s (s\<lparr>st_file := f', st_sb := with_roots (st_sb s) rt\<rparr>)"
| rekey: "st_up s \<Longrightarrow> encs_ok {e} \<Longrightarrow> write_superblock_checkpoint ((st_sb s)\<lparr>sb_encryption := e\<rparr>) (st_file s) = Inr f' \<Longrightarrow>
    store_step s (s\<lparr>st_file := f', st_sb := (st_sb s)\<lparr>sb_encryption := e\<rparr>, st_encs := insert e (st_encs s)\<rparr>)"
| stop: "st_up s \<Longrightarrow> store_step s (s\<lparr>st_up := False\<rparr>)"
| crash_record: "st_up s \<Longrightarrow> commit_ready (st_sb s) ir ov cr rc mt fm rt \<Longrightarrow> torn_record (st_file s) rt f' \<Longrightarrow>
    ring_of f' (ring_slot rt) \<in> {None, ring_of (st_file s) (ring_slot rt)} \<Longrightarrow>
    store_step s (s\<lparr>st_file := f', st_up := False\<rparr>)"
| crash_recorded: "st_up s \<Longrightarrow> commit_ready (st_sb s) ir ov cr rc mt fm rt \<Longrightarrow> torn_record (st_file s) rt f' \<Longrightarrow>
    ring_of f' (ring_slot rt) = Some rt \<Longrightarrow> fits f' (with_roots (st_sb s) rt) \<Longrightarrow>
    store_step s (s\<lparr>st_file := f', st_sb := with_roots (st_sb s) rt, st_up := False\<rparr>)"
| crash_checkpoint: "st_up s \<Longrightarrow> commit_ready (st_sb s) ir ov cr rc mt fm rt \<Longrightarrow> commit_ring rt (st_file s) = Inr f1 \<Longrightarrow>
    commit_grow (rt_page_count rt) f1 = Inr f2 \<Longrightarrow> rt_generation rt mod CHECKPOINT_INTERVAL = 0 \<Longrightarrow>
    torn_slot f2 (with_roots (st_sb s) rt) f' \<Longrightarrow>
    store_step s (s\<lparr>st_file := f', st_sb := with_roots (st_sb s) rt, st_up := False\<rparr>)"
| crash_rekey: "st_up s \<Longrightarrow> encs_ok {e} \<Longrightarrow> sb_generation (st_sb s) \<noteq> 0 \<Longrightarrow>
    torn_slot (st_file s) ((st_sb s)\<lparr>sb_encryption := e\<rparr>) f' \<Longrightarrow>
    store_step s (s\<lparr>st_file := f', st_up := False, st_encs := insert e (st_encs s)\<rparr>)"
| crash_open: "\<not> st_up s \<Longrightarrow> recover_superblock (st_file s) = Inr (sb', True) \<Longrightarrow> torn_slot (st_file s) sb' f' \<Longrightarrow>
    store_step s (s\<lparr>st_file := f'\<rparr>)"
| reopen: "\<not> st_up s \<Longrightarrow> store_open True None algo (st_file s) = Inr (sb', f') \<Longrightarrow>
    store_step s (s\<lparr>st_file := f', st_sb := sb', st_up := True\<rparr>)"

definition store_inv :: "store \<Rightarrow> bool" where
  "store_inv s \<longleftrightarrow> fits (st_file s) (st_sb s)
     \<and> (if st_up s then disk_full (st_file s) (st_sb s) (st_encs s) else disk_core (st_file s) (st_sb s) (st_encs s))"

lemma torn_slot_core:
  assumes "disk_core f sb E" and "torn_slot f (sb\<lparr>sb_encryption := e\<rparr>) f'" and "e \<in> E'" and "E \<subseteq> E'" and "encs_ok E'"
    and "sb_generation sb \<noteq> 0"
  shows "disk_core f' sb E'" and "fits f' sb = fits f sb"
proof -
  have t: "torn_write f (own_slot sb * 4096) 4096 f'"
    "slot_of f' (own_slot sb) \<in> {None, slot_of f (own_slot sb), Some (sb\<lparr>sb_encryption := e\<rparr>)}"
    using assms(2) by (simp_all add: torn_slot_def unat_cp_slot layout own_slot_def)
  show "disk_core f' sb E'" using assms(6) by (intro checkpoint_core [OF assms(1) t assms(3-5)]) simp
  show "fits f' sb = fits f sb" by (rule fits_torn [OF t(1)])
qed

lemma commit_between:
  assumes "disk_full f sb E" and "commit_ready sb ir ov cr rc mt fm rt" and "commit_ring rt f = Inr f1"
    and "commit_grow (rt_page_count rt) f1 = Inr f2"
  shows "disk_full f2 (with_roots sb rt) E" and "fits f2 (with_roots sb rt)"
proof -
  have 1: "disk_full f1 (with_roots sb rt) E" using commit_ring_full [OF assms(1,2)] assms(3) by auto
  have "12288 + unat (sb_page_count (with_roots sb rt)) * 4096 < USIZE_END" using assms(2) by (simp add: commit_ready_def)
  from commit_grow_full [OF 1 this] assms(4) show "disk_full f2 (with_roots sb rt) E" "fits f2 (with_roots sb rt)" by auto
qed

lemma commit_ready_generation:
  assumes "commit_ready sb ir ov cr rc mt fm rt"
  shows "rt_generation rt = sb_generation sb + 1" and "rt_generation rt \<noteq> 0" and "ring_slot rt \<noteq> unat (sb_generation sb) mod 32"
proof -
  show g: "rt_generation rt = sb_generation sb + 1" "rt_generation rt \<noteq> 0" using assms by (auto simp: commit_ready_def)
  then show "ring_slot rt \<noteq> unat (sb_generation sb) mod 32" using next_ring_slot(1) [of "sb_generation sb"] by (simp add: ring_slot_def)
qed

lemma torn_record_write: "torn_record f rt f' \<Longrightarrow> torn_write f (8192 + ring_slot rt * 100) 100 f'"
  by (simp add: torn_record_def unat_ring_off layout ring_slot_def)

lemma data_write:
  assumes "disk_core f sb E" and "mem_pwrite f off b = Inr f'" and "unat DATA_START \<le> unat off"
  shows "disk_core f' sb E" and "disk_full f sb E \<Longrightarrow> disk_full f' sb E" and "fits f sb \<Longrightarrow> fits f' sb"
proof -
  have l: "12288 \<le> length f" "length f < USIZE_END" using assms(1) by (simp_all add: disk_core_def file_ok_def)
  note w = mem_pwrite_ok [OF assms(2)]
  have "take 12288 f' = take 12288 f" using l w(1) w(3) assms(3) by (intro nth_equalityI) (auto simp: layout)
  from same_header [OF assms(1) this] w(1,2) l show "disk_core f' sb E" "disk_full f sb E \<Longrightarrow> disk_full f' sb E" by simp_all
  show "fits f sb \<Longrightarrow> fits f' sb" using w(1) by (simp add: fits_def le_max_iff_disj)
qed

lemma record_torn:
  assumes "disk_full f sb E" and r: "commit_ready sb ir ov cr rc mt fm rt" and "torn_record f rt f'"
  shows "ring_of f' (ring_slot rt) \<in> {None, ring_of f (ring_slot rt)} \<Longrightarrow> disk_core f' sb E"
    and "ring_of f' (ring_slot rt) = Some rt \<Longrightarrow> disk_core f' (with_roots sb rt) E" and "fits f' sb = fits f sb"
proof -
  have c: "disk_core f sb E" "superblock_wf sb" using assms(1) by (simp_all add: disk_full_def disk_core_def)
  note t = torn_record_write [OF assms(3)] and g = commit_ready_generation [OF r]
  have k: "ring_slot rt < 32" by (simp add: ring_slot_def)
  show "disk_core f' sb E" if "ring_of f' (ring_slot rt) \<in> {None, ring_of f (ring_slot rt)}"
    by (rule ring_old [OF c(1) t k g(3) that])
  show "disk_core f' (with_roots sb rt) E" if "ring_of f' (ring_slot rt) = Some rt"
    using ring_new [OF assms(1) t ring_slot_def that g(1,2) commit_ready_wf(2) [OF r c(2)]] by (simp add: disk_full_def)
  show "fits f' sb = fits f sb" by (rule fits_torn [OF t])
qed

lemma checkpoint_torn:
  assumes "disk_full f sb E" and r: "commit_ready sb ir ov cr rc mt fm rt" and "commit_ring rt f = Inr f1"
    and "commit_grow (rt_page_count rt) f1 = Inr f2" and "torn_slot f2 (with_roots sb rt) f'"
  shows "disk_core f' (with_roots sb rt) E" and "fits f' (with_roots sb rt)"
proof -
  let ?n = "with_roots sb rt"
  note b = commit_between [OF assms(1-4)]
  then have c: "disk_core f2 ?n E" by (simp add: disk_full_def)
  then have e: "sb_encryption ?n \<in> E" "encs_ok E" by (simp_all add: disk_core_def)
  have g: "sb_generation ?n \<noteq> 0" using commit_ready_generation [OF r] by simp
  have t: "torn_slot f2 (?n\<lparr>sb_encryption := sb_encryption ?n\<rparr>) f'"
    using assms(5) by (simp add: with_roots_def)
  from torn_slot_core [OF c t e(1) subset_refl e(2) g] b(2)
  show "disk_core f' ?n E" "fits f' ?n" by simp_all
qed

lemma open_torn:
  assumes c: "disk_core f sb E" and "recover_superblock f = Inr (sb', True)" and "torn_slot f sb' f'"
  shows "disk_core f' sb E" and "fits f' sb = fits f sb"
proof -
  obtain x where x: "picked f = Inr x" "slot_ok sb E x" using picked_cases [OF c] .
  have fo: "file_ok f" "ring_ok f sb" "encs_ok E" using c by (simp_all add: disk_core_def)
  from recover_picked [OF fo(1,2) x] assms(2)
  have sb': "sb' = sb\<lparr>sb_encryption := sb_encryption x\<rparr>" and lt: "sb_generation x < sb_generation sb" by simp_all
  have g: "sb_generation sb \<noteq> 0" using lt by auto
  have e: "sb_encryption x \<in> E" using x(2) by (simp add: slot_ok_def)
  from torn_slot_core [OF c assms(3) [unfolded sb'] e subset_refl fo(3) g]
  show "disk_core f' sb E" "fits f' sb = fits f sb" .
qed

lemma store_inv_core: "store_inv s \<Longrightarrow> disk_core (st_file s) (st_sb s) (st_encs s) \<and> fits (st_file s) (st_sb s)"
  by (simp add: store_inv_def disk_full_def split: if_splits)

lemma encs_ok_insert: "disk_core f sb E \<Longrightarrow> encs_ok {e} \<Longrightarrow> encs_ok (insert e E)"
  by (auto simp: disk_core_def encs_ok_def)

lemma store_step_inv:
  assumes "store_step s s'" and "store_inv s"
  shows "store_inv s'"
proof -
  from store_inv_core [OF assms(2)] have c: "disk_core (st_file s) (st_sb s) (st_encs s)" and f: "fits (st_file s) (st_sb s)" by simp_all
  have up: "st_up s \<Longrightarrow> disk_full (st_file s) (st_sb s) (st_encs s)" using assms(2) by (simp add: store_inv_def)
  from assms(1) show ?thesis
  proof cases
    case (data off b f')
    with data_write [OF c data(3,4)] up f show ?thesis by (simp add: store_inv_def)
  next
    case (commit ir ov cr rc mt fm rt f')
    with commit_tail_full [OF up commit(3)] show ?thesis by (auto simp: store_inv_def)
  next
    case (rekey e f')
    with checkpoint_written [OF c f insertI1 subset_insertI encs_ok_insert [OF c rekey(3)]] show ?thesis by (auto simp: store_inv_def)
  next
    case stop
    with c f show ?thesis by (simp add: store_inv_def)
  next
    case (crash_record ir ov cr rc mt fm rt f')
    with record_torn [OF up crash_record(3,4)] f show ?thesis by (simp add: store_inv_def)
  next
    case (crash_recorded ir ov cr rc mt fm rt f')
    with record_torn [OF up crash_recorded(3,4)] show ?thesis by (simp add: store_inv_def)
  next
    case (crash_checkpoint ir ov cr rc mt fm rt f1 f2 f')
    with checkpoint_torn [OF up crash_checkpoint(3-5,7)] show ?thesis by (simp add: store_inv_def)
  next
    case (crash_rekey e f')
    with torn_slot_core [OF c crash_rekey(5) insertI1 subset_insertI encs_ok_insert [OF c crash_rekey(3)] crash_rekey(4)] f
    show ?thesis by (simp add: store_inv_def)
  next
    case (crash_open sb' f')
    with open_torn [OF c crash_open(3,4)] f show ?thesis by (simp add: store_inv_def)
  next
    case (reopen algo sb' f')
    with open_core [OF c f, of True] store_open_existing [OF c, of True algo] show ?thesis by (auto simp: store_inv_def)
  qed
qed

lemma store_steps_inv: "store_step\<^sup>*\<^sup>* s s' \<Longrightarrow> store_inv s \<Longrightarrow> store_inv s'"
  by (induction rule: rtranclp_induct) (auto intro: store_step_inv)

definition created :: "Algo \<Rightarrow> bytes option \<Rightarrow> store \<Rightarrow> bool" where
  "created algo em s \<longleftrightarrow> encs_ok {em} \<and> store_open True em algo [] = Inr (st_sb s, st_file s) \<and> st_up s \<and> st_encs s = {em}"

lemma created_inv:
  assumes "created algo em s"
  shows "store_inv s"
proof -
  have "encs_ok {em}" using assms by (simp add: created_def)
  from store_init_full [OF this, of algo] assms show ?thesis
    by (auto simp: created_def store_open_def rbind_def store_inv_def)
qed

section \<open>A first commit\<close>

text \<open>The root set of a first commit: the region table in page 0, the maintenance page in page 1, and the sixteen
  pages of the metadata reserve behind them, which a commit allocates and does not write.\<close>

definition first_roots :: Roots where
  "first_roots = \<lparr>rt_generation = 1, rt_page_count = 18, rt_region_table = Some 0, rt_reference = None, rt_control = None\<rparr>"

lemma created_exists:
  assumes "encs_ok {em}"
  obtains s where "created algo em s" and "st_sb s = fresh_superblock algo em" and "length (st_file s) = 12288"
proof -
  obtain f where f: "store_init algo em = Inr f" "length f = 12288" using store_init_full [OF assms, of algo] by blast
  let ?s = "\<lparr>st_file = f, st_sb = fresh_superblock algo em, st_up = True, st_encs = {em}\<rparr>"
  show thesis using f assms by (intro that [of ?s]) (simp_all add: created_def store_open_def rbind_def)
qed

lemma first_commit_ready: "commit_ready (fresh_superblock algo em) None None None None 1 None first_roots"
  by (simp add: commit_ready_def first_roots_def fresh_superblock_def validate_truncated_roots_def List.map_filter_def
      opt_len_def USIZE_END_def word_le_nat_alt)

lemma first_commit_step:
  assumes "created algo em s" and "st_sb s = fresh_superblock algo em"
  shows "\<exists>f'. store_step s (s\<lparr>st_file := f', st_sb := with_roots (fresh_superblock algo em) first_roots\<rparr>)"
proof -
  have up: "st_up s" using assms(1) by (simp add: created_def)
  have full: "disk_full (st_file s) (fresh_superblock algo em) (st_encs s)"
    using created_inv [OF assms(1)] up assms(2) by (simp add: store_inv_def)
  obtain f' where "commit_tail (st_sb s) first_roots (st_file s) = Inr f'"
    using commit_tail_full [OF full first_commit_ready] assms(2) by auto
  with store_step.commit [OF up, of None None None None 1 None first_roots f'] first_commit_ready assms(2) show ?thesis by auto
qed

lemma decode_zero_slot: "superblock_decode (replicate 4096 0) = None"
proof -
  have "subslice (replicate 4096 (0 :: u8)) 0 8 \<noteq> LOOM_MAGIC"
  proof
    assume "subslice (replicate 4096 (0 :: u8)) 0 8 = LOOM_MAGIC"
    then have "subslice (replicate 4096 (0 :: u8)) 0 8 ! 0 = LOOM_MAGIC ! 0" by simp
    then show False by (simp add: subslice_def LOOM_MAGIC_def)
  qed
  then show ?thesis by (simp add: superblock_decode_def)
qed

text \<open>A slot whose write is torn may read as zeros.\<close>

lemma zeroed_slot:
  fixes sb :: Superblock
  defines "z \<equiv> \<lambda>f. put_at f (own_slot sb * 4096) (replicate 4096 0)"
  assumes "file_ok f"
  shows "torn_slot f sb (z f)" and "slot_of (z f) (own_slot sb) = None" and "slot_of (z f) (other_slot sb) = slot_of f (other_slot sb)"
proof -
  let ?f = "z f"
  have l: "own_slot sb * 4096 + 4096 \<le> length f" using assms(2) own_slot_less(1) [of sb] by (simp add: file_ok_def)
  have t: "torn_write f (own_slot sb * 4096) 4096 ?f" using l by (auto simp: z_def torn_write_def length_put_at nth_put_at)
  show none: "slot_of ?f (own_slot sb) = None" using l by (simp add: z_def slot_of_def subslice_put_at_same decode_zero_slot)
  show "torn_slot f sb ?f" using t none by (simp add: torn_slot_def unat_cp_slot layout own_slot_def)
  show "slot_of ?f (other_slot sb) = slot_of f (other_slot sb)"
    using own_slot_less(3) [of sb] by (intro torn_slot_view(2) [OF t assms(2)]) auto
qed

section \<open>Properties\<close>



text \<open>C19: in every state a running store can reach, a commit whose roots pass the checks goes through, and opening
  the file afterwards, read-only or not, yields the committed root set with the metadata of the running store.\<close>

theorem store_commit_durable:
  assumes "created algo em s0" and "store_step\<^sup>*\<^sup>* s0 s" and "st_up s" and "commit_ready (st_sb s) ir ov cr rc mt fm rt"
  shows "\<exists>f'. commit_tail (st_sb s) rt (st_file s) = Inr f'
    \<and> (\<exists>f''. store_open w None a f' = Inr (with_roots (st_sb s) rt, f''))"
proof -
  have "store_inv s" using store_steps_inv [OF assms(2) created_inv [OF assms(1)]] .
  then have full: "disk_full (st_file s) (st_sb s) (st_encs s)" using assms(3) by (simp add: store_inv_def)
  from commit_tail_full [OF full assms(4)] obtain f' where f': "commit_tail (st_sb s) rt (st_file s) = Inr f'"
      "disk_full f' (with_roots (st_sb s) rt) (st_encs s)" "fits f' (with_roots (st_sb s) rt)" by blast
  then have "disk_core f' (with_roots (st_sb s) rt) (st_encs s)" by (simp add: disk_full_def)
  from open_full [OF f'(2,3), of w] store_open_existing [OF this, of w a] f'(1) show ?thesis by auto
qed

lemma store_commit_durable_witness:
  "\<exists>s. created Sha256 (Some [7]) s \<and> (\<exists>f'. commit_tail (st_sb s) first_roots (st_file s) = Inr f'
    \<and> (\<exists>f''. store_open False None Sha256 f' = Inr (with_roots (st_sb s) first_roots, f'')))"
proof -
  have "encs_ok {Some [7]}" by (simp add: encs_ok_def CRC_OFFSET_def)
  then obtain s where s: "created Sha256 (Some [7]) s" "st_sb s = fresh_superblock Sha256 (Some [7])"
    by (rule created_exists [of "Some [7]" Sha256])
  have "commit_ready (st_sb s) None None None None 1 None first_roots" unfolding s(2) by (rule first_commit_ready)
  moreover have "st_up s" using s(1) by (simp add: created_def)
  ultimately show ?thesis using s(1) store_commit_durable [OF s(1) rtranclp.rtrancl_refl, of None None None None 1 None first_roots False Sha256] by blast
qed

text \<open>a commit grows the file only after its record is durable. When the last pages it allocated were not
  written, a crash between the two leaves a file that opening refuses as truncated, although the commit
  point had been passed.\<close>

theorem commit_grow_gap:
  "\<exists>s0 s f1 f'. created Blake3 None s0 \<and> store_step\<^sup>*\<^sup>* s0 s \<and> st_up s
    \<and> commit_ready (st_sb s) None None None None 1 None first_roots
    \<and> commit_tail (st_sb s) first_roots (st_file s) = Inr f' \<and> commit_ring first_roots (st_file s) = Inr f1
    \<and> store_open w None Blake3 f1 = Inl CorruptObject"
proof -
  have "encs_ok {None}" by (simp add: encs_ok_def)
  then obtain s0 where s0: "created Blake3 None s0" "st_sb s0 = fresh_superblock Blake3 None" "length (st_file s0) = 12288"
    by (rule created_exists [of None Blake3])
  have up: "st_up s0" using s0(1) by (simp add: created_def)
  obtain f where f: "mem_pwrite (st_file s0) DATA_START (replicate 8192 1) = Inr f"
    by (simp add: mem_pwrite_def Let_def layout USIZE_END_def)
  let ?s = "s0\<lparr>st_file := f\<rparr>"
  let ?n = "with_roots (st_sb s0) first_roots"
  have step: "store_step s0 ?s" using up f by (intro store_step.data) auto
  then have "store_inv ?s" by (rule store_step_inv [OF _ created_inv [OF s0(1)]])
  then have full: "disk_full f (st_sb s0) (st_encs s0)" using up by (simp add: store_inv_def)
  have rdy: "commit_ready (st_sb s0) None None None None 1 None first_roots" unfolding s0(2) by (rule first_commit_ready)
  obtain f' where f': "commit_tail (st_sb s0) first_roots f = Inr f'" using commit_tail_full [OF full rdy] by blast
  obtain f1 where f1: "commit_ring first_roots f = Inr f1" "disk_full f1 ?n (st_encs s0)" "length f1 = length f"
    using commit_ring_full [OF full rdy] by blast
  have len: "length f1 = 20480" using f1(3) mem_pwrite_ok(1) [OF f] s0(3) by (simp add: layout)
  have core: "disk_core f1 ?n (st_encs s0)" using f1(2) by (simp add: disk_full_def)
  moreover have "(word_of_nat (length f1) :: u64) < DATA_START + sb_page_count ?n * PAGE_SIZE"
    by (simp add: len first_roots_def DATA_START_def PAGE_SIZE_def word_less_nat_alt)
  ultimately have "open_existing w f1 = Inl CorruptObject" by (rule open_truncated)
  then have "store_open w None Blake3 f1 = Inl CorruptObject" by (simp add: store_open_existing [OF core])
  with s0(1) step up rdy f' f1(1) show ?thesis by (intro exI [of _ s0] exI [of _ ?s] exI [of _ f1] exI [of _ f']) auto
qed

text \<open>rewriting the key metadata in place can lose it. A store opened with metadata [1] and rekeyed to [2] that
  crashes while it is rekeyed to [3], its slot torn, comes back with [1], from the older slot.\<close>

theorem rekey_torn_gap:
  "\<exists>s0 s s' sb f'. created Blake3 (Some [1]) s0 \<and> store_step\<^sup>*\<^sup>* s0 s \<and> st_up s \<and> sb_encryption (st_sb s) = Some [2]
    \<and> torn_slot (st_file s) ((st_sb s)\<lparr>sb_encryption := Some [3]\<rparr>) (st_file s') \<and> store_step s s'
    \<and> store_open True None Blake3 (st_file s') = Inr (sb, f') \<and> sb_encryption sb = Some [1]"
proof -
  have "encs_ok {Some [1]}" by (simp add: encs_ok_def CRC_OFFSET_def)
  then obtain s0 where s0: "created Blake3 (Some [1]) s0" "st_sb s0 = fresh_superblock Blake3 (Some [1])"
    by (rule created_exists [of "Some [1]" Blake3])
  have u0: "st_up s0" "st_encs s0 = {Some [1]}" using s0(1) by (simp_all add: created_def)
  let ?n = "with_roots (fresh_superblock Blake3 (Some [1])) first_roots"
  obtain f1 where step1: "store_step s0 (s0\<lparr>st_file := f1, st_sb := ?n\<rparr>)" (is "store_step s0 ?s1")
    using first_commit_step [OF s0] by blast
  have inv1: "store_inv ?s1" by (rule store_step_inv [OF step1 created_inv [OF s0(1)]])
  then have c1: "disk_core f1 ?n {Some [1]}" "fits f1 ?n" using store_inv_core [OF inv1] u0 by simp_all
  have ek: "encs_ok {Some [2]}" "encs_ok {Some [3]}" by (simp_all add: encs_ok_def CRC_OFFSET_def)
  obtain x where x: "slot_of f1 (other_slot ?n) = Some x" "sb_encryption x = Some [1]"
    using c1(1) by (auto simp: disk_core_def slot_ok_def)
  let ?n2 = "?n\<lparr>sb_encryption := Some [2]\<rparr>"
  have wf2: "superblock_wf ?n2" "file_ok f1" 
    using c1(1) superblock_wf_encryption [OF _ ek(1), of ?n "Some [2]"] by (simp_all add: disk_core_def)
  obtain f2 where f2: "write_superblock_checkpoint ?n2 f1 = Inr f2" "torn_write f1 (own_slot ?n2 * 4096) 4096 f2"
    using write_checkpoint_view [OF wf2] by (auto simp: own_slot_def)
  let ?s2 = "?s1\<lparr>st_file := f2, st_sb := ?n2, st_encs := {Some [2], Some [1]}\<rparr>"
  have step2: "store_step ?s1 ?s2" using store_step.rekey [of ?s1 "Some [2]" f2] u0 ek f2(1) by simp
  have inv2: "store_inv ?s2" by (rule store_step_inv [OF step2 inv1])
  then have c2: "disk_core f2 ?n2 {Some [2], Some [1]}" "fits f2 ?n2" using store_inv_core [OF inv2] by simp_all
  have o2: "slot_of f2 (other_slot ?n) = Some x"
    using torn_slot_view(2) [OF f2(2) wf2(2) own_slot_less(1), of "other_slot ?n"] own_slot_less(2,3) [of ?n] x(1) by auto
  let ?n3 = "?n2\<lparr>sb_encryption := Some [3]\<rparr>"
  let ?f3 = "put_at f2 (own_slot ?n3 * 4096) (replicate 4096 0)"
  have fo2: "file_ok f2" using c2(1) by (simp add: disk_core_def)
  note z = zeroed_slot [OF fo2, of ?n3]
  let ?s3 = "?s2\<lparr>st_file := ?f3, st_up := False, st_encs := insert (Some [3]) {Some [2], Some [1]}\<rparr>"
  have step3: "store_step ?s2 ?s3"
    using store_step.crash_rekey [of ?s2 "Some [3]" ?f3] u0 ek z(1) by (simp add: first_roots_def)
  have "store_inv ?s3" by (rule store_step_inv [OF step3 inv2])
  then have c3: "disk_core ?f3 ?n2 (st_encs ?s3)" "fits ?f3 ?n2" using store_inv_core [of ?s3] by simp_all
  obtain y where y: "picked ?f3 = Inr y" "slot_ok ?n2 (st_encs ?s3) y"
      "slot_of ?f3 (own_slot ?n2) = None \<longrightarrow> sb_generation y \<noteq> sb_generation ?n2" using picked_cases [OF c3(1)] .
  have "y = x"
    using y(1) z(2,3) o2 own_slot_less(3) [of ?n] by (auto simp: picked_def pick_superblock_def)
  then have "\<exists>f'. store_open True None Blake3 ?f3 = Inr (?n2\<lparr>sb_encryption := Some [1]\<rparr>, f')"
    using open_picked [OF c3 y, of True] x(2) store_open_existing [OF c3(1), of True Blake3] by auto
  then obtain f4 where "store_open True None Blake3 ?f3 = Inr (?n2\<lparr>sb_encryption := Some [1]\<rparr>, f4)" ..
  moreover have "store_step\<^sup>*\<^sup>* s0 ?s2" using step1 step2 by (meson converse_rtranclp_into_rtranclp r_into_rtranclp)
  ultimately show ?thesis using s0(1) step3 u0 z(1)
    by (intro exI [of _ s0] exI [of _ ?s2] exI [of _ ?s3] exI [of _ "?n2\<lparr>sb_encryption := Some [1]\<rparr>"] exI [of _ f4]) simp
qed

end
