(* ===== verification/Loom_Record.thy ===== *)
theory Loom_Record
  imports Loom_Superblock
begin

text \<open>
  Placing records on pages, \<^verbatim>\<open>crates/loom-store/src/record.rs\<close>: record locators, slab pages that pack small
  records behind a slot directory, page runs for large records and chained pages for chunked ones. Pages are
  byte lists written in place; a reader that meets a bad magic, checksum or bound returns nothing.
\<close>

section \<open>Locators\<close>

definition SEGMENT_BYTES :: u64 where "SEGMENT_BYTES = 64 * 1024 * 1024"
definition PAGES_PER_SEGMENT :: u64 where "PAGES_PER_SEGMENT = SEGMENT_BYTES div 4096"

record RecordLoc =
  rl_segment_id :: u64
  rl_page_index :: u64
  rl_slot :: u32

definition loc_from_global :: "u64 \<Rightarrow> u32 \<Rightarrow> RecordLoc" where
  "loc_from_global global_page slot = \<lparr>rl_segment_id = global_page div PAGES_PER_SEGMENT,
     rl_page_index = global_page mod PAGES_PER_SEGMENT, rl_slot = slot\<rparr>"

definition loc_global_page :: "RecordLoc \<Rightarrow> u64" where
  "loc_global_page loc = rl_segment_id loc * PAGES_PER_SEGMENT + rl_page_index loc"

definition loc_encode :: "RecordLoc \<Rightarrow> bytes" where
  "loc_encode loc = put_uvarint (rl_segment_id loc) @ put_uvarint (rl_page_index loc) @ put_uvarint (ucast (rl_slot loc))"

definition loc_decode :: "bytes \<Rightarrow> nat \<Rightarrow> (RecordLoc \<times> nat) option" where
  "loc_decode buf pos =
    (case get_uvarint buf pos of None \<Rightarrow> None | Some (segment_id, p1) \<Rightarrow>
     (case get_uvarint buf p1 of None \<Rightarrow> None | Some (page_index, p2) \<Rightarrow>
     (case get_uvarint buf p2 of None \<Rightarrow> None | Some (slot, p3) \<Rightarrow>
       if unat slot < 2 ^ 32
       then Some (\<lparr>rl_segment_id = segment_id, rl_page_index = page_index, rl_slot = ucast slot\<rparr>, p3)
       else None)))"

lemma loc_round_trip: "loc_decode (pre @ loc_encode loc @ post) (length pre) = Some (loc, length pre + length (loc_encode loc))"
proof -
  let ?a = "put_uvarint (rl_segment_id loc)" and ?b = "put_uvarint (rl_page_index loc)" and ?c = "put_uvarint (ucast (rl_slot loc))"
  have u: "unat (ucast (rl_slot loc) :: u64) = unat (rl_slot loc)" using unat_bound [of "rl_slot loc"] by (simp add: unat_ucast)
  have 1: "get_uvarint (pre @ ?a @ ?b @ ?c @ post) (length pre) = Some (rl_segment_id loc, length pre + length ?a)"
    by (rule get_put_uvarint)
  have 2: "get_uvarint (pre @ ?a @ ?b @ ?c @ post) (length pre + length ?a) = Some (rl_page_index loc, length pre + length ?a + length ?b)"
    using get_put_uvarint [of "pre @ ?a" _ "?c @ post"] by simp
  have 3: "get_uvarint (pre @ ?a @ ?b @ ?c @ post) (length pre + length ?a + length ?b)
      = Some (ucast (rl_slot loc), length pre + length ?a + length ?b + length ?c)"
    using get_put_uvarint [of "pre @ ?a @ ?b" _ post] by (simp add: add.assoc)
  have "unat (ucast (rl_slot loc) :: u64) < 2 ^ 32" using u unat_bound [of "rl_slot loc"] by simp
  moreover have "(ucast (ucast (rl_slot loc) :: u64) :: u32) = rl_slot loc"
    using u unat_bound [of "rl_slot loc"] by (simp add: word_unat_eq_iff unat_ucast)
  ultimately show ?thesis by (simp add: loc_decode_def loc_encode_def 1 2 3)
qed

lemma loc_global: "loc_global_page (loc_from_global p slot) = p"
  by (simp add: loc_global_page_def loc_from_global_def word_mod_div_equality)

section \<open>Slab pages\<close>

definition SLAB_MAGIC :: u8 where "SLAB_MAGIC = 0xB5"
definition LARGE_MAGIC :: u8 where "LARGE_MAGIC = 0xB6"
definition CHUNKED_BLOB_MAGIC :: u8 where "CHUNKED_BLOB_MAGIC = 0xB7"
definition SLAB_THRESHOLD :: u64 where "SLAB_THRESHOLD = 4096 div 4"
definition SLAB_HEADER :: nat where "SLAB_HEADER = 3"
definition SLOT_ENTRY :: nat where "SLOT_ENTRY = 4"
definition CRC :: nat where "CRC = 4"
definition PAGE :: nat where "PAGE = 4096"
definition LARGE_HEADER :: nat where "LARGE_HEADER = 9"
definition CHUNKED_HEADER :: nat where "CHUNKED_HEADER = 21"
definition CHUNKED_END :: u64 where "CHUNKED_END = - 1"

lemmas page_sizes = SLAB_HEADER_def SLOT_ENTRY_def CRC_def PAGE_def LARGE_HEADER_def CHUNKED_HEADER_def

definition is_large :: "u64 \<Rightarrow> bool" where
  "is_large len \<longleftrightarrow> len > SLAB_THRESHOLD"

record SlabBuilder =
  slab_blobs :: "bytes list"
  slab_used :: nat

definition slab_new :: SlabBuilder where
  "slab_new = \<lparr>slab_blobs = [], slab_used = SLAB_HEADER + CRC\<rparr>"

definition slab_is_empty :: "SlabBuilder \<Rightarrow> bool" where
  "slab_is_empty b \<longleftrightarrow> slab_blobs b = []"

definition slab_try_push :: "SlabBuilder \<Rightarrow> bytes \<Rightarrow> (u32 \<times> SlabBuilder) option" where
  "slab_try_push b blob =
    (let add = SLOT_ENTRY + length blob
     in if slab_used b + add > PAGE then None
        else Some (word_of_nat (length (slab_blobs b)),
          b\<lparr>slab_blobs := slab_blobs b @ [blob], slab_used := slab_used b + add\<rparr>))"

fun slab_fill :: "bytes \<Rightarrow> nat \<Rightarrow> nat \<Rightarrow> bytes list \<Rightarrow> bytes" where
  "slab_fill page i data_off [] = page"
| "slab_fill page i data_off (blob # blobs) =
    (let e = SLAB_HEADER + i * SLOT_ENTRY;
         p1 = put_at page e (u16_le (word_of_nat data_off));
         p2 = put_at p1 (e + 2) (u16_le (word_of_nat (length blob)));
         p3 = put_at p2 data_off blob
     in slab_fill p3 (Suc i) (data_off + length blob) blobs)"

definition slab_finish :: "SlabBuilder \<Rightarrow> bytes" where
  "slab_finish b =
    (let n = length (slab_blobs b);
         p0 = put_at (replicate PAGE 0) 0 [SLAB_MAGIC];
         p1 = put_at p0 1 (u16_le (word_of_nat n));
         p2 = slab_fill p1 0 (SLAB_HEADER + n * SLOT_ENTRY) (slab_blobs b)
     in put_at p2 (PAGE - CRC) (u32_le (crc32c (subslice p2 0 (PAGE - CRC)))))"

definition read_slab_slot :: "bytes \<Rightarrow> u32 \<Rightarrow> bytes option" where
  "read_slab_slot page slot =
    (if length page < PAGE \<or> page ! 0 \<noteq> SLAB_MAGIC then None
     else if crc32c (subslice page 0 (PAGE - CRC)) \<noteq> u32_from_le (subslice page (PAGE - CRC) PAGE) then None
     else let n = unat (u16_from_le (subslice page 1 3)); i = unat slot
       in if i \<ge> n then None
          else let e = SLAB_HEADER + i * SLOT_ENTRY;
                   off = unat (u16_from_le (subslice page e (e + 2)));
                   len = unat (u16_from_le (subslice page (e + 2) (e + 4)))
            in if off < SLAB_HEADER + n * SLOT_ENTRY \<or> off + len > PAGE - CRC then None
               else Some (subslice page off (off + len)))"

definition slab_slot_count :: "bytes \<Rightarrow> u32 option" where
  "slab_slot_count page =
    (if length page < PAGE \<or> page ! 0 \<noteq> SLAB_MAGIC then None
     else if crc32c (subslice page 0 (PAGE - CRC)) \<noteq> u32_from_le (subslice page (PAGE - CRC) PAGE) then None
     else Some (ucast (u16_from_le (subslice page 1 3))))"

text \<open>The builder counts the bytes of its page exactly, so a record it accepted fits.\<close>

definition slab_wf :: "SlabBuilder \<Rightarrow> bool" where
  "slab_wf b \<longleftrightarrow> slab_used b = 7 + 4 * length (slab_blobs b) + sum_list (map length (slab_blobs b)) \<and> slab_used b \<le> 4096"

lemma slab_wf_new: "slab_wf slab_new"
  by (simp add: slab_wf_def slab_new_def page_sizes)

lemma slab_wf_push: "slab_wf b \<Longrightarrow> slab_try_push b blob = Some (slot, b') \<Longrightarrow> slab_wf b' \<and> slab_blobs b' = slab_blobs b @ [blob]
    \<and> unat slot = length (slab_blobs b)"
  by (auto simp: slab_wf_def slab_try_push_def Let_def page_sizes unat_of_nat split: if_splits)

text \<open>Filling writes the directory entries in turn and the records behind each other, and leaves the rest of the
  page alone.\<close>

lemma length_slab_fill:
  "4 * (i + length blobs) + 3 \<le> off \<Longrightarrow> off + sum_list (map length blobs) \<le> length page \<Longrightarrow>
    length (slab_fill page i off blobs) = length page"
  by (induction blobs arbitrary: page i off) (auto simp: Let_def page_sizes length_put_at)

lemma slab_fill_outside:
  assumes "4 * (i + length blobs) + 3 \<le> off" and "off + sum_list (map length blobs) \<le> length page" and "y \<le> length page"
    and "y \<le> 3 + 4 * i \<or> 3 + 4 * (i + length blobs) \<le> x \<and> y \<le> off \<or> off + sum_list (map length blobs) \<le> x"
  shows "subslice (slab_fill page i off blobs) x y = subslice page x y"
  using assms
proof (induction blobs arbitrary: page i off)
  case (Cons blob blobs)
  let ?e = "3 + i * 4"
  define p1 where "p1 = put_at page ?e (u16_le (word_of_nat off))"
  define p2 where "p2 = put_at p1 (?e + 2) (u16_le (word_of_nat (length blob)))"
  define p3 where "p3 = put_at p2 off blob"
  have l: "length p1 = length page" "length p2 = length page" "length p3 = length page"
    using Cons.prems by (simp_all add: p1_def p2_def p3_def length_put_at)
  have "subslice (slab_fill p3 (Suc i) (off + length blob) blobs) x y = subslice p3 x y"
    using Cons.prems l by (intro Cons.IH) auto
  also have "\<dots> = subslice p2 x y" using Cons.prems l by (auto simp: p3_def intro!: subslice_put_at_other)
  also have "\<dots> = subslice p1 x y" using Cons.prems l by (auto simp: p2_def intro!: subslice_put_at_other)
  also have "\<dots> = subslice page x y" using Cons.prems by (auto simp: p1_def intro!: subslice_put_at_other)
  finally show ?case by (simp add: Let_def page_sizes p1_def p2_def p3_def)
qed simp

definition slab_entry :: "bytes \<Rightarrow> nat \<Rightarrow> nat \<Rightarrow> bytes \<Rightarrow> bool" where
  "slab_entry page i off blob \<longleftrightarrow> subslice page (3 + i * 4) (3 + i * 4 + 2) = u16_le (word_of_nat off)
     \<and> subslice page (3 + i * 4 + 2) (3 + i * 4 + 4) = u16_le (word_of_nat (length blob))
     \<and> subslice page off (off + length blob) = blob"

lemma slab_fill_reads:
  assumes "4 * (i + length blobs) + 3 \<le> off" and "off + sum_list (map length blobs) \<le> length page" and "k < length blobs"
  shows "slab_entry (slab_fill page i off blobs) (i + k) (off + sum_list (map length (take k blobs))) (blobs ! k)"
  using assms
proof (induction blobs arbitrary: page i off k)
  case (Cons blob blobs)
  let ?e = "3 + i * 4"
  define p1 where "p1 = put_at page ?e (u16_le (word_of_nat off))"
  define p2 where "p2 = put_at p1 (?e + 2) (u16_le (word_of_nat (length blob)))"
  define p3 where "p3 = put_at p2 off blob"
  have l: "length p1 = length page" "length p2 = length page" "length p3 = length page"
    using Cons.prems by (simp_all add: p1_def p2_def p3_def length_put_at)
  have fill: "slab_fill page i off (blob # blobs) = slab_fill p3 (Suc i) (off + length blob) blobs"
    by (simp add: Let_def page_sizes p1_def p2_def p3_def)
  have pre: "4 * (Suc i + length blobs) + 3 \<le> off + length blob" "off + length blob + sum_list (map length blobs) \<le> length p3"
    using Cons.prems l by simp_all
  show ?case
  proof (cases k)
    case 0
    have keep: "subslice (slab_fill p3 (Suc i) (off + length blob) blobs) x y = subslice p3 x y"
      if "y \<le> ?e + 4 \<or> off \<le> x \<and> y \<le> off + length blob" for x y
      using that pre Cons.prems by (intro slab_fill_outside [OF pre]) auto
    have "subslice p3 ?e (?e + 2) = u16_le (word_of_nat off)"
      using Cons.prems l by (simp add: p3_def p2_def p1_def subslice_put_at_other subslice_put_at_same length_put_at)
    moreover have "subslice p3 (?e + 2) (?e + 4) = u16_le (word_of_nat (length blob))"
      using Cons.prems l by (simp add: p3_def p2_def subslice_put_at_other subslice_put_at_same length_put_at)
    moreover have "subslice p3 off (off + length blob) = blob" using Cons.prems l by (simp add: p3_def subslice_put_at_same)
    ultimately have "slab_entry (slab_fill p3 (Suc i) (off + length blob) blobs) i off blob"
      by (simp add: slab_entry_def keep)
    then show ?thesis using 0 fill by simp
  next
    case (Suc k')
    then show ?thesis unfolding fill using Cons.IH [OF pre, of k'] Cons.prems by (simp add: add.assoc)
  qed
qed simp

lemma slab_finish_page:
  assumes "slab_wf b"
  defines "n \<equiv> length (slab_blobs b)"
  shows "length (slab_finish b) = 4096" and "slab_finish b ! 0 = SLAB_MAGIC" and "crc_holds 4092 (slab_finish b)"
    and "subslice (slab_finish b) 1 3 = u16_le (word_of_nat n)"
    and "k < n \<Longrightarrow> slab_entry (slab_finish b) k (3 + n * 4 + sum_list (map length (take k (slab_blobs b)))) (slab_blobs b ! k)"
proof -
  define p1 where "p1 = put_at (put_at (replicate 4096 0) 0 [SLAB_MAGIC]) 1 (u16_le (word_of_nat n))"
  define p2 where "p2 = slab_fill p1 0 (3 + n * 4) (slab_blobs b)"
  have used: "3 + n * 4 + sum_list (map length (slab_blobs b)) \<le> 4092" using assms(1) by (simp add: slab_wf_def n_def)
  have l1: "length p1 = 4096" by (simp add: p1_def length_put_at)
  have pre: "4 * (0 + length (slab_blobs b)) + 3 \<le> 3 + n * 4" "3 + n * 4 + sum_list (map length (slab_blobs b)) \<le> length p1"
    using used by (simp_all add: n_def l1)
  have l2: "length p2 = 4096" using length_slab_fill [OF pre] l1 by (simp add: p2_def)
  have fin: "slab_finish b = put_at p2 4092 (u32_le (crc32c (subslice p2 0 4092)))"
    by (simp add: slab_finish_def Let_def page_sizes p1_def p2_def n_def)
  then have fin': "slab_finish b = take 4092 p2 @ u32_le (crc32c (take 4092 p2))"
    using l2 by (simp add: put_at_def subslice_def)
  show len: "length (slab_finish b) = 4096" using l2 by (simp add: fin length_put_at)
  show "crc_holds 4092 (slab_finish b)" unfolding fin' using l2 by (intro crc_holds_append) simp
  have keep: "subslice (slab_finish b) x y = subslice p2 x y" if "y \<le> 4092" for x y
    using that l2 by (simp add: fin subslice_put_at_other)
  have head: "subslice p2 x y = subslice p1 x y" if "y \<le> 3" for x y
    using slab_fill_outside [OF pre, of y x] that l1 by (simp add: p2_def)
  have "subslice (slab_finish b) 0 1 = [SLAB_MAGIC]"
    by (simp add: keep head) (simp add: p1_def subslice_put_at_other subslice_put_at_same length_put_at)
  then show "slab_finish b ! 0 = SLAB_MAGIC" using len by (cases "slab_finish b") (auto simp: subslice_def)
  show "subslice (slab_finish b) 1 3 = u16_le (word_of_nat n)"
    by (simp add: keep head) (simp add: p1_def subslice_put_at_same length_put_at)
  show "slab_entry (slab_finish b) k (3 + n * 4 + sum_list (map length (take k (slab_blobs b)))) (slab_blobs b ! k)" if k: "k < n"
  proof -
    have "slab_entry p2 k (3 + n * 4 + sum_list (map length (take k (slab_blobs b)))) (slab_blobs b ! k)"
      using slab_fill_reads [OF pre, of k] k by (simp add: p2_def n_def)
    moreover have "sum_list (map length (take k (slab_blobs b))) + length (slab_blobs b ! k) \<le> sum_list (map length (slab_blobs b))"
    proof -
      have "slab_blobs b = take k (slab_blobs b) @ slab_blobs b ! k # drop (Suc k) (slab_blobs b)"
        using k by (simp add: n_def id_take_nth_drop)
      then have "sum_list (map length (slab_blobs b)) = sum_list (map length (take k (slab_blobs b) @ slab_blobs b ! k # drop (Suc k) (slab_blobs b)))"
        by simp
      then show ?thesis by simp
    qed
    ultimately show ?thesis using used k by (simp add: slab_entry_def keep)
  qed
qed

lemma slab_read_back:
  assumes "slab_wf b" and "k < length (slab_blobs b)"
  shows "read_slab_slot (slab_finish b) (word_of_nat k) = Some (slab_blobs b ! k)"
proof -
  let ?n = "length (slab_blobs b)" and ?p = "slab_finish b"
  define off where "off = 3 + ?n * 4 + sum_list (map length (take k (slab_blobs b)))"
  note p = slab_finish_page [OF assms(1)]
  have used: "7 + 4 * ?n + sum_list (map length (slab_blobs b)) \<le> 4096" using assms(1) by (simp add: slab_wf_def)
  have e: "slab_entry ?p k off (slab_blobs b ! k)" using p(5) [OF assms(2)] by (simp add: off_def)
  have "sum_list (map length (slab_blobs b)) = sum_list (map length (take k (slab_blobs b) @ slab_blobs b ! k # drop (Suc k) (slab_blobs b)))"
    using assms(2) by (simp add: id_take_nth_drop [symmetric])
  then have fit: "off + length (slab_blobs b ! k) \<le> 4092" using used by (simp add: off_def)
  have u: "unat (u16_from_le (subslice ?p 1 3)) = ?n" "unat (word_of_nat k :: u32) = k"
    "unat (u16_from_le (subslice ?p (3 + k * 4) (3 + k * 4 + 2))) = off"
    "unat (u16_from_le (subslice ?p (3 + k * 4 + 2) (3 + k * 4 + 4))) = length (slab_blobs b ! k)"
    using used assms(2) fit p(4) e by (simp_all add: slab_entry_def unat_of_nat)
  have crc: "crc32c (subslice ?p 0 4092) = u32_from_le (subslice ?p 4092 4096)" using p(3) by (simp add: crc_holds_def)
  have "subslice ?p off (off + length (slab_blobs b ! k)) = slab_blobs b ! k" using e by (simp add: slab_entry_def)
  moreover have "3 + ?n * 4 \<le> off" by (simp add: off_def)
  ultimately show ?thesis
    using p(1,2) crc u assms(2) fit by (simp add: read_slab_slot_def page_sizes Let_def)
qed

lemma read_slab_crc: "read_slab_slot page slot = Some b \<Longrightarrow> crc_holds 4092 page \<and> 4096 \<le> length page"
  by (auto simp: read_slab_slot_def crc_holds_def page_sizes split: if_splits)

section \<open>Large runs\<close>

definition large_pages :: "u64 \<Rightarrow> u64" where
  "large_pages blob_len = (let n = word_of_nat LARGE_HEADER + blob_len + word_of_nat CRC
     in n div 4096 + (if n mod 4096 = 0 then 0 else 1))"

definition encode_large :: "bytes \<Rightarrow> bytes" where
  "encode_large blob =
    (let b0 = replicate (unat (large_pages (word_of_nat (length blob)) * 4096)) 0;
         b1 = put_at b0 0 [LARGE_MAGIC];
         b2 = put_at b1 1 (u64_le (word_of_nat (length blob)));
         fin = LARGE_HEADER + length blob;
         b3 = put_at b2 LARGE_HEADER blob
     in put_at b3 fin (u32_le (crc32c (subslice b3 0 fin))))"

definition large_blob_len :: "bytes \<Rightarrow> u64 option" where
  "large_blob_len head =
    (if length head < LARGE_HEADER \<or> head ! 0 \<noteq> LARGE_MAGIC then None else Some (u64_from_le (subslice head 1 9)))"

text \<open>The end of the record is computed without a check: a length close to the top of the address space panics.\<close>

definition decode_large :: "bytes \<Rightarrow> bytes option res" where
  "decode_large buf =
    (case large_blob_len buf of
       None \<Rightarrow> Inr None
     | Some len \<Rightarrow>
       let fin = LARGE_HEADER + unat len
       in if fin + CRC \<ge> 2 ^ 64 then Inl Internal
          else if length buf < fin + CRC then Inr None
          else if crc32c (subslice buf 0 fin) \<noteq> u32_from_le (subslice buf fin (fin + CRC)) then Inr None
          else Inr (Some (subslice buf LARGE_HEADER fin)))"

lemma ceil_div_eq:
  fixes n d :: nat
  assumes "0 < d"
  shows "(n + (d - 1)) div d = n div d + (if n mod d = 0 then 0 else 1)"
proof (cases "n mod d = 0")
  case True
  then obtain q where "n = d * q" by (auto simp: mod_eq_0_iff_dvd)
  then have "(n + (d - 1)) div d = q + (d - 1) div d" using assms by (simp only: div_mult_self4)
  then show ?thesis using assms \<open>n = d * q\<close> by simp
next
  case False
  then have r: "n mod d - 1 < d" using mod_less_divisor [OF assms, of n] by linarith
  have "n + (d - 1) = (n div d + 1) * d + (n mod d - 1)"
  proof -
    have "n = n div d * d + n mod d" by simp
    moreover have "(n div d + 1) * d = n div d * d + d" by simp
    ultimately show ?thesis using False assms by linarith
  qed
  then have "(n + (d - 1)) div d = n div d + 1" using r by (metis add.commute div_less div_mult_self1 assms add_0_right less_not_refl)
  then show ?thesis using False by simp
qed

lemma ceil_div_covers:
  fixes n d :: nat
  assumes "0 < d"
  shows "n \<le> (n + (d - 1)) div d * d" and "(n + (d - 1)) div d * d \<le> n + (d - 1)"
proof -
  have "n + (d - 1) < (n + (d - 1)) div d * d + d" using dividend_less_div_times [OF assms, of "n + (d - 1)"] by (simp only: add.commute)
  then show "n \<le> (n + (d - 1)) div d * d" by linarith
  show "(n + (d - 1)) div d * d \<le> n + (d - 1)" by simp
qed

lemma unat_large_count:
  assumes "length blob + 4109 < 2 ^ 64"
  shows "unat (large_pages (word_of_nat (length blob))) = (length blob + 13 + 4095) div 4096"
proof -
  let ?n = "length blob + 13"
  have n: "word_of_nat LARGE_HEADER + word_of_nat (length blob) + word_of_nat CRC = (word_of_nat ?n :: u64)" by (simp add: page_sizes)
  have u: "unat (word_of_nat ?n :: u64) = ?n" using assms by (simp only: unat_of_nat) simp
  have d: "unat ((word_of_nat ?n :: u64) div 4096) = ?n div 4096" by (simp only: unat_div_distrib u) simp
  have m: "((word_of_nat ?n :: u64) mod 4096 = 0) = (?n mod 4096 = 0)"
    by (simp only: word_unat_eq_iff unat_mod_distrib u) simp
  have q: "(?n + 4095) div 4096 = ?n div 4096 + (if ?n mod 4096 = 0 then 0 else 1)"
    using ceil_div_eq [of 4096 ?n] by simp
  have b: "?n div 4096 + 1 < 2 ^ 64" using assms by simp
  have plus: "unat ((word_of_nat ?n :: u64) div 4096 + 1) = ?n div 4096 + 1"
    using b d unat_add_lem [of "(word_of_nat ?n :: u64) div 4096" 1] by (simp only: unat_1) simp
  show ?thesis unfolding large_pages_def Let_def n q m by (cases "?n mod 4096 = 0") (simp_all only: if_True if_False add_0_right d plus simp_thms)
qed

lemma unat_large_pages:
  assumes "length blob + 4109 < 2 ^ 64"
  shows "unat (large_pages (word_of_nat (length blob)) * 4096) = (length blob + 13 + 4095) div 4096 * 4096"
proof -
  have lt: "(length blob + 13 + 4095) div 4096 * 4096 < 2 ^ 64"
    using ceil_div_covers(2) [of 4096 "length blob + 13"] assms by simp
  then show ?thesis using unat_large_count [OF assms] by (subst unat_mult_lem [THEN iffD1]) (simp_all add: add.assoc)
qed

lemma large_round_trip:
  assumes "length blob + 4109 < 2 ^ 64"
  shows "decode_large (encode_large blob) = Inr (Some blob)"
    and "length (encode_large blob) = (length blob + 13 + 4095) div 4096 * 4096"
proof -
  define m where "m = (length blob + 13 + 4095) div 4096 * 4096"
  have fits: "length blob + 13 \<le> m" unfolding m_def using ceil_div_covers(1) [of 4096 "length blob + 13"] by simp
  define b3 where "b3 = put_at (put_at (put_at (replicate m 0) 0 [LARGE_MAGIC]) 1 (u64_le (word_of_nat (length blob)))) 9 blob"
  have l3: "length b3 = m" using fits by (simp add: b3_def length_put_at)
  have e: "encode_large blob = put_at b3 (9 + length blob) (u32_le (crc32c (subslice b3 0 (9 + length blob))))"
    unfolding encode_large_def unat_large_pages [OF assms] by (simp add: Let_def page_sizes b3_def m_def)
  have l: "length (encode_large blob) = m" using l3 fits by (simp add: e length_put_at)
  then show "length (encode_large blob) = (length blob + 13 + 4095) div 4096 * 4096" by (simp add: m_def)
  have keep: "subslice (encode_large blob) x y = subslice b3 x y" if "y \<le> 9 + length blob" for x y
    using that l3 fits by (simp add: e subslice_put_at_other)
  have crc: "subslice (encode_large blob) (9 + length blob) (13 + length blob) = u32_le (crc32c (subslice b3 0 (9 + length blob)))"
    using l3 fits subslice_put_at_same [of "9 + length blob" "u32_le (crc32c (subslice b3 0 (9 + length blob)))" b3]
    by (simp add: e add.commute)
  have "subslice (encode_large blob) 0 1 = [LARGE_MAGIC]"
    using fits by (simp add: keep) (simp add: b3_def subslice_put_at_other subslice_put_at_same length_put_at)
  then have magic: "encode_large blob ! 0 = LARGE_MAGIC" using l fits by (cases "encode_large blob") (auto simp: subslice_def)
  have len: "subslice (encode_large blob) 1 9 = u64_le (word_of_nat (length blob))"
    using fits by (simp add: keep) (simp add: b3_def subslice_put_at_other subslice_put_at_same length_put_at)
  have body: "subslice (encode_large blob) 9 (9 + length blob) = blob"
    using fits by (simp add: keep) (simp add: b3_def subslice_put_at_same length_put_at)
  have u: "unat (word_of_nat (length blob) :: u64) = length blob" using assms by (simp add: unat_of_nat)
  show "decode_large (encode_large blob) = Inr (Some blob)"
    using l fits assms by (simp add: decode_large_def large_blob_len_def page_sizes magic len u Let_def crc keep [of "9 + length blob"] body
      del: One_nat_def)
qed

lemma large_head:
  assumes "length blob + 4109 < 2 ^ 64"
  shows "large_blob_len (subslice (encode_large blob) 0 4096) = Some (word_of_nat (length blob))"
    and "subslice (encode_large blob) 0 4096 ! 0 = LARGE_MAGIC"
proof -
  note r = large_round_trip [OF assms]
  have l: "4096 \<le> length (encode_large blob)" unfolding r(2) by simp
  have b: "large_blob_len (encode_large blob) = Some len \<Longrightarrow> encode_large blob ! 0 = LARGE_MAGIC" for len
    by (simp add: large_blob_len_def split: if_splits)
  obtain len where len: "large_blob_len (encode_large blob) = Some len" using r(1) by (cases "large_blob_len (encode_large blob)") (auto simp: decode_large_def)
  have "blob = subslice (encode_large blob) 9 (9 + unat len)" "9 + unat len + 4 \<le> length (encode_large blob)"
    using r(1) len by (auto simp: decode_large_def page_sizes Let_def not_less split: if_splits)
  then have "length blob = unat len" by (metis add_leD1 diff_add_inverse length_subslice)
  then have len': "len = word_of_nat (length blob)" by simp
  have s: "subslice (subslice (encode_large blob) 0 4096) 1 9 = subslice (encode_large blob) 1 9" "subslice (encode_large blob) 0 4096 ! 0 = encode_large blob ! 0"
    using l by (simp_all add: subslice_def drop_take min_def)
  show "subslice (encode_large blob) 0 4096 ! 0 = LARGE_MAGIC" using s(2) b [OF len] by simp
  then show "large_blob_len (subslice (encode_large blob) 0 4096) = Some (word_of_nat (length blob))"
    using len s l by (simp add: large_blob_len_def page_sizes len' split: if_splits)
qed

section \<open>Chunked pages\<close>

definition chunked_blob_payload_capacity :: nat where
  "chunked_blob_payload_capacity = PAGE - CHUNKED_HEADER - CRC"

definition encode_chunked_blob_page :: "bytes \<Rightarrow> u64 option \<Rightarrow> u64 \<Rightarrow> bytes option" where
  "encode_chunked_blob_page chunk next_page total_len =
    (if length chunk > chunked_blob_payload_capacity then None
     else let p0 = put_at (replicate PAGE 0) 0 [CHUNKED_BLOB_MAGIC];
              p1 = put_at p0 1 (u64_le (case next_page of None \<Rightarrow> CHUNKED_END | Some p \<Rightarrow> p));
              p2 = put_at p1 9 (u64_le total_len);
              p3 = put_at p2 17 (u32_le (word_of_nat (length chunk)));
              p4 = put_at p3 CHUNKED_HEADER chunk
       in Some (put_at p4 (PAGE - CRC) (u32_le (crc32c (subslice p4 0 (PAGE - CRC))))))"

definition decode_chunked_blob_page :: "bytes \<Rightarrow> (u64 option \<times> u64 \<times> bytes) option" where
  "decode_chunked_blob_page page =
    (if length page < PAGE \<or> page ! 0 \<noteq> CHUNKED_BLOB_MAGIC then None
     else if crc32c (subslice page 0 (PAGE - CRC)) \<noteq> u32_from_le (subslice page (PAGE - CRC) PAGE) then None
     else let nxt = u64_from_le (subslice page 1 9); tot = u64_from_le (subslice page 9 17);
              chunk_len = unat (u32_from_le (subslice page 17 21))
       in if chunk_len > chunked_blob_payload_capacity then None
          else Some (if nxt \<noteq> CHUNKED_END then Some nxt else None, tot, subslice page CHUNKED_HEADER (CHUNKED_HEADER + chunk_len)))"

lemma chunked_round_trip:
  assumes "length chunk \<le> chunked_blob_payload_capacity" and "next_page \<noteq> Some CHUNKED_END"
  shows "\<exists>page. encode_chunked_blob_page chunk next_page tot = Some page \<and> length page = 4096
    \<and> page ! 0 = CHUNKED_BLOB_MAGIC \<and> decode_chunked_blob_page page = Some (next_page, tot, chunk)"
proof -
  have c: "length chunk \<le> 4071" using assms(1) by (simp add: chunked_blob_payload_capacity_def page_sizes)
  define nx where "nx = (case next_page of None \<Rightarrow> CHUNKED_END | Some p \<Rightarrow> p)"
  define h where "h = [CHUNKED_BLOB_MAGIC] @ u64_le nx @ u64_le tot @ u32_le (word_of_nat (length chunk)) @ chunk"
  define body where "body = h @ replicate (4071 - length chunk) 0"
  have lh: "length h = 21 + length chunk" "length body = 4092" using c by (simp_all add: h_def body_def)
  have p4: "put_at (put_at (put_at (put_at (put_at (replicate 4096 0) 0 [CHUNKED_BLOB_MAGIC]) 1 (u64_le nx)) 9 (u64_le tot)) 17
      (u32_le (word_of_nat (length chunk)))) 21 chunk = h @ replicate (4075 - length chunk) 0"
    unfolding h_def append_assoc [symmetric] using c
    by (simp add: put_at_first put_at_next del: append_assoc append.simps append_Cons)
  have split: "h @ replicate (4075 - length chunk) 0 = body @ replicate 4 0"
    using c by (simp add: body_def flip: replicate_add)
  define page where "page = body @ u32_le (crc32c body)"
  have enc: "encode_chunked_blob_page chunk next_page tot = Some page"
  proof -
    have "put_at (body @ replicate 4 0) 4092 (u32_le (crc32c (subslice (body @ replicate 4 0) 0 4092))) = page"
      using lh by (simp add: put_at_def subslice_def page_def)
    then show ?thesis
      unfolding encode_chunked_blob_page_def chunked_blob_payload_capacity_def page_sizes nx_def [symmetric] Let_def
      using c by (simp only: p4 split) (simp add: not_less)
  qed
  have l: "length page = 4096" using lh by (simp add: page_def)
  have h0: "page = h @ replicate (4071 - length chunk) 0 @ u32_le (crc32c body)" by (simp add: page_def body_def)
  have reads: "page ! 0 = CHUNKED_BLOB_MAGIC" "subslice page 1 9 = u64_le nx" "subslice page 9 17 = u64_le tot"
    "subslice page 17 21 = u32_le (word_of_nat (length chunk))" "subslice page 21 (21 + length chunk) = chunk"
    by (simp_all add: h0 h_def subslice_def)
  have "crc_holds 4092 page" unfolding page_def by (rule crc_holds_append [OF lh(2)])
  then have crc: "crc32c (subslice page 0 4092) = u32_from_le (subslice page 4092 4096)" by (simp add: crc_holds_def)
  have u: "unat (word_of_nat (length chunk) :: u32) = length chunk" using c by (simp add: unat_of_nat)
  have "(if nx \<noteq> CHUNKED_END then Some nx else None) = next_page" using assms(2) by (auto simp: nx_def split: option.splits)
  then have "decode_chunked_blob_page page = Some (next_page, tot, chunk)"
    using l crc c by (simp add: decode_chunked_blob_page_def page_sizes reads u Let_def chunked_blob_payload_capacity_def del: One_nat_def)
  with enc l reads(1) show ?thesis by blast
qed

end
