(* ===== verification/Loom_Keys.thy ===== *)
theory Loom_Keys
  imports Loom_Object
begin

text \<open>
  The key layer for encryption at rest, \<^verbatim>\<open>crates/loom-core/src/keys.rs\<close>: suites, credentials, wraps of the
  data key and the encryption metadata of the superblock. The ciphers and key derivations are third-party
  code: they are the fields of a \<open>Crypto\<close> argument, and what is relied on of them is a named hypothesis.
\<close>

section \<open>Suites and third-party functions\<close>

definition KEY_LEN :: nat where "KEY_LEN = 32"
definition WRAP_ALG_XCHACHA20POLY1305 :: u8 where "WRAP_ALG_XCHACHA20POLY1305 = 0x01"
definition WRAP_ALG_AES256GCM :: u8 where "WRAP_ALG_AES256GCM = 0x02"
definition WRAP_AAD :: bytes where "WRAP_AAD = ascii ''uldren-loom/dek-wrap/v1''"
definition CEK_CONTEXT :: bytes where "CEK_CONTEXT = ascii ''uldren-loom/cek/v1''"
definition META_MAGIC :: bytes where "META_MAGIC = [0x4C, 0x4B, 0x4D, 0x31]"
definition META_VERSION :: u8 where "META_VERSION = 2"

datatype Kdf = Argon2id | Pbkdf2Sha256
datatype Suite = XChaCha20Poly1305 | Aes256Gcm

fun suite_id :: "Suite \<Rightarrow> u8" where
  "suite_id XChaCha20Poly1305 = 0x01"
| "suite_id Aes256Gcm = 0x02"

definition suite_from_id :: "u8 \<Rightarrow> Suite res" where
  "suite_from_id n = (if n = 0x01 then Inr XChaCha20Poly1305 else if n = 0x02 then Inr Aes256Gcm else Inl InvalidArgument)"

fun nonce_len :: "Suite \<Rightarrow> nat" where
  "nonce_len XChaCha20Poly1305 = 24"
| "nonce_len Aes256Gcm = 12"

fun suite_as_str :: "Suite \<Rightarrow> bytes" where
  "suite_as_str XChaCha20Poly1305 = ascii ''xchacha20-poly1305''"
| "suite_as_str Aes256Gcm = ascii ''aes-256-gcm''"

definition suite_parse :: "bytes \<Rightarrow> Suite res" where
  "suite_parse name =
    (if name = ascii ''xchacha20-poly1305'' \<or> name = ascii ''xchacha'' then Inr XChaCha20Poly1305
     else if name = ascii ''aes-256-gcm'' \<or> name = ascii ''aes'' then Inr Aes256Gcm
     else Inl InvalidArgument)"

text \<open>The calls into the cryptography crates. \<open>None\<close> is the error of the crate.\<close>

record Crypto =
  cr_argon2id :: "bytes \<Rightarrow> bytes \<Rightarrow> bytes option"
  cr_pbkdf2 :: "bytes \<Rightarrow> bytes \<Rightarrow> bytes"
  cr_encrypt :: "Suite \<Rightarrow> bytes \<Rightarrow> bytes \<Rightarrow> bytes \<Rightarrow> bytes \<Rightarrow> bytes option"
  cr_decrypt :: "Suite \<Rightarrow> bytes \<Rightarrow> bytes \<Rightarrow> bytes \<Rightarrow> bytes \<Rightarrow> bytes option"
  cr_keyed_blake3 :: "bytes \<Rightarrow> bytes \<Rightarrow> bytes"
  cr_hkdf_sha256 :: "bytes \<Rightarrow> bytes \<Rightarrow> bytes"

section \<open>Credentials and the data key\<close>

datatype WrapSource = SrcPassphrase | SrcKeystore | SrcSecureEnclave | SrcPasskey | SrcKms | SrcRawKek | SrcTpm | SrcHsm

fun source_code :: "WrapSource \<Rightarrow> u8" where
  "source_code SrcPassphrase = 0x01"
| "source_code SrcKeystore = 0x02"
| "source_code SrcSecureEnclave = 0x03"
| "source_code SrcPasskey = 0x04"
| "source_code SrcKms = 0x05"
| "source_code SrcRawKek = 0x06"
| "source_code SrcTpm = 0x07"
| "source_code SrcHsm = 0x08"

definition source_from_code :: "u8 \<Rightarrow> WrapSource res" where
  "source_from_code n =
    (if n = 0x01 then Inr SrcPassphrase else if n = 0x02 then Inr SrcKeystore
     else if n = 0x03 then Inr SrcSecureEnclave else if n = 0x04 then Inr SrcPasskey
     else if n = 0x05 then Inr SrcKms else if n = 0x06 then Inr SrcRawKek
     else if n = 0x07 then Inr SrcTpm else if n = 0x08 then Inr SrcHsm else Inl CorruptObject)"

datatype KeySpec = Passphrase bytes | RawKek bytes

fun wrap_source :: "KeySpec \<Rightarrow> WrapSource" where
  "wrap_source (Passphrase p) = SrcPassphrase"
| "wrap_source (RawKek k) = SrcRawKek"

fun unlocks :: "KeySpec \<Rightarrow> WrapSource \<Rightarrow> bool" where
  "unlocks (Passphrase p) source = (source = SrcPassphrase)"
| "unlocks (RawKek k) source = (source \<noteq> SrcPassphrase)"

definition argon2id_master :: "Crypto \<Rightarrow> bytes \<Rightarrow> bytes \<Rightarrow> bytes res" where
  "argon2id_master cr passphrase salt = ok_or E2eKeyInvalid (cr_argon2id cr passphrase salt)"

definition pbkdf2_master :: "Crypto \<Rightarrow> bytes \<Rightarrow> bytes \<Rightarrow> bytes" where
  "pbkdf2_master cr passphrase salt = cr_pbkdf2 cr passphrase salt"

fun master_key :: "Crypto \<Rightarrow> KeySpec \<Rightarrow> bytes \<Rightarrow> Kdf \<Rightarrow> bytes res" where
  "master_key cr (Passphrase p) salt kdf =
    (case kdf of Argon2id \<Rightarrow> argon2id_master cr p salt | Pbkdf2Sha256 \<Rightarrow> Inr (pbkdf2_master cr p salt))"
| "master_key cr (RawKek k) salt kdf = Inr k"

fun wrap_pairing :: "Suite \<Rightarrow> u8 \<times> Suite \<times> Kdf" where
  "wrap_pairing Aes256Gcm = (WRAP_ALG_AES256GCM, Aes256Gcm, Pbkdf2Sha256)"
| "wrap_pairing XChaCha20Poly1305 = (WRAP_ALG_XCHACHA20POLY1305, XChaCha20Poly1305, Argon2id)"

definition wrap_pairing_from_alg :: "u8 \<Rightarrow> (Suite \<times> Kdf) res" where
  "wrap_pairing_from_alg wrap_alg =
    (if wrap_alg = WRAP_ALG_XCHACHA20POLY1305 then Inr (XChaCha20Poly1305, Argon2id)
     else if wrap_alg = WRAP_ALG_AES256GCM then Inr (Aes256Gcm, Pbkdf2Sha256)
     else Inl Unsupported)"

definition check_nonce :: "Suite \<Rightarrow> bytes \<Rightarrow> unit res" where
  "check_nonce suite nonce = (if length nonce = nonce_len suite then Inr () else Inl InvalidArgument)"

definition seal :: "Crypto \<Rightarrow> Suite \<Rightarrow> bytes \<Rightarrow> bytes \<Rightarrow> bytes \<Rightarrow> bytes \<Rightarrow> bytes res" where
  "seal cr suite key nonce aad plaintext =
    rbind (check_nonce suite nonce) (\<lambda>_. ok_or Internal (cr_encrypt cr suite key nonce aad plaintext))"

definition unseal :: "Crypto \<Rightarrow> Suite \<Rightarrow> bytes \<Rightarrow> bytes \<Rightarrow> bytes \<Rightarrow> bytes \<Rightarrow> bytes res" where
  "unseal cr suite key nonce aad ciphertext =
    rbind (check_nonce suite nonce) (\<lambda>_. ok_or E2eKeyInvalid (cr_decrypt cr suite key nonce aad ciphertext))"

fun derive_cek :: "Crypto \<Rightarrow> Suite \<Rightarrow> bytes \<Rightarrow> Digest \<Rightarrow> bytes" where
  "derive_cek cr XChaCha20Poly1305 dek digest = cr_keyed_blake3 cr dek (CEK_CONTEXT @ d_bytes digest)"
| "derive_cek cr Aes256Gcm dek digest = cr_hkdf_sha256 cr dek (CEK_CONTEXT @ d_bytes digest)"

record DekSession =
  ds_dek :: bytes
  ds_active_suite :: Suite

definition session_from_raw :: "bytes \<Rightarrow> Suite \<Rightarrow> DekSession" where
  "session_from_raw dek suite = \<lparr>ds_dek = dek, ds_active_suite = suite\<rparr>"

definition session_derive_cek :: "Crypto \<Rightarrow> DekSession \<Rightarrow> Suite \<Rightarrow> Digest \<Rightarrow> bytes" where
  "session_derive_cek cr s suite digest = derive_cek cr suite (ds_dek s) digest"

section \<open>Encryption metadata\<close>

record WrapEntry =
  we_source :: WrapSource
  we_wrap_alg :: u8
  we_kdf_salt :: bytes
  we_wrap_nonce :: bytes
  we_wrapped_dek :: bytes
  we_params :: bytes

record EncryptionMeta =
  em_active_suite :: Suite
  em_wraps :: "WrapEntry list"

definition wrap_for_session :: "Crypto \<Rightarrow> DekSession \<Rightarrow> KeySpec \<Rightarrow> bytes \<Rightarrow> bytes \<Rightarrow> WrapEntry res" where
  "wrap_for_session cr session spec salt nonce0 =
    (let source = wrap_source spec
     in case wrap_pairing (ds_active_suite session) of (wrap_alg, wrap_suite, kdf) \<Rightarrow>
       rbind (if source = SrcPassphrase then (if length salt < 8 then Inl InvalidArgument else Inr salt) else Inr [])
         (\<lambda>kdf_salt.
            if length nonce0 < nonce_len wrap_suite then Inl InvalidArgument
            else let wrap_nonce = take (nonce_len wrap_suite) nonce0
              in rbind (master_key cr spec kdf_salt kdf) (\<lambda>master.
                 rbind (seal cr wrap_suite master wrap_nonce WRAP_AAD (ds_dek session)) (\<lambda>wrapped_dek.
                 Inr \<lparr>we_source = source, we_wrap_alg = wrap_alg, we_kdf_salt = kdf_salt,
                      we_wrap_nonce = wrap_nonce, we_wrapped_dek = wrapped_dek, we_params = []\<rparr>))))"

text \<open>\<^verbatim>\<open>create\<close> and \<^verbatim>\<open>rewrap\<close> repeat the body of \<^verbatim>\<open>wrap_for_session\<close> for the session they describe.\<close>

definition meta_create :: "Crypto \<Rightarrow> KeySpec \<Rightarrow> Suite \<Rightarrow> bytes \<Rightarrow> bytes \<Rightarrow> bytes \<Rightarrow> (EncryptionMeta \<times> DekSession) res" where
  "meta_create cr spec active_suite salt dek wrap_nonce =
    (let session = session_from_raw dek active_suite
     in rbind (wrap_for_session cr session spec salt wrap_nonce) (\<lambda>entry.
        Inr (\<lparr>em_active_suite = active_suite, em_wraps = [entry]\<rparr>, session)))"

definition meta_rewrap :: "Crypto \<Rightarrow> DekSession \<Rightarrow> KeySpec \<Rightarrow> bytes \<Rightarrow> bytes \<Rightarrow> EncryptionMeta res" where
  "meta_rewrap cr session new_spec salt wrap_nonce =
    rbind (wrap_for_session cr session new_spec salt wrap_nonce) (\<lambda>entry.
      Inr \<lparr>em_active_suite = ds_active_suite session, em_wraps = [entry]\<rparr>)"

definition try_unwrap :: "Crypto \<Rightarrow> WrapEntry \<Rightarrow> KeySpec \<Rightarrow> bytes res" where
  "try_unwrap cr entry spec =
    rbind (wrap_pairing_from_alg (we_wrap_alg entry)) (\<lambda>(wrap_suite, kdf).
    rbind (master_key cr spec (we_kdf_salt entry) kdf) (\<lambda>master.
    rbind (unseal cr wrap_suite master (we_wrap_nonce entry) WRAP_AAD (we_wrapped_dek entry)) (\<lambda>dek.
    if length dek \<noteq> KEY_LEN then Inl E2eKeyInvalid else Inr dek)))"

fun unlock_loop :: "Crypto \<Rightarrow> Suite \<Rightarrow> KeySpec \<Rightarrow> WrapEntry list \<Rightarrow> code \<Rightarrow> DekSession res" where
  "unlock_loop cr suite spec [] last_err = Inl last_err"
| "unlock_loop cr suite spec (entry # wraps) last_err =
    (if \<not> unlocks spec (we_source entry) then unlock_loop cr suite spec wraps last_err
     else case try_unwrap cr entry spec of
       Inr dek \<Rightarrow> Inr (session_from_raw dek suite)
     | Inl e \<Rightarrow> unlock_loop cr suite spec wraps e)"

definition unlock :: "Crypto \<Rightarrow> EncryptionMeta \<Rightarrow> KeySpec \<Rightarrow> DekSession res" where
  "unlock cr m spec = unlock_loop cr (em_active_suite m) spec (em_wraps m) E2eKeyInvalid"

definition has_passphrase_wrap :: "WrapEntry list \<Rightarrow> bool" where
  "has_passphrase_wrap wraps = list_ex (\<lambda>w. we_source w = SrcPassphrase) wraps"

definition has_external_wrap :: "WrapEntry list \<Rightarrow> bool" where
  "has_external_wrap wraps = list_ex (\<lambda>w. we_source w \<noteq> SrcPassphrase) wraps"

definition enforce_recovery_policy :: "WrapEntry list \<Rightarrow> bool \<Rightarrow> unit res" where
  "enforce_recovery_policy wraps allow_no_recovery =
    (if \<not> allow_no_recovery \<and> has_external_wrap wraps \<and> \<not> has_passphrase_wrap wraps
     then Inl InvalidArgument else Inr ())"

definition is_ok :: "'e + 'a \<Rightarrow> bool" where
  "is_ok r = (case r of Inl _ \<Rightarrow> False | Inr _ \<Rightarrow> True)"

definition add_wrap :: "Crypto \<Rightarrow> EncryptionMeta \<Rightarrow> DekSession \<Rightarrow> KeySpec \<Rightarrow> bytes \<Rightarrow> bytes \<Rightarrow> bool \<Rightarrow> EncryptionMeta res" where
  "add_wrap cr m session new_spec salt wrap_nonce allow_no_recovery =
    (if ds_active_suite session \<noteq> em_active_suite m then Inl InvalidArgument
     else if is_ok (unlock cr m new_spec) then Inl AlreadyExists
     else rbind (wrap_for_session cr session new_spec salt wrap_nonce) (\<lambda>entry.
       let wraps = em_wraps m @ [entry]
       in rbind (enforce_recovery_policy wraps allow_no_recovery) (\<lambda>_. Inr (m\<lparr>em_wraps := wraps\<rparr>))))"

definition remove_wrap :: "EncryptionMeta \<Rightarrow> nat \<Rightarrow> bool \<Rightarrow> EncryptionMeta res" where
  "remove_wrap m index allow_no_recovery =
    (if length (em_wraps m) \<le> index then Inl NotFound
     else if length (em_wraps m) = 1 then Inl InvalidArgument
     else let wraps = take index (em_wraps m) @ drop (Suc index) (em_wraps m)
       in rbind (enforce_recovery_policy wraps allow_no_recovery) (\<lambda>_. Inr (m\<lparr>em_wraps := wraps\<rparr>)))"

definition meta_field :: "bytes \<Rightarrow> bytes" where
  "meta_field b = u16_be (word_of_nat (length b)) @ b"

definition encode_wrap :: "WrapEntry \<Rightarrow> bytes" where
  "encode_wrap w = source_code (we_source w) # we_wrap_alg w # meta_field (we_kdf_salt w) @ meta_field (we_wrap_nonce w)
     @ meta_field (we_wrapped_dek w) @ meta_field (we_params w)"

definition meta_encode :: "EncryptionMeta \<Rightarrow> bytes" where
  "meta_encode m = META_MAGIC @ [META_VERSION, suite_id (em_active_suite m)]
     @ u16_be (word_of_nat (length (em_wraps m))) @ concat (map encode_wrap (em_wraps m))"

definition meta_take :: "bytes \<Rightarrow> nat \<Rightarrow> (bytes \<times> nat) res" where
  "meta_take b pos =
    (if pos + 2 > length b then Inl CorruptObject
     else let len = unat (u16_from_be (subslice b pos (pos + 2)))
       in if pos + 2 + len > length b then Inl CorruptObject
          else Inr (subslice b (pos + 2) (pos + 2 + len), pos + 2 + len))"

definition decode_wrap :: "bytes \<Rightarrow> nat \<Rightarrow> (WrapEntry \<times> nat) res" where
  "decode_wrap b pos =
    (if pos + 2 > length b then Inl CorruptObject
     else rbind (source_from_code (b ! pos)) (\<lambda>source.
       rbind (meta_take b (pos + 2)) (\<lambda>(kdf_salt, p1).
       rbind (meta_take b p1) (\<lambda>(wrap_nonce, p2).
       rbind (meta_take b p2) (\<lambda>(wrapped_dek, p3).
       rbind (meta_take b p3) (\<lambda>(params, p4).
       Inr (\<lparr>we_source = source, we_wrap_alg = b ! (pos + 1), we_kdf_salt = kdf_salt, we_wrap_nonce = wrap_nonce,
             we_wrapped_dek = wrapped_dek, we_params = params\<rparr>, p4)))))))"

fun decode_wraps :: "bytes \<Rightarrow> nat \<Rightarrow> nat \<Rightarrow> WrapEntry list res" where
  "decode_wraps b pos 0 = Inr []"
| "decode_wraps b pos (Suc n) =
    rbind (decode_wrap b pos) (\<lambda>(w, p). rbind (decode_wraps b p n) (\<lambda>ws. Inr (w # ws)))"

definition meta_decode :: "bytes \<Rightarrow> EncryptionMeta res" where
  "meta_decode b =
    (if length b < 6 \<or> take 4 b \<noteq> META_MAGIC then Inl CorruptObject
     else rbind (map_err (\<lambda>_. CorruptObject) (suite_from_id (b ! 5))) (\<lambda>suite.
       if b ! 4 \<noteq> META_VERSION then Inl CorruptObject
       else if 6 + 2 > length b then Inl CorruptObject
       else rbind (decode_wraps b 8 (unat (u16_from_be (subslice b 6 8)))) (\<lambda>wraps.
         if wraps = [] then Inl CorruptObject
         else Inr \<lparr>em_active_suite = suite, em_wraps = wraps\<rparr>)))"

section \<open>What is relied on of the ciphers\<close>

text \<open>Decryption inverts encryption and the tag takes 16 bytes; the password hash accepts every salt of eight
  bytes; among the credentials in use, a wrap made for one does not open under the key of another.\<close>

definition aead_correct :: "Crypto \<Rightarrow> bool" where
  "aead_correct cr \<longleftrightarrow> (\<forall>suite key nonce aad m. length nonce = nonce_len suite \<longrightarrow> length m < 2 ^ 32 \<longrightarrow>
     (\<exists>c. cr_encrypt cr suite key nonce aad m = Some c \<and> length c = length m + 16 \<and> cr_decrypt cr suite key nonce aad c = Some m))"

definition kdf_total :: "Crypto \<Rightarrow> bool" where
  "kdf_total cr \<longleftrightarrow> (\<forall>p salt. 8 \<le> length salt \<longrightarrow> cr_argon2id cr p salt \<noteq> None)"

definition wraps_separate :: "Crypto \<Rightarrow> KeySpec set \<Rightarrow> bool" where
  "wraps_separate cr S \<longleftrightarrow> (\<forall>s \<in> S. \<forall>s' \<in> S. s \<noteq> s' \<longrightarrow> (\<forall>salt kdf suite nonce dek k k' c.
     master_key cr s salt kdf = Inr k \<longrightarrow> master_key cr s' salt kdf = Inr k' \<longrightarrow>
     cr_encrypt cr suite k nonce WRAP_AAD dek = Some c \<longrightarrow> cr_decrypt cr suite k' nonce WRAP_AAD c = None))"

lemma aead_correctE:
  assumes "aead_correct cr" and "length m < 2 ^ 32" and "length nonce = nonce_len suite"
  obtains c where "cr_encrypt cr suite key nonce aad m = Some c" and "length c = length m + 16"
    and "cr_decrypt cr suite key nonce aad c = Some m"
  using assms unfolding aead_correct_def by blast

lemma seal_total:
  assumes "aead_correct cr" and "length m < 2 ^ 32" and "length nonce = nonce_len suite"
  obtains c where "seal cr suite key nonce aad m = Inr c" and "length c = length m + 16"
    and "unseal cr suite key nonce aad c = Inr m"
proof -
  from assms obtain c where "cr_encrypt cr suite key nonce aad m = Some c" and "length c = length m + 16"
    and "cr_decrypt cr suite key nonce aad c = Some m" by (rule aead_correctE)
  with assms(3) show thesis by (intro that [of c]) (simp_all add: seal_def unseal_def check_nonce_def)
qed

lemma unseal_seal:
  assumes "aead_correct cr" and "length m < 2 ^ 32" and "seal cr suite key nonce aad m = Inr c"
  shows "unseal cr suite key nonce aad c = Inr m"
proof -
  have "length nonce = nonce_len suite" using assms(3) by (auto simp: seal_def check_nonce_def split: if_splits)
  with assms(1,2) obtain c' where "seal cr suite key nonce aad m = Inr c'" "unseal cr suite key nonce aad c' = Inr m"
    by (rule seal_total)
  with assms(3) show ?thesis by simp
qed

section \<open>The metadata record\<close>

definition wrap_wf :: "WrapEntry \<Rightarrow> bool" where
  "wrap_wf w \<longleftrightarrow> length (we_kdf_salt w) < 2 ^ 16 \<and> length (we_wrap_nonce w) < 2 ^ 16 \<and> length (we_wrapped_dek w) < 2 ^ 16
     \<and> length (we_params w) < 2 ^ 16"

definition meta_wf :: "EncryptionMeta \<Rightarrow> bool" where
  "meta_wf m \<longleftrightarrow> em_wraps m \<noteq> [] \<and> length (em_wraps m) < 2 ^ 16 \<and> list_all wrap_wf (em_wraps m)"

lemma unat_u16_of_nat: "n < 2 ^ 16 \<Longrightarrow> unat (word_of_nat n :: u16) = n"
  by (simp add: unat_of_nat)

lemma meta_take_field:
  assumes "length f < 2 ^ 16"
  shows "meta_take (pre @ meta_field f @ post) (length pre) = Inr (f, length pre + length (meta_field f))"
  using unat_u16_of_nat [OF assms] by (simp add: meta_take_def meta_field_def subslice_def Let_def)

lemma decode_wrap_encode:
  assumes "wrap_wf w"
  shows "decode_wrap (pre @ encode_wrap w @ post) (length pre) = Inr (w, length pre + length (encode_wrap w))"
proof -
  let ?a = "meta_field (we_kdf_salt w)" and ?b = "meta_field (we_wrap_nonce w)" and ?c = "meta_field (we_wrapped_dek w)"
    and ?d = "meta_field (we_params w)" and ?h = "[source_code (we_source w), we_wrap_alg w]"
  let ?buf = "pre @ encode_wrap w @ post"
  have fits: "length (we_kdf_salt w) < 2 ^ 16" "length (we_wrap_nonce w) < 2 ^ 16" "length (we_wrapped_dek w) < 2 ^ 16"
    "length (we_params w) < 2 ^ 16" using assms by (simp_all add: wrap_wf_def)
  have buf: "?buf = (pre @ ?h) @ ?a @ ?b @ ?c @ ?d @ post" "?buf = (pre @ ?h @ ?a) @ ?b @ ?c @ ?d @ post"
    "?buf = (pre @ ?h @ ?a @ ?b) @ ?c @ ?d @ post" "?buf = (pre @ ?h @ ?a @ ?b @ ?c) @ ?d @ post"
    by (simp_all add: encode_wrap_def)
  have 1: "meta_take ?buf (length pre + 2) = Inr (we_kdf_salt w, length pre + 2 + length ?a)"
    using meta_take_field [OF fits(1), of "pre @ ?h"] by (simp only: buf(1)) simp
  have 2: "meta_take ?buf (length pre + 2 + length ?a) = Inr (we_wrap_nonce w, length pre + 2 + length ?a + length ?b)"
    using meta_take_field [OF fits(2), of "pre @ ?h @ ?a"] by (simp only: buf(2)) (simp add: add.assoc)
  have 3: "meta_take ?buf (length pre + 2 + length ?a + length ?b)
      = Inr (we_wrapped_dek w, length pre + 2 + length ?a + length ?b + length ?c)"
    using meta_take_field [OF fits(3), of "pre @ ?h @ ?a @ ?b"] by (simp only: buf(3)) (simp add: add.assoc)
  have 4: "meta_take ?buf (length pre + 2 + length ?a + length ?b + length ?c)
      = Inr (we_params w, length pre + 2 + length ?a + length ?b + length ?c + length ?d)"
    using meta_take_field [OF fits(4), of "pre @ ?h @ ?a @ ?b @ ?c"] by (simp only: buf(4)) (simp add: add.assoc)
  have src: "source_from_code (source_code (we_source w)) = Inr (we_source w)"
    by (cases "we_source w") (simp_all add: source_from_code_def)
  have heads: "?buf ! length pre = source_code (we_source w)" "?buf ! (length pre + 1) = we_wrap_alg w" "length pre + 2 \<le> length ?buf"
    by (simp_all add: encode_wrap_def nth_append)
  have "length pre + 2 + length ?a + length ?b + length ?c + length ?d = length pre + length (encode_wrap w)"
    by (simp add: encode_wrap_def)
  then show ?thesis
    unfolding decode_wrap_def using heads(3) by (simp only: heads(1,2) src 1 2 3 4 rbind_simps prod.case not_less if_False) simp
qed

lemma decode_wraps_encode:
  "list_all wrap_wf ws \<Longrightarrow> decode_wraps (pre @ concat (map encode_wrap ws) @ post) (length pre) (length ws) = Inr ws"
proof (induction ws arbitrary: pre)
  case Nil
  show ?case by simp
next
  case (Cons w ws)
  have "decode_wrap (pre @ encode_wrap w @ concat (map encode_wrap ws) @ post) (length pre) = Inr (w, length (pre @ encode_wrap w))"
    using decode_wrap_encode [of w pre "concat (map encode_wrap ws) @ post"] Cons.prems by simp
  with Cons.IH [of "pre @ encode_wrap w"] Cons.prems show ?case by simp
qed

lemma meta_round_trip:
  assumes "meta_wf m"
  shows "meta_decode (meta_encode m @ post) = Inr m"
proof -
  let ?h = "META_MAGIC @ [META_VERSION, suite_id (em_active_suite m)] @ u16_be (word_of_nat (length (em_wraps m)))"
  let ?b = "meta_encode m @ post"
  have b: "?b = ?h @ concat (map encode_wrap (em_wraps m)) @ post" by (simp add: meta_encode_def)
  have l: "length ?h = 8" by (simp add: META_MAGIC_def)
  have h: "take 4 ?b = META_MAGIC" "?b ! 4 = META_VERSION" "?b ! 5 = suite_id (em_active_suite m)" "8 \<le> length ?b"
    "subslice ?b 6 8 = u16_be (word_of_nat (length (em_wraps m)))"
    by (simp_all add: b META_MAGIC_def subslice_def nth_append)
  have s: "suite_from_id (suite_id (em_active_suite m)) = Inr (em_active_suite m)"
    by (cases "em_active_suite m") (simp_all add: suite_from_id_def)
  have n: "unat (word_of_nat (length (em_wraps m)) :: u16) = length (em_wraps m)"
    using assms by (intro unat_u16_of_nat) (simp add: meta_wf_def)
  have d: "decode_wraps ?b 8 (length (em_wraps m)) = Inr (em_wraps m)"
    using decode_wraps_encode [of "em_wraps m" ?h post] assms l by (simp only: b meta_wf_def)
  have "em_wraps m \<noteq> []" using assms by (simp add: meta_wf_def)
  moreover have "\<not> length ?b < 6" "\<not> 6 + 2 > length ?b" using h(4) by linarith+
  ultimately show ?thesis
    unfolding meta_decode_def by (simp only: h(1,2,3,5) s n d int_bytes_roundtrip map_err_simps rbind_simps simp_thms if_False) simp
qed

section \<open>Attached credentials\<close>

text \<open>An entry made for a credential unwraps to the data key under it, and under no other credential in use.\<close>

definition entry_for :: "Crypto \<Rightarrow> DekSession \<Rightarrow> WrapEntry \<Rightarrow> KeySpec \<Rightarrow> bool" where
  "entry_for cr session entry spec \<longleftrightarrow> (\<exists>salt nonce. wrap_for_session cr session spec salt nonce = Inr entry)"

lemma wrap_for_sessionE:
  assumes "wrap_for_session cr session spec salt nonce = Inr entry"
  obtains suite kdf master where "wrap_pairing_from_alg (we_wrap_alg entry) = Inr (suite, kdf)"
    and "master_key cr spec (we_kdf_salt entry) kdf = Inr master" and "length (we_wrap_nonce entry) = nonce_len suite"
    and "seal cr suite master (we_wrap_nonce entry) WRAP_AAD (ds_dek session) = Inr (we_wrapped_dek entry)"
    and "we_source entry = wrap_source spec" and "we_source entry = SrcPassphrase \<longrightarrow> 8 \<le> length (we_kdf_salt entry)"
proof -
  have alg: "wrap_pairing_from_alg WRAP_ALG_AES256GCM = Inr (Aes256Gcm, Pbkdf2Sha256)"
    "wrap_pairing_from_alg WRAP_ALG_XCHACHA20POLY1305 = Inr (XChaCha20Poly1305, Argon2id)"
    by (simp_all add: wrap_pairing_from_alg_def WRAP_ALG_AES256GCM_def WRAP_ALG_XCHACHA20POLY1305_def)
  show thesis
    using assms that by (cases "ds_active_suite session")
      (auto simp: wrap_for_session_def Let_def alg result_simps split: if_splits)
qed

lemma try_unwrap_own:
  assumes "aead_correct cr" and "length (ds_dek session) = KEY_LEN" and "entry_for cr session entry spec"
  shows "try_unwrap cr entry spec = Inr (ds_dek session)" and "unlocks spec (we_source entry)"
proof -
  obtain salt nonce where w: "wrap_for_session cr session spec salt nonce = Inr entry" using assms(3) by (auto simp: entry_for_def)
  from w obtain suite kdf master where p: "wrap_pairing_from_alg (we_wrap_alg entry) = Inr (suite, kdf)"
    and m: "master_key cr spec (we_kdf_salt entry) kdf = Inr master"
    and sl: "seal cr suite master (we_wrap_nonce entry) WRAP_AAD (ds_dek session) = Inr (we_wrapped_dek entry)"
    and src: "we_source entry = wrap_source spec"
    by (rule wrap_for_sessionE)
  have "unseal cr suite master (we_wrap_nonce entry) WRAP_AAD (we_wrapped_dek entry) = Inr (ds_dek session)"
    by (rule unseal_seal [OF assms(1) _ sl]) (simp add: assms(2) KEY_LEN_def)
  then show "try_unwrap cr entry spec = Inr (ds_dek session)" using assms(2) by (simp add: try_unwrap_def p m)
  show "unlocks spec (we_source entry)" by (cases spec) (simp_all add: src)
qed

lemma try_unwrap_other:
  assumes "wraps_separate cr S" and "kdf_total cr" and "entry_for cr session entry spec" and "spec \<in> S" "spec' \<in> S"
    and "spec \<noteq> spec'" and "unlocks spec' (we_source entry)"
  shows "try_unwrap cr entry spec' = Inl E2eKeyInvalid"
proof -
  obtain salt nonce where w: "wrap_for_session cr session spec salt nonce = Inr entry" using assms(3) by (auto simp: entry_for_def)
  from w obtain suite kdf master where p: "wrap_pairing_from_alg (we_wrap_alg entry) = Inr (suite, kdf)"
    and m: "master_key cr spec (we_kdf_salt entry) kdf = Inr master" and n: "length (we_wrap_nonce entry) = nonce_len suite"
    and sl: "seal cr suite master (we_wrap_nonce entry) WRAP_AAD (ds_dek session) = Inr (we_wrapped_dek entry)"
    and src: "we_source entry = wrap_source spec" and salt: "we_source entry = SrcPassphrase \<longrightarrow> 8 \<le> length (we_kdf_salt entry)"
    by (rule wrap_for_sessionE)
  obtain master' where m': "master_key cr spec' (we_kdf_salt entry) kdf = Inr master'"
  proof (cases spec')
    case (Passphrase p)
    then have "cr_argon2id cr p (we_kdf_salt entry) \<noteq> None" using assms(2,7) salt by (auto simp: kdf_total_def)
    with Passphrase that show ?thesis by (cases kdf) (auto simp: argon2id_master_def)
  next
    case (RawKek k)
    with that show ?thesis by simp
  qed
  have e: "cr_encrypt cr suite master (we_wrap_nonce entry) WRAP_AAD (ds_dek session) = Some (we_wrapped_dek entry)"
    using sl by (auto simp: seal_def result_simps)
  have "cr_decrypt cr suite master' (we_wrap_nonce entry) WRAP_AAD (we_wrapped_dek entry) = None"
    using assms(1,4,5,6) m m' e unfolding wraps_separate_def by blast
  then show ?thesis by (simp add: try_unwrap_def p m' unseal_def check_nonce_def n)
qed

lemma unlock_loop_exact:
  assumes "aead_correct cr" "kdf_total cr" "wraps_separate cr S" "length (ds_dek session) = KEY_LEN" "spec \<in> S"
    and "list_all2 (entry_for cr session) wraps specs" and "set specs \<subseteq> S"
  shows "unlock_loop cr (ds_active_suite session) spec wraps E2eKeyInvalid
    = (if spec \<in> set specs then Inr session else Inl E2eKeyInvalid)"
  using assms(6,7)
proof (induction wraps specs rule: list_all2_induct)
  case Nil
  show ?case by simp
next
  case (Cons entry wraps s specs)
  show ?case
  proof (cases "s = spec")
    case True
    then show ?thesis using try_unwrap_own [OF assms(1,4) Cons.hyps(1)] by (simp add: session_from_raw_def)
  next
    case False
    then have "try_unwrap cr entry spec = Inl E2eKeyInvalid" if "unlocks spec (we_source entry)"
      using try_unwrap_other [OF assms(3,2) Cons.hyps(1) _ assms(5) False that] Cons.prems by simp
    then show ?thesis using Cons False by auto
  qed
qed

text \<open>The life of the metadata of one store: the credentials attached at each moment.\<close>

inductive attached :: "Crypto \<Rightarrow> DekSession \<Rightarrow> EncryptionMeta \<Rightarrow> KeySpec list \<Rightarrow> bool" for cr session where
  created: "meta_create cr spec (ds_active_suite session) salt (ds_dek session) nonce = Inr (m, session) \<Longrightarrow> attached cr session m [spec]"
| rewrapped: "meta_rewrap cr session spec salt nonce = Inr m \<Longrightarrow> attached cr session m [spec]"
| added: "attached cr session m specs \<Longrightarrow> add_wrap cr m session spec salt nonce allow = Inr m' \<Longrightarrow>
    attached cr session m' (specs @ [spec])"
| removed: "attached cr session m specs \<Longrightarrow> remove_wrap m i allow = Inr m' \<Longrightarrow>
    attached cr session m' (take i specs @ drop (Suc i) specs)"

lemma attached_entries:
  "attached cr session m specs \<Longrightarrow>
    list_all2 (entry_for cr session) (em_wraps m) specs \<and> em_active_suite m = ds_active_suite session \<and> specs \<noteq> []"
proof (induction rule: attached.induct)
  case (created spec salt nonce m)
  then show ?case by (cases session) (auto simp: meta_create_def Let_def result_simps entry_for_def session_from_raw_def, blast)
next
  case (rewrapped spec salt nonce m)
  then show ?case by (auto simp: meta_rewrap_def result_simps entry_for_def, blast)
next
  case (added m specs spec salt nonce allow m')
  then obtain entry where e: "wrap_for_session cr session spec salt nonce = Inr entry" and m': "m' = m\<lparr>em_wraps := em_wraps m @ [entry]\<rparr>"
    by (auto simp: add_wrap_def Let_def result_simps split: if_splits)
  from e have "entry_for cr session entry spec" unfolding entry_for_def by blast
  then show ?case using added.IH by (simp add: m' list_all2_appendI)
next
  case (removed m specs i allow m')
  then have l: "length (em_wraps m) = length specs" by (auto dest: list_all2_lengthD)
  have "em_wraps m' = take i (em_wraps m) @ drop (Suc i) (em_wraps m)" "i < length specs" "length specs \<noteq> 1"
    "em_active_suite m' = em_active_suite m"
    using removed(2) l by (auto simp: remove_wrap_def Let_def result_simps split: if_splits)
  moreover have "take i specs @ drop (Suc i) specs \<noteq> []" using calculation(2,3) by auto
  ultimately show ?case using removed.IH by (auto intro!: list_all2_appendI list_all2_takeI list_all2_dropI)
qed

text \<open>C8: Whatever sequence of creation, key changes, added and removed credentials the encryption metadata of a
  store goes through, unlocking it succeeds for exactly the credentials attached at that moment, and then yields
  the data key and suite of the store; any other credential in use is refused as an invalid key. At least one
  credential stays attached.\<close>

theorem unlock_exactly_attached:
  assumes "attached cr session m specs" and "aead_correct cr" and "kdf_total cr" and "wraps_separate cr S"
    and "length (ds_dek session) = KEY_LEN" and "set specs \<subseteq> S" and "spec \<in> S"
  shows "specs \<noteq> [] \<and> unlock cr m spec = (if spec \<in> set specs then Inr session else Inl E2eKeyInvalid)"
  using attached_entries [OF assms(1)] unlock_loop_exact [OF assms(2,3,4,5,7) _ assms(6)] by (simp add: unlock_def)

definition toy_crypto :: Crypto where
  "toy_crypto = \<lparr>cr_argon2id = \<lambda>p salt. Some p, cr_pbkdf2 = \<lambda>p salt. p,
     cr_encrypt = \<lambda>suite key nonce aad m. Some (m @ take 16 (key @ replicate 16 0)),
     cr_decrypt = \<lambda>suite key nonce aad c. if 16 \<le> length c \<and> drop (length c - 16) c = take 16 (key @ replicate 16 0)
       then Some (take (length c - 16) c) else None,
     cr_keyed_blake3 = \<lambda>k b. k, cr_hkdf_sha256 = \<lambda>k b. k\<rparr>"

lemma toy_crypto_laws:
  "aead_correct toy_crypto" "kdf_total toy_crypto"
  "wraps_separate toy_crypto {Passphrase [1], RawKek (replicate 32 2)}"
proof -
  have "min n 16 + (16 - n) = (16 :: nat)" for n by linarith
  then show "aead_correct toy_crypto" by (simp add: aead_correct_def toy_crypto_def)
  show "kdf_total toy_crypto" by (simp add: kdf_total_def toy_crypto_def)
  let ?a = "take 16 ([1] @ replicate 16 0) :: bytes" and ?b = "take 16 (replicate 32 2 @ replicate 16 0) :: bytes"
  have "hd ?a = 1" "hd ?b = 2" by simp_all
  then have "hd ?a \<noteq> hd ?b" by (simp del: take_append append.simps)
  then have ab: "?a \<noteq> ?b" by (rule contrapos_nn) (rule arg_cong)
  have k: "master_key toy_crypto (Passphrase [1]) salt kdf = Inr [1]" "master_key toy_crypto (RawKek k) salt kdf = Inr k" for salt kdf k
    by (cases kdf) (simp_all add: toy_crypto_def argon2id_master_def pbkdf2_master_def)
  have e: "cr_encrypt toy_crypto suite x nonce aad m = Some (m @ take 16 (x @ replicate 16 0))" for suite x nonce aad m
    by (simp add: toy_crypto_def)
  have d: "cr_decrypt toy_crypto suite x nonce aad (m @ t) = (if t = take 16 (x @ replicate 16 0) then Some m else None)"
    if "length t = 16" for suite x nonce aad m t
    using that by (simp add: toy_crypto_def)
  show "wraps_separate toy_crypto {Passphrase [1], RawKek (replicate 32 2)}"
    unfolding wraps_separate_def using ab ab [symmetric] by (auto simp: k e d simp del: take_append append.simps master_key.simps)
qed

theorem unlock_exactly_attached_witness:
  "\<exists>m m'. meta_create toy_crypto (Passphrase [1]) Aes256Gcm (replicate 8 0) (replicate 32 9) (replicate 24 0)
      = Inr (m, session_from_raw (replicate 32 9) Aes256Gcm)
    \<and> unlock toy_crypto m (RawKek (replicate 32 2)) = Inl E2eKeyInvalid
    \<and> add_wrap toy_crypto m (session_from_raw (replicate 32 9) Aes256Gcm) (RawKek (replicate 32 2)) [] (replicate 12 7) False = Inr m'
    \<and> unlock toy_crypto m' (RawKek (replicate 32 2)) = Inr (session_from_raw (replicate 32 9) Aes256Gcm)"
proof -
  let ?s = "session_from_raw (replicate 32 9) Aes256Gcm" and ?p = "Passphrase [1]" and ?r = "RawKek (replicate 32 2)"
  let ?S = "{?p, ?r}"
  obtain m where m: "meta_create toy_crypto ?p Aes256Gcm (replicate 8 0) (replicate 32 9) (replicate 24 0) = Inr (m, ?s)"
    by (auto simp: meta_create_def wrap_for_session_def seal_def check_nonce_def toy_crypto_def session_from_raw_def)
  then have a: "attached toy_crypto ?s m [?p]" by (intro attached.created) (simp add: session_from_raw_def)
  have len: "length (ds_dek ?s) = KEY_LEN" by (simp add: session_from_raw_def KEY_LEN_def)
  have u: "unlock toy_crypto m ?r = Inl E2eKeyInvalid"
    using unlock_exactly_attached [OF a toy_crypto_laws len, of ?r] by simp
  obtain m' where m': "add_wrap toy_crypto m ?s ?r [] (replicate 12 7) False = Inr m'"
  proof -
    have "em_active_suite m = Aes256Gcm" "has_passphrase_wrap (em_wraps m)"
      using m by (auto simp: meta_create_def wrap_for_session_def seal_def check_nonce_def toy_crypto_def session_from_raw_def
          has_passphrase_wrap_def)
    moreover obtain e where "wrap_for_session toy_crypto ?s ?r [] (replicate 12 7) = Inr e"
      by (auto simp: wrap_for_session_def seal_def check_nonce_def toy_crypto_def session_from_raw_def)
    ultimately show ?thesis using u that
      by (auto simp: add_wrap_def is_ok_def enforce_recovery_policy_def has_passphrase_wrap_def session_from_raw_def)
  qed
  have "attached toy_crypto ?s m' ([?p] @ [?r])" by (rule attached.added [OF a m'])
  from unlock_exactly_attached [OF this toy_crypto_laws len, of ?r] have "unlock toy_crypto m' ?r = Inr ?s" by simp
  with m u m' show ?thesis by blast
qed

end
