(* ===== verification/Loom_Frame.thy ===== *)
theory Loom_Frame
  imports Loom_Keys Loom_Superblock
begin

text \<open>
  Object records of the store: the payload frames of \<^verbatim>\<open>crates/loom-store/src/frame.rs\<close> (compression, then
  sealing) and the record around them of \<^verbatim>\<open>crates/loom-store/src/record_io.rs\<close>. The compressors are
  third-party code, fields of a \<open>Compressors\<close> argument; the nonce that the operating system supplies is an
  argument, \<open>None\<close> when the generator fails. A content address is over the plaintext.
\<close>

section \<open>Payload frames\<close>

definition FRAME_IDENTITY :: u8 where "FRAME_IDENTITY = 0x00"
definition FRAME_DEFLATE :: u8 where "FRAME_DEFLATE = 0x01"
definition FRAME_LZ4 :: u8 where "FRAME_LZ4 = 0x02"
definition FRAME_AEAD_BASE :: u8 where "FRAME_AEAD_BASE = 0x10"
definition FRAME_VERSION :: u8 where "FRAME_VERSION = 1"
definition FRAME_AD_DOMAIN :: bytes where "FRAME_AD_DOMAIN = ascii ''uldren-loom/objframe/v1''"
definition COMPRESS_THRESHOLD :: nat where "COMPRESS_THRESHOLD = 1024"
definition REC_MAGIC :: u8 where "REC_MAGIC = 0xB0"

lemmas frame_ids = FRAME_IDENTITY_def FRAME_DEFLATE_def FRAME_LZ4_def FRAME_AEAD_BASE_def

definition is_aead_frame :: "u8 \<Rightarrow> bool" where
  "is_aead_frame frame = in_range FRAME_AEAD_BASE 0x12 frame"

datatype Codec = CodecNone | Deflate | Lz4
datatype CompressionHint = HintNone | Fast | Small

fun codec_for_hint :: "CompressionHint \<Rightarrow> Codec" where
  "codec_for_hint HintNone = CodecNone"
| "codec_for_hint Fast = Lz4"
| "codec_for_hint Small = Deflate"

record Compressors =
  cz_deflate :: "bytes \<Rightarrow> bytes"
  cz_inflate :: "bytes \<Rightarrow> bytes option"
  cz_lz4 :: "bytes \<Rightarrow> bytes"
  cz_unlz4 :: "bytes \<Rightarrow> bytes option"

definition encode_payload :: "Compressors \<Rightarrow> Codec \<Rightarrow> bytes \<Rightarrow> u8 \<times> bytes" where
  "encode_payload cz codec plain =
    (if codec = CodecNone \<or> length plain < COMPRESS_THRESHOLD then (FRAME_IDENTITY, plain)
     else let fc = (case codec of Deflate \<Rightarrow> (FRAME_DEFLATE, cz_deflate cz plain) | _ \<Rightarrow> (FRAME_LZ4, cz_lz4 cz plain))
       in if length (snd fc) < length plain then fc else (FRAME_IDENTITY, plain))"

definition decode_payload :: "Compressors \<Rightarrow> u8 \<Rightarrow> bytes \<Rightarrow> bytes res" where
  "decode_payload cz frame stored =
    (if frame = FRAME_IDENTITY then Inr stored
     else if frame = FRAME_DEFLATE then ok_or CorruptObject (cz_inflate cz stored)
     else if frame = FRAME_LZ4 then ok_or CorruptObject (cz_unlz4 cz stored)
     else Inl CorruptObject)"

definition frame_aad :: "u8 \<Rightarrow> u8 \<Rightarrow> Digest \<Rightarrow> u64 \<Rightarrow> u64 \<Rightarrow> bytes" where
  "frame_aad aead_frame_id suite digest plain_len stored_len =
    FRAME_AD_DOMAIN @ [FRAME_VERSION, aead_frame_id, suite] @ d_bytes digest @ u64_le plain_len @ u64_le stored_len"

definition seal_aead_frame ::
  "Crypto \<Rightarrow> u8 \<Rightarrow> bytes \<Rightarrow> DekSession \<Rightarrow> Digest \<Rightarrow> u64 \<Rightarrow> bytes \<Rightarrow> (u8 \<times> bytes) res" where
  "seal_aead_frame cr inner_frame_id inner session digest plain_len nonce =
    (let suite = ds_active_suite session;
         aead_frame_id = FRAME_AEAD_BASE + inner_frame_id;
         stored_len = word_of_nat (1 + length nonce + length inner + 16);
         aad = frame_aad aead_frame_id (suite_id suite) digest plain_len stored_len;
         cek = session_derive_cek cr session suite digest
     in rbind (seal cr suite cek nonce aad inner) (\<lambda>ciphertext.
        Inr (aead_frame_id, suite_id suite # nonce @ ciphertext)))"

definition open_aead_frame ::
  "Crypto \<Rightarrow> Compressors \<Rightarrow> u8 \<Rightarrow> bytes \<Rightarrow> DekSession \<Rightarrow> Digest \<Rightarrow> u64 \<Rightarrow> u64 \<Rightarrow> bytes res" where
  "open_aead_frame cr cz aead_frame_id stored session digest plain_len stored_len =
    (case stored of
       [] \<Rightarrow> Inl CorruptObject
     | sid # _ \<Rightarrow>
       rbind (suite_from_id sid) (\<lambda>suite.
         if length stored < 1 + nonce_len suite + 16 then Inl CorruptObject
         else let nonce = subslice stored 1 (1 + nonce_len suite);
                  ciphertext = drop (1 + nonce_len suite) stored;
                  aad = frame_aad aead_frame_id sid digest plain_len stored_len;
                  cek = session_derive_cek cr session suite digest
           in rbind (unseal cr suite cek nonce aad ciphertext) (\<lambda>inner.
              decode_payload cz (aead_frame_id - FRAME_AEAD_BASE) inner)))"

section \<open>Records\<close>

definition fresh_nonce :: "(nat \<Rightarrow> bytes option) \<Rightarrow> nat \<Rightarrow> bytes res" where
  "fresh_nonce rng len = ok_or Internal (rng len)"

definition encode_record ::
  "Crypto \<Rightarrow> Compressors \<Rightarrow> (nat \<Rightarrow> bytes option) \<Rightarrow> Digest \<Rightarrow> bytes \<Rightarrow> Codec \<Rightarrow> DekSession option \<Rightarrow> bytes res" where
  "encode_record cr cz rng digest plain codec sess =
    (case encode_payload cz codec plain of (frame0, stored0) \<Rightarrow>
     rbind (case sess of
              None \<Rightarrow> Inr (frame0, stored0)
            | Some session \<Rightarrow>
              rbind (fresh_nonce rng (nonce_len (ds_active_suite session))) (\<lambda>nonce.
              seal_aead_frame cr frame0 stored0 session digest (word_of_nat (length plain)) nonce))
       (\<lambda>(frame_id, stored).
          let rec = REC_MAGIC # d_bytes digest @ [frame_id] @ put_uvarint (word_of_nat (length plain))
                @ put_uvarint (word_of_nat (length stored)) @ stored
          in Inr (rec @ u32_le (crc32c rec))))"

record PreparedRecordFrame =
  prf_digest :: bytes
  prf_frame :: bytes

definition prepare_record_frame ::
  "Crypto \<Rightarrow> Compressors \<Rightarrow> (nat \<Rightarrow> bytes option) \<Rightarrow> Digest \<Rightarrow> bytes \<Rightarrow> Codec \<Rightarrow> DekSession option \<Rightarrow> PreparedRecordFrame res" where
  "prepare_record_frame cr cz rng digest plain codec sess =
    rbind (encode_record cr cz rng digest plain codec sess) (\<lambda>frame.
      Inr \<lparr>prf_digest = d_bytes digest, prf_frame = frame\<rparr>)"

definition decode_record ::
  "hash_fn \<Rightarrow> Crypto \<Rightarrow> Compressors \<Rightarrow> bytes \<Rightarrow> Digest \<Rightarrow> DekSession option \<Rightarrow> Algo \<Rightarrow> bytes res" where
  "decode_record hash cr cz rec digest dek store_algo =
    (if length rec < 34 \<or> rec ! 0 \<noteq> REC_MAGIC then Inl CorruptObject
     else rbind (ok_or CorruptObject (get_uvarint rec 34)) (\<lambda>(plain_len, p1).
       rbind (ok_or CorruptObject (get_uvarint rec p1)) (\<lambda>(stored_len, pos).
       if pos + unat stored_len \<ge> 2 ^ 64 then Inl CorruptObject
       else if pos + unat stored_len + 4 \<ge> 2 ^ 64 then Inl CorruptObject
       else let stored_end = pos + unat stored_len; crc_end = stored_end + 4
         in if length rec < crc_end then Inl CorruptObject
            else if crc32c (subslice rec 0 stored_end) \<noteq> u32_from_le (subslice rec stored_end crc_end) then Inl CorruptObject
            else let stored = subslice rec pos stored_end
              in rbind (if is_aead_frame (rec ! 33) then
                          rbind (ok_or E2eLocked dek) (\<lambda>session.
                          open_aead_frame cr cz (rec ! 33) stored session digest plain_len stored_len)
                        else decode_payload cz (rec ! 33) stored)
                   (\<lambda>payload.
                      if (word_of_nat (length payload) :: u64) \<noteq> plain_len then Inl CorruptObject
                      else if \<not> digest_eq (digest_hash hash store_algo payload) digest then Inl IntegrityFailure
                      else Inr payload))))"

section \<open>Round trip\<close>

definition compress_correct :: "Compressors \<Rightarrow> bool" where
  "compress_correct cz \<longleftrightarrow> (\<forall>p. cz_inflate cz (cz_deflate cz p) = Some p \<and> cz_unlz4 cz (cz_lz4 cz p) = Some p)"

lemma payload_round_trip:
  assumes "compress_correct cz" and "encode_payload cz codec plain = (f, st)"
  shows "decode_payload cz f st = Inr plain" and "f \<in> {FRAME_IDENTITY, FRAME_DEFLATE, FRAME_LZ4}" and "length st \<le> length plain"
  using assms by (cases codec; auto simp: encode_payload_def decode_payload_def compress_correct_def frame_ids Let_def split: if_splits)+

lemma aead_frame_ids:
  assumes "f \<in> {FRAME_IDENTITY, FRAME_DEFLATE, FRAME_LZ4}"
  shows "is_aead_frame (FRAME_AEAD_BASE + f)" and "\<not> is_aead_frame f"
  using assms by (auto simp: frame_ids is_aead_frame_def in_range_def word_le_nat_alt)

lemma suite_from_id_id [simp]: "suite_from_id (suite_id s) = Inr s"
  by (cases s) (simp_all add: suite_from_id_def)

text \<open>A sealed frame opens under every session with the same data key, whatever its suite for new writes.\<close>

lemma aead_round_trip:
  assumes "aead_correct cr" and "length nonce = nonce_len (ds_active_suite session)" and "length inner < 2 ^ 32"
    and "ds_dek session' = ds_dek session"
  shows "\<exists>st. seal_aead_frame cr f inner session digest plen nonce = Inr (FRAME_AEAD_BASE + f, st)
    \<and> length st = 1 + length nonce + length inner + 16
    \<and> open_aead_frame cr cz (FRAME_AEAD_BASE + f) st session' digest plen (word_of_nat (length st)) = decode_payload cz f inner"
proof -
  let ?su = "ds_active_suite session"
  define cek where "cek = session_derive_cek cr session ?su digest"
  define aad where "aad = frame_aad (FRAME_AEAD_BASE + f) (suite_id ?su) digest plen (word_of_nat (1 + length nonce + length inner + 16))"
  from assms(1,3,2) obtain c where c: "seal cr ?su cek nonce aad inner = Inr c" "length c = length inner + 16"
      "unseal cr ?su cek nonce aad c = Inr inner"
    by (rule seal_total)
  let ?st = "suite_id ?su # nonce @ c"
  have len: "length ?st = 1 + length nonce + length inner + 16" using c(2) by simp
  have "seal_aead_frame cr f inner session digest plen nonce = Inr (FRAME_AEAD_BASE + f, ?st)"
    unfolding seal_aead_frame_def Let_def aad_def [symmetric] cek_def [symmetric] c(1) by simp
  moreover have "open_aead_frame cr cz (FRAME_AEAD_BASE + f) ?st session' digest plen (word_of_nat (length ?st)) = decode_payload cz f inner"
  proof -
    have cek': "session_derive_cek cr session' ?su digest = cek" using assms(4) by (simp add: cek_def session_derive_cek_def)
    have parts: "subslice ?st 1 (1 + nonce_len ?su) = nonce" "drop (1 + nonce_len ?su) ?st = c" "\<not> length ?st < 1 + nonce_len ?su + 16"
      using assms(2) len by (simp_all add: subslice_def)
    show ?thesis
      unfolding open_aead_frame_def list.case suite_from_id_id rbind_simps parts Let_def cek' len aad_def [symmetric] c(3)
      using parts(3) len by (simp add: FRAME_AEAD_BASE_def)
  qed
  ultimately show ?thesis using len by blast
qed

lemma get_uvarint_loop_pos: "get_uvarint_loop buf pos v s = Some (w, p) \<Longrightarrow> pos < p \<and> p \<le> length buf"
proof (induction buf pos v s rule: get_uvarint_loop.induct)
  case (1 buf pos v s)
  note IH = 1(1) [OF _ refl refl] and step = 1(2) [unfolded get_uvarint_loop.simps [of buf pos]]
  show ?case
  proof (cases "pos < length buf")
    case True
    then show ?thesis using step IH [OF True] by (fastforce simp: Let_def split: if_splits)
  qed (use step in simp)
qed

lemma get_uvarint_pos: "get_uvarint buf pos = Some (w, p) \<Longrightarrow> pos < p \<and> p \<le> length buf"
  unfolding get_uvarint_def by (rule get_uvarint_loop_pos)

text \<open>Reading back the fields around the stored bytes.\<close>

definition record_image :: "bytes \<Rightarrow> u8 \<Rightarrow> u64 \<Rightarrow> bytes \<Rightarrow> bytes" where
  "record_image digest frame_id plain_len stored =
    REC_MAGIC # digest @ [frame_id] @ put_uvarint plain_len @ put_uvarint (word_of_nat (length stored)) @ stored"

lemma length_put_uvarint_shift: "unat v < 2 ^ (7 * Suc k) \<Longrightarrow> length (put_uvarint v) \<le> Suc k"
proof (induction k arbitrary: v)
  case 0
  then have "drop_bit 7 v = 0" by (simp add: word_unat_eq_iff unat_drop_bit)
  then show ?case by (subst put_uvarint.simps) (simp add: Let_def)
next
  case (Suc k)
  have "unat (drop_bit 7 v) < 2 ^ (7 * Suc k)"
    using Suc.prems by (simp add: unat_drop_bit less_mult_imp_div_less mult.commute power_add)
  from Suc.IH [OF this] show ?case by (subst put_uvarint.simps) (simp add: Let_def)
qed

lemma length_put_uvarint_le: "length (put_uvarint v) \<le> 10"
  using length_put_uvarint_shift [of v 9] unat_bound [of v] by simp

lemma decode_record_image:
  assumes "length (d_bytes digest) = 32" and "length stored < 2 ^ 40"
    and rec: "rec = record_image (d_bytes digest) frame_id plain_len stored"
  shows "decode_record hash cr cz (rec @ u32_le (crc32c rec)) digest dek algo =
    rbind (if is_aead_frame frame_id then rbind (ok_or E2eLocked dek) (\<lambda>session.
             open_aead_frame cr cz frame_id stored session digest plain_len (word_of_nat (length stored)))
           else decode_payload cz frame_id stored)
      (\<lambda>payload. if (word_of_nat (length payload) :: u64) \<noteq> plain_len then Inl CorruptObject
         else if \<not> digest_eq (digest_hash hash algo payload) digest then Inl IntegrityFailure else Inr payload)"
proof -
  let ?a = "put_uvarint plain_len" and ?b = "put_uvarint (word_of_nat (length stored))" and ?c = "u32_le (crc32c rec)"
  let ?h = "REC_MAGIC # d_bytes digest @ [frame_id]"
  let ?r = "rec @ ?c"
  have r: "?r = ?h @ ?a @ ?b @ stored @ ?c" by (simp add: rec record_image_def)
  have h: "length ?h = 34" using assms(1) by simp
  have 0: "\<not> length ?r < 34" "?r ! 0 = REC_MAGIC" "?r ! 33 = frame_id"
    using assms(1) by (simp_all add: r nth_append)
  have 1: "get_uvarint ?r 34 = Some (plain_len, 34 + length ?a)"
    using get_put_uvarint [of ?h plain_len "?b @ stored @ ?c"] h by (simp only: r)
  have 2: "get_uvarint ?r (34 + length ?a) = Some (word_of_nat (length stored), 34 + length ?a + length ?b)"
    using get_put_uvarint [of "?h @ ?a" "word_of_nat (length stored)" "stored @ ?c"] h by (simp only: r append_assoc length_append)
  define pos where "pos = 34 + length ?a + length ?b"
  have u: "unat (word_of_nat (length stored) :: u64) = length stored" using assms(2) by (simp add: unat_of_nat)
  have lr: "length rec = pos + length stored" using h by (simp add: rec record_image_def pos_def)
  have 3: "subslice ?r 0 (pos + length stored) = rec" "subslice ?r (pos + length stored) (pos + length stored + 4) = ?c"
    "\<not> length ?r < pos + length stored + 4"
    using lr by (simp_all add: subslice_def)
  have 4: "subslice ?r pos (pos + length stored) = stored"
    using subslice_append_mid [of "?h @ ?a @ ?b" stored ?c] h by (simp only: r pos_def append_assoc length_append add.assoc)
  have small: "length ?a \<le> 10" "length ?b \<le> 10" by (rule length_put_uvarint_le)+
  have 5: "\<not> pos + length stored \<ge> 2 ^ 64" "\<not> pos + length stored + 4 \<ge> 2 ^ 64" using small assms(2) by (simp_all add: pos_def)
  show ?thesis
    unfolding decode_record_def 1 2 pos_def [symmetric] ok_or_simps rbind_simps prod.case u Let_def 3(1,2) 4 0(2,3) int_bytes_roundtrip
    using 0(1) 3(3) 5 by (simp only: simp_thms if_False)
qed

lemma length_record_image: "length digest = 32 \<Longrightarrow> length (record_image digest f pl st) \<le> 54 + length st"
  using length_put_uvarint_le [of pl] length_put_uvarint_le [of "word_of_nat (length st)"] by (simp add: record_image_def)

lemma record_encodes:
  assumes "compress_correct cz" and "aead_correct cr" and "\<And>n. \<exists>b. rng n = Some b \<and> length b = n"
    and "d_bytes digest = hash algo plain" and "length (d_bytes digest) = 32" and "length plain < 2 ^ 32"
    and "map_option ds_dek sess' = map_option ds_dek sess"
  shows "\<exists>rec. encode_record cr cz rng digest plain codec sess = Inr rec \<and> decode_record hash cr cz rec digest sess' algo = Inr plain
    \<and> length rec \<le> length plain + 99"
proof -
  obtain f st where p: "encode_payload cz codec plain = (f, st)" by force
  note pr = payload_round_trip [OF assms(1) p]
  have st: "length st < 2 ^ 32" using pr(3) assms(6) by linarith
  have ok: "digest_eq (digest_hash hash algo plain) digest" using assms(4) by (simp add: digest_eq_def digest_hash_def)
  show ?thesis
  proof (cases sess)
    case None
    have small: "length st < 2 ^ 40" using st by simp
    note d = decode_record_image [OF assms(5) small refl, of hash cr cz f "word_of_nat (length plain)" sess' algo]
    have "encode_record cr cz rng digest plain codec sess = Inr (record_image (d_bytes digest) f (word_of_nat (length plain)) st
        @ u32_le (crc32c (record_image (d_bytes digest) f (word_of_nat (length plain)) st)))"
      by (simp add: encode_record_def p None record_image_def Let_def)
    with d pr ok aead_frame_ids(2) [OF pr(2)] length_record_image [OF assms(5), of f "word_of_nat (length plain)" st] show ?thesis by simp
  next
    case (Some s)
    with assms(7) obtain s' where s': "sess' = Some s'" "ds_dek s' = ds_dek s" by auto
    obtain nonce where n: "rng (nonce_len (ds_active_suite s)) = Some nonce" "length nonce = nonce_len (ds_active_suite s)"
      using assms(3) by blast
    obtain c where c: "seal_aead_frame cr f st s digest (word_of_nat (length plain)) nonce = Inr (FRAME_AEAD_BASE + f, c)"
      "length c = 1 + length nonce + length st + 16"
      "open_aead_frame cr cz (FRAME_AEAD_BASE + f) c s' digest (word_of_nat (length plain)) (word_of_nat (length c)) = decode_payload cz f st"
      using aead_round_trip [OF assms(2) n(2) st s'(2)] by blast
    have n24: "nonce_len (ds_active_suite s) \<le> 24" by (cases "ds_active_suite s") simp_all
    then have small: "length c < 2 ^ 40" using st c(2) n(2) by simp
    note d = decode_record_image [OF assms(5) small refl, of hash cr cz "FRAME_AEAD_BASE + f" "word_of_nat (length plain)" sess' algo]
    have "encode_record cr cz rng digest plain codec sess = Inr (record_image (d_bytes digest) (FRAME_AEAD_BASE + f) (word_of_nat (length plain)) c
        @ u32_le (crc32c (record_image (d_bytes digest) (FRAME_AEAD_BASE + f) (word_of_nat (length plain)) c)))"
      by (simp add: encode_record_def p Some fresh_nonce_def n(1) c(1) record_image_def Let_def)
    with d c(2,3) pr(1,3) ok aead_frame_ids(1) [OF pr(2)] s'(1) n(2) n24
      length_record_image [OF assms(5), of "FRAME_AEAD_BASE + f" "word_of_nat (length plain)" c] show ?thesis by simp
  qed
qed

text \<open>C10: An object record round-trips: whatever codec is asked for and whether or not the store is
  encrypted, encoding an object under its address succeeds and decoding the record under any session with the
  same data key, whatever its suite for new writes, returns the object.\<close>

theorem record_round_trip:
  assumes "compress_correct cz" and "aead_correct cr" and "\<And>n. \<exists>b. rng n = Some b \<and> length b = n"
    and "d_bytes digest = hash algo plain" and "length (d_bytes digest) = 32" and "length plain < 2 ^ 32"
    and "map_option ds_dek sess' = map_option ds_dek sess"
  shows "\<exists>rec. encode_record cr cz rng digest plain codec sess = Inr rec \<and> decode_record hash cr cz rec digest sess' algo = Inr plain"
  using record_encodes [where rng = rng and hash = hash and algo = algo and plain = plain, OF assms] by blast

definition toy_compressors :: Compressors where
  "toy_compressors = \<lparr>cz_deflate = \<lambda>b. 1 # b, cz_inflate = \<lambda>b. Some (tl b), cz_lz4 = \<lambda>b. b, cz_unlz4 = Some\<rparr>"

theorem record_round_trip_witness:
  "\<exists>rec. encode_record toy_crypto toy_compressors (\<lambda>n. Some (replicate n 0)) \<lparr>d_algo = Blake3, d_bytes = replicate 32 0\<rparr>
      [1, 2, 3] Deflate (Some (session_from_raw [] Aes256Gcm)) = Inr rec
    \<and> decode_record (\<lambda>_ _. replicate 32 0) toy_crypto toy_compressors rec \<lparr>d_algo = Blake3, d_bytes = replicate 32 0\<rparr>
      (Some (session_from_raw [] XChaCha20Poly1305)) Sha256 = Inr [1, 2, 3]"
  by (rule record_round_trip [OF _ toy_crypto_laws(1)]) (simp_all add: compress_correct_def toy_compressors_def session_from_raw_def)

text \<open>C11: What a record read returns is content of the requested address: the checksum of the record holds,
  the payload has the recorded length and hashes, under the algorithm of the store, to the requested digest. A
  sealed record is never opened without a session.\<close>

theorem record_read_is_addressed:
  assumes "decode_record hash cr cz rec digest dek algo = Inr payload"
  shows "hash algo payload = d_bytes digest \<and> rec ! 0 = REC_MAGIC \<and> (\<exists>n. 34 \<le> n \<and> n + 4 \<le> length rec \<and> crc_holds n rec)
    \<and> (is_aead_frame (rec ! 33) \<longrightarrow> dek \<noteq> None)"
proof -
  obtain plain_len p1 stored_len pos where g: "get_uvarint rec 34 = Some (plain_len, p1)" "get_uvarint rec p1 = Some (stored_len, pos)"
    and body: "length rec \<ge> pos + unat stored_len + 4" "crc_holds (pos + unat stored_len) rec" "rec ! 0 = REC_MAGIC"
      "hash algo payload = d_bytes digest" "is_aead_frame (rec ! 33) \<longrightarrow> dek \<noteq> None"
    using assms by (auto simp: decode_record_def result_simps Let_def crc_holds_def digest_eq_def digest_hash_def split: if_splits prod.splits)
  have "34 \<le> p1" "p1 \<le> pos" using g by (auto dest: get_uvarint_pos)
  with body show ?thesis by (intro conjI exI [of _ "pos + unat stored_len"]) auto
qed

theorem record_read_is_addressed_witness:
  "decode_record (\<lambda>_ _. replicate 32 0) toy_crypto toy_compressors
     (let r = REC_MAGIC # replicate 32 0 @ [0, 1, 1, 7] in r @ u32_le (crc32c r)) \<lparr>d_algo = Blake3, d_bytes = replicate 32 0\<rparr> None Sha256
    = Inr [7] \<and> (\<exists>n. 34 \<le> n \<and> crc_holds n (let r = REC_MAGIC # replicate 32 0 @ [0, 1, 1, 7] in r @ u32_le (crc32c r)))"
proof -
  let ?d = "\<lparr>d_algo = Blake3, d_bytes = replicate 32 0\<rparr>"
  let ?r = "REC_MAGIC # replicate 32 0 @ [0, 1, 1, 7]"
  have v: "put_uvarint 1 = [1]" by (subst put_uvarint.simps) simp
  have r: "record_image (d_bytes ?d) 0 1 [7] = ?r" by (simp add: record_image_def v)
  have "decode_record (\<lambda>_ _. replicate 32 0) toy_crypto toy_compressors (?r @ u32_le (crc32c ?r)) ?d None Sha256 = Inr [7]"
    using decode_record_image [of ?d "[7]" ?r 0 1 "\<lambda>_ _. replicate 32 0" toy_crypto toy_compressors None Sha256] r
    by (simp add: is_aead_frame_def in_range_def frame_ids decode_payload_def digest_eq_def digest_hash_def)
  with record_read_is_addressed [OF this] show ?thesis by (auto simp: Let_def)
qed

end
