(* ===== verification/Loom_Page.thy ===== *)
theory Loom_Page
  imports Loom_Recovery
begin

text \<open>
  The root pages of the store, \<^verbatim>\<open>crates/loom-store/src/page.rs\<close>: the canonical region table, the reserve of
  metadata pages it carries, the catalog of root families with its registry, and the older region-table
  layouts that are still read. Both codecs refuse every byte string that is not the encoding of what they
  return.
\<close>

section \<open>Errors and the metadata reserve\<close>

datatype RootCodecError =
    WrongLength nat nat
  | BadMagic
  | BadVersion
  | BadLayoutLength
  | BadPageSize
  | CrcMismatch
  | NonZeroReserved
  | BadRootSlot
  | AbsentEntryRoot
  | PresentZeroPageId
  | EntryCountTooLarge
  | BadEntrySize
  | BadCatalogFlags
  | DuplicateOrUnsortedFamily
  | BadFamilyFlags
  | KnownFamilyFlagMismatch
  | DirectRegionTableFamilyInCatalog
  | UnknownAuthoritativeFamily
  | PageIdOutOfBounds u64 u64
  | LegacyOverlayRoot
  | BadMetadataBootstrapCapacity
  | BadMetadataBootstrapExtentCount
  | BadMetadataBootstrapExtent
  | MetadataBootstrapGenerationMismatch u64 u64
  | RecoveryGenerationFloorBeyondCommit u64 u64

type_synonym 'a root_res = "RootCodecError + 'a"

definition CANONICAL_REGION_TABLE_LEN :: nat where "CANONICAL_REGION_TABLE_LEN = 4096"
definition ROOT_CATALOG_LEN :: nat where "ROOT_CATALOG_LEN = 4096"
definition ROOT_CATALOG_ENTRY_SIZE :: nat where "ROOT_CATALOG_ENTRY_SIZE = 32"
definition ROOT_CATALOG_MAX_ENTRIES :: nat where
  "ROOT_CATALOG_MAX_ENTRIES = (ROOT_CATALOG_LEN - 32 - 4) div ROOT_CATALOG_ENTRY_SIZE"
definition CANONICAL_REGION_TABLE_MAGIC :: bytes where "CANONICAL_REGION_TABLE_MAGIC = [0x4C, 0x52, 0x54, 0x35]"
definition METADATA_BOOTSTRAP_HEADER_END :: nat where "METADATA_BOOTSTRAP_HEADER_END = 96"
definition METADATA_BOOTSTRAP_EXTENT_SIZE :: nat where "METADATA_BOOTSTRAP_EXTENT_SIZE = 16"
definition MINIMUM_RECOVERABLE_GENERATION_AT :: nat where
  "MINIMUM_RECOVERABLE_GENERATION_AT = CANONICAL_REGION_TABLE_LEN - 12"
definition METADATA_BOOTSTRAP_MAX_EXTENTS :: nat where
  "METADATA_BOOTSTRAP_MAX_EXTENTS =
     (MINIMUM_RECOVERABLE_GENERATION_AT - METADATA_BOOTSTRAP_HEADER_END) div METADATA_BOOTSTRAP_EXTENT_SIZE"
definition ROOT_CATALOG_MAGIC :: bytes where "ROOT_CATALOG_MAGIC = [0x4C, 0x52, 0x4F, 0x4F, 0x54, 0x43, 0x31, 0x00]"
definition ROOT_FLAG_AUTHORITATIVE :: u16 where "ROOT_FLAG_AUTHORITATIVE = 0x0001"
definition ROOT_FLAG_ADVISORY :: u16 where "ROOT_FLAG_ADVISORY = 0x0002"

lemmas root_layout = CANONICAL_REGION_TABLE_LEN_def ROOT_CATALOG_LEN_def ROOT_CATALOG_ENTRY_SIZE_def ROOT_CATALOG_MAX_ENTRIES_def
  METADATA_BOOTSTRAP_HEADER_END_def METADATA_BOOTSTRAP_EXTENT_SIZE_def MINIMUM_RECOVERABLE_GENERATION_AT_def
  METADATA_BOOTSTRAP_MAX_EXTENTS_def

record MetadataBootstrapExtent =
  be_start :: u64
  be_len :: u64

record MetadataBootstrapReserve =
  br_owning_generation :: u64
  br_capacity :: u64
  br_extents :: "MetadataBootstrapExtent list"

definition reserve_default :: MetadataBootstrapReserve where
  "reserve_default = \<lparr>br_owning_generation = 0, br_capacity = 0, br_extents = []\<rparr>"

definition reserve_page_count :: "MetadataBootstrapReserve \<Rightarrow> u64" where
  "reserve_page_count r = fold (\<lambda>e tot. saturating_add tot (be_len e)) (br_extents r) 0"

fun validate_extents :: "u64 \<Rightarrow> u64 option \<Rightarrow> MetadataBootstrapExtent list \<Rightarrow> unit root_res" where
  "validate_extents page_count previous_end [] = Inr ()"
| "validate_extents page_count previous_end (e # es) =
    rbind (ok_or BadMetadataBootstrapExtent (checked_add (be_start e) (be_len e))) (\<lambda>fin.
      if be_len e = 0 \<or> fin > page_count then Inl BadMetadataBootstrapExtent
      else if (case previous_end of None \<Rightarrow> False | Some prior \<Rightarrow> be_start e \<le> prior) then Inl BadMetadataBootstrapExtent
      else validate_extents page_count (Some fin) es)"

definition reserve_validate :: "MetadataBootstrapReserve \<Rightarrow> u64 \<Rightarrow> unit root_res" where
  "reserve_validate r page_count =
    (if br_capacity r = 0 \<or> reserve_page_count r > br_capacity r then Inl BadMetadataBootstrapCapacity
     else if length (br_extents r) > METADATA_BOOTSTRAP_MAX_EXTENTS then Inl BadMetadataBootstrapExtentCount
     else validate_extents page_count None (br_extents r))"

definition reserve_contains_page :: "MetadataBootstrapReserve \<Rightarrow> u64 \<Rightarrow> bool" where
  "reserve_contains_page r page =
    list_ex (\<lambda>e. be_start e \<le> page \<and> page < saturating_add (be_start e) (be_len e)) (br_extents r)"

section \<open>Root families\<close>

datatype RootFamilyLocation = DirectRegionTable | RootCatalogLocation
datatype RootFamilyRole = CurrentState | RetainedControl | RebuildableAdvisory
datatype RootFamilyOpenHydration = DirectCurrent | RootOnly | NoHydration
datatype RootFamilyAbsence = EmptyFamily | OptionalAdvisory
datatype RootFamilyReachability = SemanticRoot | ControlRoot | PhysicalSafetyRoot | AdvisoryPreserveOnly
datatype ValueCodecKind = VRecordLoc | VPackedRecordRef | VFreePageExtent

record RootFamilyDescriptor =
  fd_family_id :: u16
  fd_name :: string
  fd_location :: RootFamilyLocation
  fd_flags :: u16
  fd_role :: RootFamilyRole
  fd_open_hydration :: RootFamilyOpenHydration
  fd_absence :: RootFamilyAbsence
  fd_gc_reachability :: RootFamilyReachability
  fd_value_codec :: ValueCodecKind

definition retained_family :: "u16 \<Rightarrow> string \<Rightarrow> RootFamilyReachability \<Rightarrow> ValueCodecKind \<Rightarrow> RootFamilyDescriptor" where
  "retained_family family_id name reach codec =
    \<lparr>fd_family_id = family_id, fd_name = name, fd_location = RootCatalogLocation, fd_flags = ROOT_FLAG_AUTHORITATIVE,
     fd_role = RetainedControl, fd_open_hydration = RootOnly, fd_absence = EmptyFamily,
     fd_gc_reachability = reach, fd_value_codec = codec\<rparr>"

definition ROOT_FAMILY_REGISTRY :: "RootFamilyDescriptor list" where
  "ROOT_FAMILY_REGISTRY =
    [\<lparr>fd_family_id = 0x0001, fd_name = ''current_records'', fd_location = DirectRegionTable,
      fd_flags = ROOT_FLAG_AUTHORITATIVE, fd_role = CurrentState, fd_open_hydration = DirectCurrent,
      fd_absence = EmptyFamily, fd_gc_reachability = SemanticRoot, fd_value_codec = VRecordLoc\<rparr>,
     retained_family 0x0100 ''retained_history'' SemanticRoot VPackedRecordRef,
     retained_family 0x0110 ''owner_tokens'' ControlRoot VPackedRecordRef,
     retained_family 0x0120 ''secondary_indexes'' ControlRoot VPackedRecordRef,
     retained_family 0x0130 ''mutable_idempotency'' ControlRoot VRecordLoc,
     retained_family 0x0131 ''workflow_idempotency'' ControlRoot VPackedRecordRef,
     retained_family 0x0140 ''audit_retention'' SemanticRoot VRecordLoc,
     retained_family 0x0200 ''mvcc_generations'' ControlRoot VRecordLoc,
     retained_family 0x0210 ''retention_index'' SemanticRoot VRecordLoc,
     retained_family 0x0220 ''checkpoint_index'' SemanticRoot VRecordLoc,
     retained_family 0x0230 ''reclaim_index'' PhysicalSafetyRoot VRecordLoc,
     \<lparr>fd_family_id = 0x0300, fd_name = ''delta_pack_candidates'', fd_location = RootCatalogLocation,
      fd_flags = ROOT_FLAG_ADVISORY, fd_role = RebuildableAdvisory, fd_open_hydration = NoHydration,
      fd_absence = OptionalAdvisory, fd_gc_reachability = AdvisoryPreserveOnly, fd_value_codec = VRecordLoc\<rparr>]"

definition root_family_descriptor :: "u16 \<Rightarrow> RootFamilyDescriptor option" where
  "root_family_descriptor family_id = find (\<lambda>d. fd_family_id d = family_id) ROOT_FAMILY_REGISTRY"

section \<open>Root slots\<close>

definition page_offset :: "PageId \<Rightarrow> u64 \<Rightarrow> u64" where
  "page_offset page header_len = header_len + page * PAGE_SIZE"

definition encode_root_slot :: "bytes \<Rightarrow> nat \<Rightarrow> PageId option \<Rightarrow> bytes" where
  "encode_root_slot out p root = put_opt out p (map_option u64_le root)"

definition decode_root_slot :: "bytes \<Rightarrow> bool \<Rightarrow> bool \<Rightarrow> PageId option root_res" where
  "decode_root_slot buf allow_absent reject_zero =
    (case buf of
       [] \<Rightarrow> Inl BadRootSlot
     | flag # _ \<Rightarrow>
       if flag = 0 \<and> allow_absent then
         (if length buf < 9 then Inl BadRootSlot
          else if subslice buf 1 9 = replicate 8 0 then Inr None else Inl BadRootSlot)
       else if flag = 0 then Inl AbsentEntryRoot
       else if flag = 1 then
         (if length buf < 9 then Inl BadRootSlot
          else let page = u64_from_le (subslice buf 1 9)
            in if reject_zero \<and> page = 0 then Inl PresentZeroPageId else Inr (Some page))
       else Inl BadRootSlot)"

definition validate_page_id_bounds :: "PageId option \<Rightarrow> u64 \<Rightarrow> unit root_res" where
  "validate_page_id_bounds root page_count =
    (case root of None \<Rightarrow> Inr ()
     | Some page \<Rightarrow> if page_count \<le> page then Inl (PageIdOutOfBounds page page_count) else Inr ())"

section \<open>The canonical region table\<close>

record CanonicalRegionTable =
  rt_index_root :: "PageId option"
  rt_freemap_root :: "PageId option"
  rt_maintenance_root :: "PageId option"
  rt_current_record_root :: "PageId option"
  rt_root_catalog_root :: "PageId option"
  rt_open_segment :: u64
  rt_overlay_generation_floor :: u64
  rt_minimum_recoverable_generation :: u64
  rt_reserve :: MetadataBootstrapReserve

definition region_roots :: "CanonicalRegionTable \<Rightarrow> PageId option list" where
  "region_roots t = [rt_index_root t, rt_freemap_root t, rt_maintenance_root t, rt_current_record_root t, rt_root_catalog_root t]"

definition region_validate_root_bounds :: "CanonicalRegionTable \<Rightarrow> u64 \<Rightarrow> unit root_res" where
  "region_validate_root_bounds t page_count =
    rbind (rmap (\<lambda>root. validate_page_id_bounds root page_count) (region_roots t)) (\<lambda>_.
      reserve_validate (rt_reserve t) page_count)"

fun put_root_slots :: "bytes \<Rightarrow> nat \<Rightarrow> PageId option list \<Rightarrow> bytes" where
  "put_root_slots out p [] = out"
| "put_root_slots out p (r # rs) = put_root_slots (encode_root_slot out p r) (p + 9) rs"

fun put_extents :: "bytes \<Rightarrow> nat \<Rightarrow> MetadataBootstrapExtent list \<Rightarrow> bytes" where
  "put_extents out pos [] = out"
| "put_extents out pos (e # es) =
    put_extents (put_at (put_at out pos (u64_le (be_start e))) (pos + 8) (u64_le (be_len e)))
      (pos + METADATA_BOOTSTRAP_EXTENT_SIZE) es"

definition region_encode :: "CanonicalRegionTable \<Rightarrow> u64 \<Rightarrow> bytes root_res" where
  "region_encode t page_count =
    rbind (region_validate_root_bounds t page_count) (\<lambda>_.
      let r0 = put_at (replicate CANONICAL_REGION_TABLE_LEN 0) 0 CANONICAL_REGION_TABLE_MAGIC;
          r1 = put_at r0 4 (u16_le 5);
          r2 = put_at r1 6 (u16_le (ucast PAGE_SIZE));
          r3 = put_at r2 8 (u64_le PAGE_SIZE);
          r4 = put_root_slots r3 16 (region_roots t);
          r5 = put_at r4 61 (u64_le (rt_open_segment t));
          r6 = put_at r5 69 (u64_le (rt_overlay_generation_floor t));
          r7 = put_at r6 77 (u64_le (br_capacity (rt_reserve t)));
          r8 = put_at r7 85 (u64_le (br_owning_generation (rt_reserve t)))
      in if length (br_extents (rt_reserve t)) \<ge> 2 ^ 16 then Inl BadMetadataBootstrapExtentCount
         else let r9 = put_at r8 93 (u16_le (word_of_nat (length (br_extents (rt_reserve t)))));
                  r10 = put_extents r9 METADATA_BOOTSTRAP_HEADER_END (br_extents (rt_reserve t));
                  r11 = put_at r10 MINIMUM_RECOVERABLE_GENERATION_AT (u64_le (rt_minimum_recoverable_generation t))
           in Inr (put_at r11 (CANONICAL_REGION_TABLE_LEN - 4)
                (u32_le (crc32c (subslice r11 0 (CANONICAL_REGION_TABLE_LEN - 4))))))"

fun get_root_slots :: "bytes \<Rightarrow> nat \<Rightarrow> nat \<Rightarrow> PageId option list root_res" where
  "get_root_slots buf p 0 = Inr []"
| "get_root_slots buf p (Suc n) =
    rbind (decode_root_slot (subslice buf p (p + 9)) True False) (\<lambda>r.
    rbind (get_root_slots buf (p + 9) n) (\<lambda>rs. Inr (r # rs)))"

fun get_extents :: "bytes \<Rightarrow> nat \<Rightarrow> nat \<Rightarrow> MetadataBootstrapExtent list" where
  "get_extents buf pos 0 = []"
| "get_extents buf pos (Suc n) =
    \<lparr>be_start = u64_from_le (subslice buf pos (pos + 8)), be_len = u64_from_le (subslice buf (pos + 8) (pos + 16))\<rparr>
      # get_extents buf (pos + METADATA_BOOTSTRAP_EXTENT_SIZE) n"

definition all_zero :: "bytes \<Rightarrow> bool" where
  "all_zero b = list_all (\<lambda>x. x = 0) b"

definition region_decode :: "bytes \<Rightarrow> CanonicalRegionTable root_res" where
  "region_decode buf =
    (if length buf \<noteq> CANONICAL_REGION_TABLE_LEN then Inl (WrongLength CANONICAL_REGION_TABLE_LEN (length buf))
     else if subslice buf 0 4 \<noteq> CANONICAL_REGION_TABLE_MAGIC then Inl BadMagic
     else if u16_from_le (subslice buf 4 6) \<noteq> 5 then Inl BadVersion
     else if u16_from_le (subslice buf 6 8) \<noteq> ucast PAGE_SIZE then Inl BadLayoutLength
     else if u64_from_le (subslice buf 8 16) \<noteq> PAGE_SIZE then Inl BadPageSize
     else if crc32c (subslice buf 0 (CANONICAL_REGION_TABLE_LEN - 4))
             \<noteq> u32_from_le (subslice buf (CANONICAL_REGION_TABLE_LEN - 4) CANONICAL_REGION_TABLE_LEN) then Inl CrcMismatch
     else let extent_count = unat (u16_from_le (subslice buf 93 95))
       in if extent_count > METADATA_BOOTSTRAP_MAX_EXTENTS then Inl BadMetadataBootstrapExtentCount
          else if buf ! 95 \<noteq> 0 \<or> \<not> all_zero (subslice buf
                (METADATA_BOOTSTRAP_HEADER_END + extent_count * METADATA_BOOTSTRAP_EXTENT_SIZE) MINIMUM_RECOVERABLE_GENERATION_AT)
          then Inl NonZeroReserved
          else rbind (get_root_slots buf 16 5) (\<lambda>roots. Inr
            \<lparr>rt_index_root = roots ! 0, rt_freemap_root = roots ! 1, rt_maintenance_root = roots ! 2,
             rt_current_record_root = roots ! 3, rt_root_catalog_root = roots ! 4,
             rt_open_segment = u64_from_le (subslice buf 61 69),
             rt_overlay_generation_floor = u64_from_le (subslice buf 69 77),
             rt_minimum_recoverable_generation =
               u64_from_le (subslice buf MINIMUM_RECOVERABLE_GENERATION_AT (MINIMUM_RECOVERABLE_GENERATION_AT + 8)),
             rt_reserve = \<lparr>br_owning_generation = u64_from_le (subslice buf 85 93),
               br_capacity = u64_from_le (subslice buf 77 85),
               br_extents = get_extents buf METADATA_BOOTSTRAP_HEADER_END extent_count\<rparr>\<rparr>))"

definition region_validate_recovered_generation :: "CanonicalRegionTable \<Rightarrow> u64 \<Rightarrow> u64 \<Rightarrow> unit root_res" where
  "region_validate_recovered_generation t page_count expected_generation =
    rbind (region_validate_root_bounds t page_count) (\<lambda>_.
      if rt_minimum_recoverable_generation t > expected_generation
      then Inl (RecoveryGenerationFloorBeyondCommit (rt_minimum_recoverable_generation t) expected_generation)
      else if br_owning_generation (rt_reserve t) \<noteq> expected_generation
      then Inl (MetadataBootstrapGenerationMismatch expected_generation (br_owning_generation (rt_reserve t)))
      else Inr ())"

section \<open>The root catalog\<close>

record RootCatalogEntry =
  ce_family_id :: u16
  ce_flags :: u16
  ce_root :: PageId

definition catalog_authoritative :: "u16 \<Rightarrow> PageId \<Rightarrow> RootCatalogEntry" where
  "catalog_authoritative family_id root = \<lparr>ce_family_id = family_id, ce_flags = ROOT_FLAG_AUTHORITATIVE, ce_root = root\<rparr>"

definition catalog_advisory :: "u16 \<Rightarrow> PageId \<Rightarrow> RootCatalogEntry" where
  "catalog_advisory family_id root = \<lparr>ce_family_id = family_id, ce_flags = ROOT_FLAG_ADVISORY, ce_root = root\<rparr>"

type_synonym RootCatalog = "RootCatalogEntry list"

definition validate_entry :: "u16 option \<Rightarrow> RootCatalogEntry \<Rightarrow> unit root_res" where
  "validate_entry previous e =
    (if (case previous of None \<Rightarrow> False | Some family_id \<Rightarrow> ce_family_id e \<le> family_id) then Inl DuplicateOrUnsortedFamily
     else if ce_flags e \<noteq> ROOT_FLAG_AUTHORITATIVE \<and> ce_flags e \<noteq> ROOT_FLAG_ADVISORY then Inl BadFamilyFlags
     else if ce_root e = 0 then Inl PresentZeroPageId
     else case root_family_descriptor (ce_family_id e) of
       Some d \<Rightarrow>
         if fd_location d \<noteq> RootCatalogLocation then Inl DirectRegionTableFamilyInCatalog
         else if fd_flags d \<noteq> ce_flags e then Inl KnownFamilyFlagMismatch
         else Inr ()
     | None \<Rightarrow> if ce_flags e = ROOT_FLAG_AUTHORITATIVE then Inl UnknownAuthoritativeFamily else Inr ())"

fun validate_entries_from :: "u16 option \<Rightarrow> RootCatalog \<Rightarrow> unit root_res" where
  "validate_entries_from previous [] = Inr ()"
| "validate_entries_from previous (e # es) =
    rbind (validate_entry previous e) (\<lambda>_. validate_entries_from (Some (ce_family_id e)) es)"

definition validate_root_catalog_entries :: "RootCatalog \<Rightarrow> unit root_res" where
  "validate_root_catalog_entries entries = validate_entries_from None entries"

fun put_catalog_entries :: "bytes \<Rightarrow> nat \<Rightarrow> RootCatalog \<Rightarrow> bytes" where
  "put_catalog_entries out p [] = out"
| "put_catalog_entries out p (e # es) =
    put_catalog_entries
      (encode_root_slot (put_at (put_at out p (u16_le (ce_family_id e))) (p + 2) (u16_le (ce_flags e))) (p + 4) (Some (ce_root e)))
      (p + ROOT_CATALOG_ENTRY_SIZE) es"

definition catalog_encode :: "RootCatalog \<Rightarrow> bytes root_res" where
  "catalog_encode entries =
    (if length entries > ROOT_CATALOG_MAX_ENTRIES then Inl EntryCountTooLarge
     else rbind (validate_root_catalog_entries entries) (\<lambda>_.
       let o0 = put_at (replicate ROOT_CATALOG_LEN 0) 0 ROOT_CATALOG_MAGIC;
           o1 = put_at o0 8 (u16_le 1);
           o2 = put_at o1 10 (u16_le (word_of_nat ROOT_CATALOG_ENTRY_SIZE));
           o3 = put_at o2 12 (u16_le (word_of_nat (length entries)));
           o4 = put_catalog_entries o3 32 entries
       in Inr (put_at o4 (ROOT_CATALOG_LEN - 4) (u32_le (crc32c (subslice o4 0 (ROOT_CATALOG_LEN - 4)))))))"

definition decode_catalog_entry :: "bytes \<Rightarrow> RootCatalogEntry root_res" where
  "decode_catalog_entry chunk =
    (if \<not> all_zero (subslice chunk 13 ROOT_CATALOG_ENTRY_SIZE) then Inl NonZeroReserved
     else rbind (rbind (decode_root_slot (subslice chunk 4 13) False True) (ok_or BadRootSlot)) (\<lambda>root.
       Inr \<lparr>ce_family_id = u16_from_le (subslice chunk 0 2), ce_flags = u16_from_le (subslice chunk 2 4), ce_root = root\<rparr>))"

fun get_catalog_entries :: "bytes \<Rightarrow> nat \<Rightarrow> nat \<Rightarrow> RootCatalog root_res" where
  "get_catalog_entries buf p 0 = Inr []"
| "get_catalog_entries buf p (Suc n) =
    rbind (decode_catalog_entry (subslice buf p (p + ROOT_CATALOG_ENTRY_SIZE))) (\<lambda>e.
    rbind (get_catalog_entries buf (p + ROOT_CATALOG_ENTRY_SIZE) n) (\<lambda>es. Inr (e # es)))"

definition catalog_decode :: "bytes \<Rightarrow> RootCatalog root_res" where
  "catalog_decode buf =
    (if length buf \<noteq> ROOT_CATALOG_LEN then Inl (WrongLength ROOT_CATALOG_LEN (length buf))
     else if subslice buf 0 8 \<noteq> ROOT_CATALOG_MAGIC then Inl BadMagic
     else if u16_from_le (subslice buf 8 10) \<noteq> 1 then Inl BadVersion
     else if unat (u16_from_le (subslice buf 10 12)) \<noteq> ROOT_CATALOG_ENTRY_SIZE then Inl BadEntrySize
     else let count = unat (u16_from_le (subslice buf 12 14))
       in if u16_from_le (subslice buf 14 16) \<noteq> 0 then Inl BadCatalogFlags
          else if \<not> all_zero (subslice buf 16 32) then Inl NonZeroReserved
          else if count > ROOT_CATALOG_MAX_ENTRIES then Inl EntryCountTooLarge
          else if \<not> all_zero (subslice buf (32 + count * ROOT_CATALOG_ENTRY_SIZE) (ROOT_CATALOG_LEN - 4)) then Inl NonZeroReserved
          else if crc32c (subslice buf 0 (ROOT_CATALOG_LEN - 4))
                  \<noteq> u32_from_le (subslice buf (ROOT_CATALOG_LEN - 4) ROOT_CATALOG_LEN) then Inl CrcMismatch
          else rbind (get_catalog_entries buf 32 count) (\<lambda>entries.
               rbind (validate_root_catalog_entries entries) (\<lambda>_. Inr entries)))"

definition catalog_validate_root_bounds :: "RootCatalog \<Rightarrow> u64 \<Rightarrow> unit root_res" where
  "catalog_validate_root_bounds entries page_count =
    rbind (rmap (\<lambda>e. validate_page_id_bounds (Some (ce_root e)) page_count) entries) (\<lambda>_. Inr ())"

section \<open>Region tables of older layouts\<close>

definition REGION_TABLE_MAGIC_V2 :: u8 where "REGION_TABLE_MAGIC_V2 = 0xB6"
definition REGION_TABLE_MAGIC_V3 :: u8 where "REGION_TABLE_MAGIC_V3 = 0xB8"
definition REGION_TABLE_LEN :: nat where "REGION_TABLE_LEN = 1 + 8 + 4 * 9 + 8 + 4"
definition LEGACY_REGION_TABLE_LEN :: nat where "LEGACY_REGION_TABLE_LEN = 1 + 8 + 3 * 9 + 8 + 4"

record RegionTable =
  rg_page_size :: u64
  rg_index_root :: "PageId option"
  rg_freemap_root :: "PageId option"
  rg_maintenance_root :: "PageId option"
  rg_overlay_root :: "PageId option"
  rg_current_record_root :: "PageId option"
  rg_root_catalog_root :: "PageId option"
  rg_open_segment :: u64
  rg_overlay_generation_floor :: u64
  rg_minimum_recoverable_generation :: u64
  rg_reserve :: MetadataBootstrapReserve

definition from_canonical :: "CanonicalRegionTable \<Rightarrow> RegionTable" where
  "from_canonical c = \<lparr>rg_page_size = PAGE_SIZE, rg_index_root = rt_index_root c, rg_freemap_root = rt_freemap_root c,
     rg_maintenance_root = rt_maintenance_root c, rg_overlay_root = None, rg_current_record_root = rt_current_record_root c,
     rg_root_catalog_root = rt_root_catalog_root c, rg_open_segment = rt_open_segment c,
     rg_overlay_generation_floor = rt_overlay_generation_floor c,
     rg_minimum_recoverable_generation = rt_minimum_recoverable_generation c, rg_reserve = rt_reserve c\<rparr>"

definition region_encode_page :: "RegionTable \<Rightarrow> u64 \<Rightarrow> bytes root_res" where
  "region_encode_page r page_count =
    (if rg_overlay_root r \<noteq> None then Inl LegacyOverlayRoot
     else region_encode \<lparr>rt_index_root = rg_index_root r, rt_freemap_root = rg_freemap_root r,
       rt_maintenance_root = rg_maintenance_root r, rt_current_record_root = rg_current_record_root r,
       rt_root_catalog_root = rg_root_catalog_root r, rt_open_segment = rg_open_segment r,
       rt_overlay_generation_floor = rg_overlay_generation_floor r,
       rt_minimum_recoverable_generation = rg_minimum_recoverable_generation r, rt_reserve = rg_reserve r\<rparr> page_count)"

fun legacy_roots :: "bytes \<Rightarrow> nat \<Rightarrow> nat \<Rightarrow> PageId option list option" where
  "legacy_roots buf p 0 = Some []"
| "legacy_roots buf p (Suc n) =
    (case (if buf ! p = 0 then Some None else if buf ! p = 1 then Some (Some (u64_from_le (subslice buf (p + 1) (p + 9)))) else None)
     of None \<Rightarrow> None
     | Some r \<Rightarrow> map_option (Cons r) (legacy_roots buf (p + 9) n))"

definition region_table_decode :: "bytes \<Rightarrow> RegionTable option" where
  "region_table_decode buf =
    (if 4 \<le> length buf \<and> subslice buf 0 4 = CANONICAL_REGION_TABLE_MAGIC then
       (if length buf < CANONICAL_REGION_TABLE_LEN then None
        else case region_decode (take CANONICAL_REGION_TABLE_LEN buf) of
          Inl _ \<Rightarrow> None | Inr c \<Rightarrow> Some (from_canonical c))
     else case buf of
       [] \<Rightarrow> None
     | magic # _ \<Rightarrow>
       if magic \<noteq> REGION_TABLE_MAGIC_V3 \<and> magic \<noteq> REGION_TABLE_MAGIC_V2 then None
       else let encoded_len = (if magic = REGION_TABLE_MAGIC_V3 then REGION_TABLE_LEN else LEGACY_REGION_TABLE_LEN);
                root_count = (if magic = REGION_TABLE_MAGIC_V3 then 4 else 3)
         in if length buf < encoded_len then None
            else if crc32c (subslice buf 0 (encoded_len - 4)) \<noteq> u32_from_le (subslice buf (encoded_len - 4) encoded_len) then None
            else case legacy_roots buf 9 root_count of
              None \<Rightarrow> None
            | Some roots0 \<Rightarrow>
              let roots = roots0 @ replicate (4 - root_count) None; p = 9 + 9 * root_count
              in Some \<lparr>rg_page_size = u64_from_le (subslice buf 1 9), rg_index_root = roots ! 0, rg_freemap_root = roots ! 1,
                   rg_maintenance_root = roots ! 2, rg_overlay_root = roots ! 3, rg_current_record_root = None,
                   rg_root_catalog_root = None, rg_open_segment = u64_from_le (subslice buf p (p + 8)),
                   rg_overlay_generation_floor = 0, rg_minimum_recoverable_generation = 0, rg_reserve = reserve_default\<rparr>)"

section \<open>Images\<close>

text \<open>Each codec writes into a zeroed page and reads from fixed offsets; both are related to the concatenation of
  the fields.\<close>

definition slot_image :: "PageId option \<Rightarrow> bytes" where
  "slot_image r = opt_image 8 (map_option u64_le r)"

definition extent_image :: "MetadataBootstrapExtent \<Rightarrow> bytes" where
  "extent_image e = u64_le (be_start e) @ u64_le (be_len e)"

lemma slot_image_simps: "slot_image None = 0 # replicate 8 0" "slot_image (Some page) = 1 # u64_le page"
  by (simp_all only: slot_image_def opt_image_def option.map option.case replicate_Suc)

lemma length_slot_image [simp]: "length (slot_image r) = 9"
  unfolding slot_image_def by (subst length_opt_image) (auto simp: opt_len_def split: option.splits)

lemma length_extent_image [simp]: "length (extent_image e) = 16"
  by (simp add: extent_image_def)

lemma length_concat_const: "(\<And>x. length (f x) = k) \<Longrightarrow> length (concat (map f xs)) = k * length xs"
  by (induction xs) auto

lemma encode_root_slot_image:
  "off = length p \<Longrightarrow> 9 \<le> k \<Longrightarrow> encode_root_slot (p @ replicate k 0) off r = (p @ slot_image r) @ replicate (k - 9) 0"
  unfolding encode_root_slot_def slot_image_def by (subst put_opt_next [where n = 8]) (auto simp: opt_len_def split: option.splits)

lemma put_root_slots_image:
  "off = length p \<Longrightarrow> 9 * length rs \<le> k \<Longrightarrow>
    put_root_slots (p @ replicate k 0) off rs = (p @ concat (map slot_image rs)) @ replicate (k - 9 * length rs) 0"
proof (induction rs arbitrary: p off k)
  case (Cons r rs)
  from Cons.prems Cons.IH [of "off + 9" "p @ slot_image r" "k - 9"] show ?case
    by (simp add: encode_root_slot_image)
qed simp

lemma put_extents_image:
  "off = length p \<Longrightarrow> 16 * length es \<le> k \<Longrightarrow>
    put_extents (p @ replicate k 0) off es = (p @ concat (map extent_image es)) @ replicate (k - 16 * length es) 0"
proof (induction es arbitrary: p off k)
  case (Cons e es)
  have "put_at (put_at (p @ replicate k 0) off (u64_le (be_start e))) (off + 8) (u64_le (be_len e)) = (p @ extent_image e) @ replicate (k - 16) 0"
    using Cons.prems put_at_next [of off p "u64_le (be_start e)" k] put_at_next [of "off + 8" "p @ u64_le (be_start e)" "u64_le (be_len e)" "k - 8"]
    by (simp add: extent_image_def)
  with Cons.prems Cons.IH [of "off + 16" "p @ extent_image e" "k - 16"] show ?case
    by (simp add: METADATA_BOOTSTRAP_EXTENT_SIZE_def)
qed simp

lemma decode_slot_image: "decode_root_slot (slot_image r) True False = Inr r"
  by (cases r) (simp_all add: slot_image_simps decode_root_slot_def subslice_def Let_def)

lemma slot_image_decode:
  assumes "decode_root_slot c True rz = Inr r" and "length c = 9"
  shows "slot_image r = c"
proof -
  obtain f rest where c: "c = f # rest" using assms(2) by (cases c) auto
  then have s: "subslice c 1 9 = rest" using assms(2) by (simp add: subslice_def)
  have l: "length rest = 8" using assms(2) c by simp
  consider "f = 0" "r = None" "rest = replicate 8 0" | "f = 1" "r = Some (u64_from_le rest)"
    using assms s c l by (auto simp: decode_root_slot_def Let_def split: if_splits)
  then show ?thesis
  proof cases
    case 1
    then show ?thesis by (simp add: slot_image_simps c)
  next
    case 2
    then show ?thesis by (simp add: slot_image_simps c u64_le_from_le l)
  qed
qed

lemma get_root_slots_image:
  "off = length p \<Longrightarrow> get_root_slots (p @ concat (map slot_image rs) @ q) off (length rs) = Inr rs"
proof (induction rs arbitrary: p off)
  case (Cons r rs)
  have "subslice (p @ slot_image r @ concat (map slot_image rs) @ q) off (off + 9) = slot_image r"
    using Cons.prems subslice_append_mid [of p "slot_image r" "concat (map slot_image rs) @ q"] by simp
  with Cons.IH [of "off + 9" "p @ slot_image r"] Cons.prems show ?case by (simp add: decode_slot_image)
qed simp

lemma image_get_root_slots:
  "get_root_slots b off n = Inr rs \<Longrightarrow> off + 9 * n \<le> length b \<Longrightarrow>
    length rs = n \<and> concat (map slot_image rs) = subslice b off (off + 9 * n)"
proof (induction n arbitrary: off rs)
  case 0
  then show ?case by (simp add: subslice_def)
next
  case (Suc n)
  then obtain r rs' where r: "decode_root_slot (subslice b off (off + 9)) True False = Inr r" "get_root_slots b (off + 9) n = Inr rs'" "rs = r # rs'"
    by (auto simp: result_simps)
  have "slot_image r = subslice b off (off + 9)" using r(1) Suc.prems(2) by (intro slot_image_decode) simp_all
  with Suc.IH [OF r(2)] Suc.prems(2) r(3) subslice_split [of off "off + 9" "off + 9 + 9 * n" b] show ?case by (simp add: add.assoc)
qed

lemma get_extents_image:
  "off = length p \<Longrightarrow> get_extents (p @ concat (map extent_image es) @ q) off (length es) = es"
proof (induction es arbitrary: p off)
  case (Cons e es)
  let ?t = "concat (map extent_image es) @ q"
  have "subslice (p @ extent_image e @ ?t) off (off + 8) = u64_le (be_start e)"
    "subslice (p @ extent_image e @ ?t) (off + 8) (off + 16) = u64_le (be_len e)"
    using Cons.prems by (simp_all add: extent_image_def subslice_def)
  with Cons.IH [of "off + 16" "p @ extent_image e"] Cons.prems show ?case by (simp add: METADATA_BOOTSTRAP_EXTENT_SIZE_def)
qed simp

lemma image_get_extents:
  "off + 16 * n \<le> length b \<Longrightarrow>
    length (get_extents b off n) = n \<and> concat (map extent_image (get_extents b off n)) = subslice b off (off + 16 * n)"
proof (induction n arbitrary: off)
  case 0
  show ?case by (simp add: subslice_def)
next
  case (Suc n)
  have "subslice b off (off + 8) @ subslice b (off + 8) (off + 16) @ subslice b (off + 16) (off + 16 + 16 * n) = subslice b off (off + 16 + 16 * n)"
    by (simp add: subslice_split)
  with Suc.IH [of "off + 16"] Suc.prems show ?case
    by (simp add: extent_image_def METADATA_BOOTSTRAP_EXTENT_SIZE_def u64_le_from_le add.assoc)
qed

lemma all_zero_iff: "all_zero b \<longleftrightarrow> b = replicate (length b) 0"
  by (induction b) (auto simp: all_zero_def)

section \<open>The region table is exact\<close>

definition region_head :: "CanonicalRegionTable \<Rightarrow> bytes" where
  "region_head t = CANONICAL_REGION_TABLE_MAGIC @ u16_le 5 @ u16_le (ucast PAGE_SIZE) @ u64_le PAGE_SIZE"

definition region_mid :: "CanonicalRegionTable \<Rightarrow> bytes" where
  "region_mid t = u64_le (rt_open_segment t) @ u64_le (rt_overlay_generation_floor t) @ u64_le (br_capacity (rt_reserve t))
     @ u64_le (br_owning_generation (rt_reserve t)) @ u16_le (word_of_nat (length (br_extents (rt_reserve t))))"

definition region_body :: "CanonicalRegionTable \<Rightarrow> bytes" where
  "region_body t = region_head t @ concat (map slot_image (region_roots t)) @ region_mid t @ [0]
     @ concat (map extent_image (br_extents (rt_reserve t))) @ replicate (3988 - 16 * length (br_extents (rt_reserve t))) 0
     @ u64_le (rt_minimum_recoverable_generation t)"

definition region_page :: "CanonicalRegionTable \<Rightarrow> bytes" where
  "region_page t = region_body t @ u32_le (crc32c (region_body t))"

lemma region_lengths:
  "length (region_head t) = 16" "length (concat (map slot_image (region_roots t))) = 45" "length (region_mid t) = 34"
  "length (concat (map extent_image es)) = 16 * length es"
  by (simp_all add: region_head_def region_mid_def CANONICAL_REGION_TABLE_MAGIC_def length_concat_const region_roots_def)

lemma length_region_body: "length (br_extents (rt_reserve t)) \<le> 249 \<Longrightarrow> length (region_body t) = 4092"
  by (simp add: region_body_def region_lengths)

lemma region_writes:
  assumes "length (br_extents (rt_reserve t)) \<le> 249"
  shows "put_at (put_extents (put_at (put_at (put_at (put_at (put_at (put_root_slots (put_at (put_at (put_at (put_at
      (replicate 4096 0) 0 CANONICAL_REGION_TABLE_MAGIC) 4 (u16_le 5)) 6 (u16_le (ucast PAGE_SIZE))) 8 (u64_le PAGE_SIZE)) 16 (region_roots t))
      61 (u64_le (rt_open_segment t))) 69 (u64_le (rt_overlay_generation_floor t))) 77 (u64_le (br_capacity (rt_reserve t))))
      85 (u64_le (br_owning_generation (rt_reserve t)))) 93 (u16_le (word_of_nat (length (br_extents (rt_reserve t))))))
      96 (br_extents (rt_reserve t))) 4084 (u64_le (rt_minimum_recoverable_generation t)) = region_body t @ replicate 4 0"
proof -
  let ?es = "br_extents (rt_reserve t)"
  let ?s = "concat (map slot_image (region_roots t))"
  have a: "put_at (put_at (put_at (put_at (replicate 4096 0) 0 CANONICAL_REGION_TABLE_MAGIC) 4 (u16_le 5)) 6 (u16_le (ucast PAGE_SIZE))) 8 (u64_le PAGE_SIZE)
      = region_head t @ replicate 4080 0"
    unfolding region_head_def append_assoc [symmetric]
    by (simp add: put_at_first put_at_next CANONICAL_REGION_TABLE_MAGIC_def del: append_assoc append.simps append_Cons)
  have b: "put_root_slots (region_head t @ replicate 4080 0) 16 (region_roots t) = (region_head t @ ?s) @ replicate 4035 0"
    by (subst put_root_slots_image) (simp_all add: region_lengths, simp_all add: region_roots_def)
  have c: "put_at (put_at (put_at (put_at (put_at (q @ replicate 4035 0) 61 (u64_le (rt_open_segment t))) 69 (u64_le (rt_overlay_generation_floor t)))
      77 (u64_le (br_capacity (rt_reserve t)))) 85 (u64_le (br_owning_generation (rt_reserve t)))) 93 (u16_le (word_of_nat (length ?es)))
      = (q @ region_mid t) @ replicate 4001 0" if "length q = 61" for q
    unfolding region_mid_def append_assoc [symmetric] using that by (simp add: put_at_next del: append_assoc)
  have z: "((q @ region_mid t) @ replicate 4001 0) = (q @ region_mid t @ [0]) @ replicate 4000 0" for q
    by (simp flip: replicate_Suc)
  let ?p = "(region_head t @ ?s) @ region_mid t @ [0]"
  have d: "put_extents (?p @ replicate 4000 0) 96 ?es = (?p @ concat (map extent_image ?es)) @ replicate (4000 - 16 * length ?es) 0"
    using assms by (intro put_extents_image) (simp_all add: region_lengths)
  have z2: "replicate (4000 - 16 * length ?es) (0 :: u8) = replicate (3988 - 16 * length ?es) 0 @ replicate 12 0"
    using assms by (simp flip: replicate_add)
  have e: "put_at ((?p @ concat (map extent_image ?es) @ replicate (3988 - 16 * length ?es) 0) @ replicate 12 0) 4084 (u64_le (rt_minimum_recoverable_generation t))
      = ((?p @ concat (map extent_image ?es) @ replicate (3988 - 16 * length ?es) 0) @ u64_le (rt_minimum_recoverable_generation t)) @ replicate 4 0"
    using assms by (subst put_at_next) (simp_all add: region_lengths)
  have q: "length (region_head t @ ?s) = 61" by (simp add: region_lengths)
  show ?thesis
    unfolding a b c [OF q] z d z2 region_body_def using e by (simp only: append_assoc)
qed

lemma put_at_crc: "length b = n \<Longrightarrow> put_at (b @ replicate 4 0) n (u32_le (crc32c (subslice (b @ replicate 4 0) 0 n))) = b @ u32_le (crc32c b)"
  by (simp add: put_at_def subslice_def)

lemma reserve_validate_count: "reserve_validate r pc = Inr () \<Longrightarrow> length (br_extents r) \<le> 249"
  by (simp add: reserve_validate_def root_layout split: if_splits)

lemma region_encode_image:
  "region_encode t pc = rbind (region_validate_root_bounds t pc) (\<lambda>_. Inr (region_page t))"
proof (cases "region_validate_root_bounds t pc")
  case (Inr u)
  then have n: "length (br_extents (rt_reserve t)) \<le> 249"
    by (auto simp: region_validate_root_bounds_def result_simps intro: reserve_validate_count)
  note w = region_writes [OF n] and c = put_at_crc [OF length_region_body [OF n]]
  have "\<not> length (br_extents (rt_reserve t)) \<ge> 2 ^ 16" using n by simp
  then show ?thesis
    unfolding region_encode_def Inr rbind_simps Let_def
    by (simp add: root_layout w c region_page_def)
qed (simp add: region_encode_def)

lemma subslice_cut: "length p = i \<Longrightarrow> length m = j - i \<Longrightarrow> i \<le> j \<Longrightarrow> subslice (p @ m @ q) i j = m"
  by (simp add: subslice_def)

lemma region_decode_image:
  assumes n: "length (br_extents (rt_reserve t)) \<le> 249"
  shows "region_decode (region_page t) = Inr t"
proof -
  let ?b = "region_page t" and ?es = "br_extents (rt_reserve t)" and ?s = "concat (map slot_image (region_roots t))"
  let ?pad = "replicate (3988 - 16 * length ?es) (0 :: u8)" and ?c = "u32_le (crc32c (region_body t))"
  let ?e = "concat (map extent_image ?es)" and ?g = "u64_le (rt_minimum_recoverable_generation t)"
  have b: "?b = region_head t @ ?s @ region_mid t @ [0] @ ?e @ ?pad @ ?g @ ?c" by (simp add: region_page_def region_body_def)
  have l: "length ?b = 4096" using length_region_body [OF n] by (simp add: region_page_def)
  have crc: "subslice ?b 0 4092 = region_body t" "subslice ?b 4092 4096 = ?c"
    using length_region_body [OF n] by (simp_all add: region_page_def subslice_def)
  have head: "subslice ?b 0 4 = CANONICAL_REGION_TABLE_MAGIC" "subslice ?b 4 6 = u16_le 5" "subslice ?b 6 8 = u16_le (ucast PAGE_SIZE)"
    "subslice ?b 8 16 = u64_le PAGE_SIZE"
    by (simp_all add: b region_head_def CANONICAL_REGION_TABLE_MAGIC_def subslice_def)
  have mid: "subslice ?b 61 69 = u64_le (rt_open_segment t)" "subslice ?b 69 77 = u64_le (rt_overlay_generation_floor t)"
    "subslice ?b 77 85 = u64_le (br_capacity (rt_reserve t))" "subslice ?b 85 93 = u64_le (br_owning_generation (rt_reserve t))"
    "subslice ?b 93 95 = u16_le (word_of_nat (length ?es))"
    by (simp_all add: b subslice_def region_lengths region_mid_def)
  have z: "?b ! 95 = 0" by (simp add: b nth_append region_lengths)
  have cnt: "unat (word_of_nat (length ?es) :: u16) = length ?es" using n by (simp add: unat_of_nat)
  have pad: "subslice ?b (96 + length ?es * 16) 4084 = ?pad"
    using n subslice_cut [of "region_head t @ ?s @ region_mid t @ [0] @ ?e" "96 + length ?es * 16" ?pad 4084 "?g @ ?c"]
    by (simp add: b region_lengths mult.commute)
  have g: "subslice ?b 4084 4092 = ?g"
    using n subslice_cut [of "region_head t @ ?s @ region_mid t @ [0] @ ?e @ ?pad" 4084 ?g 4092 ?c] by (simp add: b region_lengths)
  have slots: "get_root_slots ?b 16 5 = Inr (region_roots t)"
  proof -
    have "length (region_roots t) = 5" by (simp add: region_roots_def)
    with get_root_slots_image [OF region_lengths(1) [symmetric], of t "region_roots t" "region_mid t @ [0] @ ?e @ ?pad @ ?g @ ?c"]
    show ?thesis by (simp only: b)
  qed
  have ext: "get_extents ?b 96 (length ?es) = ?es"
    using get_extents_image [of 96 "region_head t @ ?s @ region_mid t @ [0]" ?es "?pad @ ?g @ ?c"] by (simp add: b region_lengths)
  have t: "t = \<lparr>rt_index_root = region_roots t ! 0, rt_freemap_root = region_roots t ! 1, rt_maintenance_root = region_roots t ! 2,
      rt_current_record_root = region_roots t ! 3, rt_root_catalog_root = region_roots t ! 4, rt_open_segment = rt_open_segment t,
      rt_overlay_generation_floor = rt_overlay_generation_floor t, rt_minimum_recoverable_generation = rt_minimum_recoverable_generation t,
      rt_reserve = \<lparr>br_owning_generation = br_owning_generation (rt_reserve t), br_capacity = br_capacity (rt_reserve t), br_extents = ?es\<rparr>\<rparr>"
    by (simp add: region_roots_def)
  have zero: "all_zero ?pad" by (simp add: all_zero_iff)
  show ?thesis
    unfolding region_decode_def root_layout using l n z zero t
    by (simp add: crc head mid cnt pad g slots ext Let_def)
qed

lemma image_region_decode:
  assumes "region_decode b = Inr t"
  shows "b = region_page t" and "length (br_extents (rt_reserve t)) \<le> 249"
proof -
  define n where "n = unat (u16_from_le (subslice b 93 95))"
  obtain roots where l: "length b = 4096" and n: "n \<le> 249" and m: "subslice b 0 4 = CANONICAL_REGION_TABLE_MAGIC"
    and v: "u16_from_le (subslice b 4 6) = 5" "u16_from_le (subslice b 6 8) = ucast PAGE_SIZE" "u64_from_le (subslice b 8 16) = PAGE_SIZE"
    and crc: "crc32c (subslice b 0 4092) = u32_from_le (subslice b 4092 4096)"
    and z: "b ! 95 = 0" "all_zero (subslice b (96 + n * 16) 4084)" and slots: "get_root_slots b 16 5 = Inr roots"
    and t: "t = \<lparr>rt_index_root = roots ! 0, rt_freemap_root = roots ! 1, rt_maintenance_root = roots ! 2, rt_current_record_root = roots ! 3,
      rt_root_catalog_root = roots ! 4, rt_open_segment = u64_from_le (subslice b 61 69), rt_overlay_generation_floor = u64_from_le (subslice b 69 77),
      rt_minimum_recoverable_generation = u64_from_le (subslice b 4084 4092),
      rt_reserve = \<lparr>br_owning_generation = u64_from_le (subslice b 85 93), br_capacity = u64_from_le (subslice b 77 85), br_extents = get_extents b 96 n\<rparr>\<rparr>"
    using assms by (auto simp: region_decode_def root_layout Let_def result_simps n_def split: if_splits)
  have r: "length roots = 5" "concat (map slot_image roots) = subslice b 16 61"
    using image_get_root_slots [OF slots] l by simp_all
  have "roots = [roots ! 0, roots ! 1, roots ! 2, roots ! 3, roots ! 4]" using r(1) by (auto simp: numeral_eq_Suc length_Suc_conv)
  then have rr: "region_roots t = roots" by (simp add: t region_roots_def)
  have ex: "length (get_extents b 96 n) = n" "concat (map extent_image (get_extents b 96 n)) = subslice b 96 (96 + 16 * n)"
    using image_get_extents [of 96 n b] l n by simp_all
  show cnt: "length (br_extents (rt_reserve t)) \<le> 249" using ex(1) n by (simp add: t)
  have u16: "u16_le (u16_from_le c) = c" if "length c = 2" for c
    using that from_le_bound [of c] by (simp add: u16_le_def u16_from_le_def unat_of_nat le_bytes_from_le')
  have head: "region_head t = subslice b 0 16"
  proof -
    have "region_head t = subslice b 0 4 @ subslice b 4 6 @ subslice b 6 8 @ subslice b 8 16"
      using u16 [of "subslice b 4 6"] u16 [of "subslice b 6 8"] u64_le_from_le [of "subslice b 8 16"] l by (simp add: region_head_def m v)
    then show ?thesis by (simp add: subslice_split)
  qed
  have mid: "region_mid t = subslice b 61 95"
  proof -
    have "region_mid t = subslice b 61 69 @ subslice b 69 77 @ subslice b 77 85 @ subslice b 85 93 @ subslice b 93 95"
      using u16 [of "subslice b 93 95"] l ex(1) by (simp add: region_mid_def t u64_le_from_le n_def)
    then show ?thesis by (simp add: subslice_split)
  qed
  have z95: "[0] = subslice b 95 96" using z(1) l by (simp add: subslice_def take_Suc_conv_app_nth hd_drop_conv_nth take_Suc)
  have pad: "replicate (3988 - 16 * n) 0 = subslice b (96 + 16 * n) 4084"
    using z(2) n l by (simp add: all_zero_iff mult.commute)
  have min: "u64_le (rt_minimum_recoverable_generation t) = subslice b 4084 4092" using l by (simp add: t u64_le_from_le)
  have body: "region_body t = subslice b 0 4092"
  proof -
    have "region_body t = subslice b 0 16 @ subslice b 16 61 @ subslice b 61 95 @ subslice b 95 96 @ subslice b 96 (96 + 16 * n)
        @ subslice b (96 + 16 * n) 4084 @ subslice b 4084 4092"
      unfolding region_body_def rr head mid min using ex r(2) z95 pad by (simp add: t)
    then show ?thesis using n by (simp add: subslice_split)
  qed
  have "region_page t = subslice b 0 4092 @ subslice b 4092 4096"
    using u32_le_from_le [of "subslice b 4092 4096"] l by (simp add: region_page_def body crc)
  then show "b = region_page t" using l by (simp add: subslice_split subslice_def)
qed

text \<open>C35: The region table codec is exact: a page is what encoding a table for a given page count produces if and
  only if it decodes to that table and the roots and the metadata reserve of the table are in bounds. So no
  page but the encoding of a table decodes to it.\<close>

theorem region_table_exact:
  "region_encode t page_count = Inr page \<longleftrightarrow> region_decode page = Inr t \<and> region_validate_root_bounds t page_count = Inr ()"
proof
  assume "region_encode t page_count = Inr page"
  then have v: "region_validate_root_bounds t page_count = Inr ()" and p: "page = region_page t"
    by (auto simp: region_encode_image result_simps)
  then have "length (br_extents (rt_reserve t)) \<le> 249"
    by (auto simp: region_validate_root_bounds_def result_simps intro: reserve_validate_count)
  with v p show "region_decode page = Inr t \<and> region_validate_root_bounds t page_count = Inr ()" by (simp add: region_decode_image)
next
  assume "region_decode page = Inr t \<and> region_validate_root_bounds t page_count = Inr ()"
  then show "region_encode t page_count = Inr page" by (auto simp: region_encode_image dest: image_region_decode(1))
qed

section \<open>The root catalog is exact\<close>

definition entry_image :: "RootCatalogEntry \<Rightarrow> bytes" where
  "entry_image e = u16_le (ce_family_id e) @ u16_le (ce_flags e) @ slot_image (Some (ce_root e)) @ replicate 19 0"

lemma length_entry_image [simp]: "length (entry_image e) = 32"
  by (simp add: entry_image_def)

lemma put_catalog_entries_image:
  "off = length p \<Longrightarrow> 32 * length es \<le> k \<Longrightarrow>
    put_catalog_entries (p @ replicate k 0) off es = (p @ concat (map entry_image es)) @ replicate (k - 32 * length es) 0"
proof (induction es arbitrary: p off k)
  case (Cons e es)
  let ?q = "(p @ u16_le (ce_family_id e)) @ u16_le (ce_flags e)"
  have w: "put_at (put_at (p @ replicate k 0) off (u16_le (ce_family_id e))) (off + 2) (u16_le (ce_flags e)) = ?q @ replicate (k - 4) 0"
    using Cons.prems put_at_next [of off p "u16_le (ce_family_id e)" k] put_at_next [of "off + 2" "p @ u16_le (ce_family_id e)" "u16_le (ce_flags e)" "k - 2"]
    by simp
  have s: "encode_root_slot (?q @ replicate (k - 4) 0) (off + 4) (Some (ce_root e)) = (?q @ slot_image (Some (ce_root e))) @ replicate (k - 13) 0"
    using Cons.prems by (subst encode_root_slot_image) simp_all
  have z: "replicate (k - 13) (0 :: u8) = replicate 19 0 @ replicate (k - 32) 0" using Cons.prems by (simp flip: replicate_add)
  have step: "encode_root_slot (put_at (put_at (p @ replicate k 0) off (u16_le (ce_family_id e))) (off + 2) (u16_le (ce_flags e))) (off + 4) (Some (ce_root e))
      = (p @ entry_image e) @ replicate (k - 32) 0"
    unfolding w s z entry_image_def by simp
  from Cons.prems Cons.IH [of "off + 32" "p @ entry_image e" "k - 32"] show ?case
    unfolding put_catalog_entries.simps step ROOT_CATALOG_ENTRY_SIZE_def by simp
qed simp

lemma decode_slot_some: "r \<noteq> 0 \<Longrightarrow> decode_root_slot (slot_image (Some r)) False True = Inr (Some r)"
  by (simp add: slot_image_simps decode_root_slot_def subslice_def Let_def)

lemma slot_some_decode: "decode_root_slot c False True = Inr r \<Longrightarrow> length c = 9 \<Longrightarrow> slot_image r = c \<and> (\<exists>p. r = Some p \<and> p \<noteq> 0)"
proof -
  assume d: "decode_root_slot c False True = Inr r" and l: "length c = 9"
  then obtain p where r: "r = Some p" "p \<noteq> 0" by (cases c) (auto simp: decode_root_slot_def Let_def split: if_splits)
  from d l have "decode_root_slot c True True = Inr r" by (cases c) (auto simp: decode_root_slot_def Let_def split: if_splits)
  from slot_image_decode [OF this l] r show ?thesis by blast
qed

lemma decode_entry_image:
  assumes "ce_root e \<noteq> 0"
  shows "decode_catalog_entry (entry_image e) = Inr e"
proof -
  let ?s = "slot_image (Some (ce_root e))"
  have "subslice (entry_image e) 13 32 = replicate 19 0" "subslice (entry_image e) 4 13 = ?s"
    "subslice (entry_image e) 0 2 = u16_le (ce_family_id e)" "subslice (entry_image e) 2 4 = u16_le (ce_flags e)"
    by (simp_all add: entry_image_def subslice_def)
  then show ?thesis using assms by (simp add: decode_catalog_entry_def ROOT_CATALOG_ENTRY_SIZE_def all_zero_iff decode_slot_some)
qed

lemma entry_image_decode:
  assumes "decode_catalog_entry c = Inr e" and l: "length c = 32"
  shows "entry_image e = c" and "ce_root e \<noteq> 0"
proof -
  obtain root where z: "all_zero (subslice c 13 32)" and d: "decode_root_slot (subslice c 4 13) False True = Inr (Some root)"
    and e: "e = \<lparr>ce_family_id = u16_from_le (subslice c 0 2), ce_flags = u16_from_le (subslice c 2 4), ce_root = root\<rparr>"
    using assms by (auto simp: decode_catalog_entry_def ROOT_CATALOG_ENTRY_SIZE_def result_simps split: if_splits)
  have s: "slot_image (Some root) = subslice c 4 13" "root \<noteq> 0" using slot_some_decode [OF d] l by auto
  have u: "u16_le (u16_from_le x) = x" if "length x = 2" for x
    using that from_le_bound [of x] by (simp add: u16_le_def u16_from_le_def unat_of_nat le_bytes_from_le')
  have "entry_image e = subslice c 0 2 @ subslice c 2 4 @ subslice c 4 13 @ subslice c 13 32"
    using u l z s by (simp add: entry_image_def e all_zero_iff)
  then show "entry_image e = c" using l subslice_full [of c] by (simp add: subslice_split)
  show "ce_root e \<noteq> 0" using s(2) by (simp add: e)
qed

lemma get_catalog_entries_image:
  "off = length p \<Longrightarrow> \<forall>e \<in> set es. ce_root e \<noteq> 0 \<Longrightarrow> get_catalog_entries (p @ concat (map entry_image es) @ q) off (length es) = Inr es"
proof (induction es arbitrary: p off)
  case (Cons e es)
  have "subslice (p @ entry_image e @ concat (map entry_image es) @ q) off (off + 32) = entry_image e"
    using Cons.prems subslice_append_mid [of p "entry_image e" "concat (map entry_image es) @ q"] by simp
  with Cons.IH [of "off + 32" "p @ entry_image e"] Cons.prems show ?case
    by (simp add: ROOT_CATALOG_ENTRY_SIZE_def decode_entry_image)
qed simp

lemma image_get_catalog_entries:
  "get_catalog_entries b off n = Inr es \<Longrightarrow> off + 32 * n \<le> length b \<Longrightarrow>
    length es = n \<and> concat (map entry_image es) = subslice b off (off + 32 * n)"
proof (induction n arbitrary: off es)
  case 0
  then show ?case by (simp add: subslice_def)
next
  case (Suc n)
  then obtain e es' where e: "decode_catalog_entry (subslice b off (off + 32)) = Inr e" "get_catalog_entries b (off + 32) n = Inr es'" "es = e # es'"
    by (auto simp: result_simps ROOT_CATALOG_ENTRY_SIZE_def)
  have "entry_image e = subslice b off (off + 32)" using e(1) Suc.prems(2) by (intro entry_image_decode(1)) simp_all
  with Suc.IH [OF e(2)] Suc.prems(2) e(3) subslice_split [of off "off + 32" "off + 32 + 32 * n" b] show ?case by (simp add: add.assoc)
qed

lemma validate_entry_root: "validate_entry prev e = Inr u \<Longrightarrow> ce_root e \<noteq> 0"
  unfolding validate_entry_def by (rule notI) (simp split: if_splits)

lemma valid_entries_roots: "validate_entries_from prev es = Inr () \<Longrightarrow> \<forall>e \<in> set es. ce_root e \<noteq> 0"
  by (induction es arbitrary: prev) (auto simp: result_simps dest: validate_entry_root)

definition catalog_body :: "RootCatalog \<Rightarrow> bytes" where
  "catalog_body es = ROOT_CATALOG_MAGIC @ u16_le 1 @ u16_le 32 @ u16_le (word_of_nat (length es)) @ replicate 18 0
     @ concat (map entry_image es) @ replicate (4060 - 32 * length es) 0"

definition catalog_page :: "RootCatalog \<Rightarrow> bytes" where
  "catalog_page es = catalog_body es @ u32_le (crc32c (catalog_body es))"

lemma catalog_lengths: "length (concat (map entry_image es)) = 32 * length es" "length ROOT_CATALOG_MAGIC = 8"
  by (simp_all add: length_concat_const ROOT_CATALOG_MAGIC_def)

lemma length_catalog_body: "length es \<le> 126 \<Longrightarrow> length (catalog_body es) = 4092"
  by (simp add: catalog_body_def catalog_lengths)

lemma catalog_encode_image:
  "catalog_encode es = (if length es > 126 then Inl EntryCountTooLarge
     else rbind (validate_root_catalog_entries es) (\<lambda>_. Inr (catalog_page es)))"
proof (cases "length es \<le> 126")
  case True
  let ?h = "ROOT_CATALOG_MAGIC @ u16_le 1 @ u16_le 32 @ u16_le (word_of_nat (length es))"
  have a: "put_at (put_at (put_at (put_at (replicate 4096 0) 0 ROOT_CATALOG_MAGIC) 8 (u16_le 1)) 10 (u16_le 32)) 12 (u16_le (word_of_nat (length es)))
      = ?h @ replicate 4082 0"
    unfolding append_assoc [symmetric]
    by (simp add: put_at_first put_at_next catalog_lengths del: append_assoc append.simps append_Cons)
  have z: "replicate 4082 (0 :: u8) = replicate 18 0 @ replicate 4064 0" by (simp flip: replicate_add)
  have b: "put_catalog_entries ((?h @ replicate 18 0) @ replicate 4064 0) 32 es
      = ((?h @ replicate 18 0) @ concat (map entry_image es)) @ replicate (4064 - 32 * length es) 0"
    using True by (intro put_catalog_entries_image) (simp_all add: catalog_lengths)
  have z2: "replicate (4064 - 32 * length es) (0 :: u8) = replicate (4060 - 32 * length es) 0 @ replicate 4 0"
    using True by (simp flip: replicate_add)
  have w: "put_catalog_entries (?h @ replicate 4082 0) 32 es = catalog_body es @ replicate 4 0"
    unfolding z append_assoc [symmetric] using b by (simp add: catalog_body_def z2)
  have r: "(word_of_nat 32 :: u16) = 32" by simp
  show ?thesis
    unfolding catalog_encode_def root_layout Let_def r a w using True put_at_crc [OF length_catalog_body [OF True]]
    by (simp add: catalog_page_def)
qed (simp add: catalog_encode_def root_layout)

lemma u16_le_zero: "u16_le 0 = [0, 0]"
  by (simp add: u16_le_def numeral_2_eq_2)

lemma zeros_18: "replicate 18 (0 :: u8) = [0, 0] @ replicate 16 0"
proof -
  have "(18 :: nat) = Suc (Suc 16)" by simp
  then show ?thesis by (simp only: replicate_Suc append.simps)
qed

lemma catalog_decode_image:
  assumes n: "length es \<le> 126" and v: "validate_root_catalog_entries es = Inr ()"
  shows "catalog_decode (catalog_page es) = Inr es"
proof -
  let ?b = "catalog_page es" and ?e = "concat (map entry_image es)" and ?pad = "replicate (4060 - 32 * length es) (0 :: u8)"
  let ?c = "u32_le (crc32c (catalog_body es))" and ?h = "ROOT_CATALOG_MAGIC @ u16_le 1 @ u16_le 32 @ u16_le (word_of_nat (length es)) @ replicate 18 0"
  have b: "?b = ?h @ ?e @ ?pad @ ?c" by (simp add: catalog_page_def catalog_body_def)
  have lh: "length ?h = 32" by (simp add: catalog_lengths)
  have l: "length ?b = 4096" using length_catalog_body [OF n] by (simp add: catalog_page_def)
  have crc: "subslice ?b 0 4092 = catalog_body es" "subslice ?b 4092 4096 = ?c"
    using length_catalog_body [OF n] by (simp_all add: catalog_page_def subslice_def)
  note z2 = u16_le_zero and zs = zeros_18
  have head: "subslice ?b 0 8 = ROOT_CATALOG_MAGIC" "subslice ?b 8 10 = u16_le 1" "subslice ?b 10 12 = u16_le 32"
    "subslice ?b 12 14 = u16_le (word_of_nat (length es))" "subslice ?b 14 16 = u16_le 0" "subslice ?b 16 32 = replicate 16 0"
    unfolding b zs z2 by (simp_all add: catalog_lengths subslice_def)
  have cnt: "unat (word_of_nat (length es) :: u16) = length es" using n by (simp add: unat_of_nat)
  have pad: "subslice ?b (32 + length es * 32) 4092 = ?pad"
    using n lh subslice_cut [of "?h @ ?e" "32 + length es * 32" ?pad 4092 ?c] by (simp add: b catalog_lengths mult.commute)
  have es: "get_catalog_entries ?b 32 (length es) = Inr es"
    using get_catalog_entries_image [of 32 ?h es "?pad @ ?c"] valid_entries_roots [of None es] v lh
    by (simp add: b validate_root_catalog_entries_def)
  have zero: "all_zero ?pad" "all_zero (replicate 16 0)" by (simp_all add: all_zero_iff)
  show ?thesis
    unfolding catalog_decode_def root_layout using l n zero v
    by (simp add: crc head cnt pad es Let_def)
qed

lemma image_catalog_decode:
  assumes "catalog_decode b = Inr es"
  shows "b = catalog_page es" and "length es \<le> 126" and "validate_root_catalog_entries es = Inr ()"
proof -
  define n where "n = unat (u16_from_le (subslice b 12 14))"
  have l: "length b = 4096" and n: "n \<le> 126" and m: "subslice b 0 8 = ROOT_CATALOG_MAGIC"
    and v: "u16_from_le (subslice b 8 10) = 1" "unat (u16_from_le (subslice b 10 12)) = 32" "u16_from_le (subslice b 14 16) = 0"
    and crc: "crc32c (subslice b 0 4092) = u32_from_le (subslice b 4092 4096)"
    and z: "all_zero (subslice b 16 32)" "all_zero (subslice b (32 + n * 32) 4092)" and g: "get_catalog_entries b 32 n = Inr es"
    and val: "validate_root_catalog_entries es = Inr ()"
    using assms by (auto simp: catalog_decode_def root_layout Let_def result_simps n_def split: if_splits)
  show "validate_root_catalog_entries es = Inr ()" by (rule val)
  have e: "length es = n" "concat (map entry_image es) = subslice b 32 (32 + 32 * n)"
    using image_get_catalog_entries [OF g] l n by simp_all
  then show "length es \<le> 126" using n by simp
  have u: "u16_le (u16_from_le x) = x" if "length x = 2" for x
    using that from_le_bound [of x] by (simp add: u16_le_def u16_from_le_def unat_of_nat le_bytes_from_le')
  have v32: "u16_from_le (subslice b 10 12) = 32" using v(2) by (metis of_nat_numeral of_nat_unat)
  have z18: "replicate 18 (0 :: u8) = u16_le 0 @ replicate 16 0" unfolding u16_le_zero zeros_18 ..
  have "catalog_body es = subslice b 0 8 @ subslice b 8 10 @ subslice b 10 12 @ subslice b 12 14 @ subslice b 14 16 @ subslice b 16 32
      @ subslice b 32 (32 + 32 * n) @ subslice b (32 + 32 * n) 4092"
    unfolding catalog_body_def z18 e
    using u [of "subslice b 8 10"] u [of "subslice b 10 12"] u [of "subslice b 12 14"] u [of "subslice b 14 16"] l n m v v32 z
    by (simp add: all_zero_iff n_def mult.commute)
  then have body: "catalog_body es = subslice b 0 4092" using n by (simp add: subslice_split)
  have "catalog_page es = subslice b 0 4092 @ subslice b 4092 4096"
    using u32_le_from_le [of "subslice b 4092 4096"] l by (simp add: catalog_page_def body crc)
  then show "b = catalog_page es" using l by (simp add: subslice_split subslice_def)
qed

text \<open>C36: The root catalog codec is exact: a page is the encoding of a catalog if and only if it decodes to that
  catalog. In particular a catalog with unsorted or repeated families, unknown authoritative families or zero
  roots is neither written nor read.\<close>

theorem root_catalog_exact: "catalog_encode entries = Inr page \<longleftrightarrow> catalog_decode page = Inr entries"
proof
  assume "catalog_encode entries = Inr page"
  then show "catalog_decode page = Inr entries"
    by (auto simp: catalog_encode_image result_simps catalog_decode_image split: if_splits)
next
  assume "catalog_decode page = Inr entries"
  from image_catalog_decode [OF this] show "catalog_encode entries = Inr page" by (simp add: catalog_encode_image)
qed

end
