(* ===== verification/Loom_Pagemap.thy ===== *)
theory Loom_Pagemap
  imports Loom_Page
begin

text \<open>
  The page allocator of a transaction, \<^verbatim>\<open>crates/loom-store/src/pagemap.rs\<close>. Ordered maps of page runs are
  association lists in key order; the set of pages allocated in the transaction is a set. The counters
  that are compiled in for tests only are left out. Page arithmetic is at 64 bits: the sum in \<open>extend\<close>
  wraps, the saturating sums saturate.
\<close>

section \<open>Ordered maps\<close>

text \<open>The last entry at or below a key, the first entry at or above it, and the first hit of a search.\<close>

definition bt_floor :: "'k::linorder \<Rightarrow> ('k \<times> 'v) list \<Rightarrow> ('k \<times> 'v) option" where
  "bt_floor k m = (let f = filter (\<lambda>(a, _). a \<le> k) m in if f = [] then None else Some (List.last f))"

definition bt_from :: "'k::linorder \<Rightarrow> ('k \<times> 'v) list \<Rightarrow> ('k \<times> 'v) option" where
  "bt_from k m = find (\<lambda>(a, _). k \<le> a) m"

fun find_map :: "('a \<Rightarrow> 'b option) \<Rightarrow> 'a list \<Rightarrow> 'b option" where
  "find_map f [] = None"
| "find_map f (x # xs) = (case f x of Some y \<Rightarrow> Some y | None \<Rightarrow> find_map f xs)"

definition saturating_sub :: "'a::len word \<Rightarrow> 'a word \<Rightarrow> 'a word" where
  "saturating_sub a b = (if b \<le> a then a - b else 0)"

section \<open>Runs and their normal forms\<close>

definition FOREGROUND_TRANSACTION_METADATA_LIMIT_PAGES :: u64 where "FOREGROUND_TRANSACTION_METADATA_LIMIT_PAGES = 512"
definition METADATA_BOOTSTRAP_REFILL_THRESHOLD_PAGES :: u64 where "METADATA_BOOTSTRAP_REFILL_THRESHOLD_PAGES = 8"
definition METADATA_BOOTSTRAP_TARGET_PAGES :: u64 where "METADATA_BOOTSTRAP_TARGET_PAGES = 16"
definition METADATA_BOOTSTRAP_CAPACITY_PAGES :: u64 where
  "METADATA_BOOTSTRAP_CAPACITY_PAGES = FOREGROUND_TRANSACTION_METADATA_LIMIT_PAGES"

record FreePageRun =
  fr_start :: u64
  fr_len :: u64
  fr_freed_gen :: u64

definition free_run :: "u64 \<Rightarrow> u64 \<Rightarrow> u64 \<Rightarrow> FreePageRun" where
  "free_run start len g = \<lparr>fr_start = start, fr_len = len, fr_freed_gen = g\<rparr>"

definition fr_end :: "FreePageRun \<Rightarrow> u64" where
  "fr_end r = saturating_add (fr_start r) (fr_len r)"

fun coalesce_loop :: "FreePageRun \<Rightarrow> FreePageRun list \<Rightarrow> FreePageRun list" where
  "coalesce_loop prev [] = [prev]"
| "coalesce_loop prev (run # runs) =
    (if fr_start run < fr_end prev then
       coalesce_loop (prev\<lparr>fr_len := saturating_sub (max (fr_end prev) (fr_end run)) (fr_start prev),
                           fr_freed_gen := max (fr_freed_gen prev) (fr_freed_gen run)\<rparr>) runs
     else if fr_start run = fr_end prev \<and> fr_freed_gen run = fr_freed_gen prev then
       coalesce_loop (prev\<lparr>fr_len := saturating_add (fr_len prev) (fr_len run)\<rparr>) runs
     else prev # coalesce_loop run runs)"

definition coalesce_free_runs :: "FreePageRun list \<Rightarrow> FreePageRun list" where
  "coalesce_free_runs runs = (case sort_key fr_start runs of [] \<Rightarrow> [] | r # rs \<Rightarrow> coalesce_loop r rs)"

fun coalesce_adjacent_loop :: "FreePageRun \<Rightarrow> FreePageRun list \<Rightarrow> FreePageRun list" where
  "coalesce_adjacent_loop prev [] = [prev]"
| "coalesce_adjacent_loop prev (run # runs) =
    (if fr_end prev = fr_start run \<and> fr_freed_gen prev = fr_freed_gen run
     then coalesce_adjacent_loop (prev\<lparr>fr_len := saturating_add (fr_len prev) (fr_len run)\<rparr>) runs
     else prev # coalesce_adjacent_loop run runs)"

definition coalesce_adjacent_same_generation :: "FreePageRun list \<Rightarrow> FreePageRun list" where
  "coalesce_adjacent_same_generation runs = (case sort_key fr_start runs of [] \<Rightarrow> [] | r # rs \<Rightarrow> coalesce_adjacent_loop r rs)"

fun normalize_loop :: "FreePageRun option \<Rightarrow> FreePageRun list \<Rightarrow> FreePageRun list res" where
  "normalize_loop prev [] = Inr (case prev of None \<Rightarrow> [] | Some p \<Rightarrow> [p])"
| "normalize_loop prev (run # runs) =
    (case checked_add (fr_start run) (fr_len run) of
       None \<Rightarrow> Inl InvalidArgument
     | Some fin \<Rightarrow>
       if fr_len run = 0 then Inl InvalidArgument
       else case prev of
         None \<Rightarrow> normalize_loop (Some run) runs
       | Some p \<Rightarrow>
         if fr_start run < fr_start p + fr_len p then Inl InvalidArgument
         else if fr_start run = fr_start p + fr_len p \<and> fr_freed_gen run = fr_freed_gen p
         then normalize_loop (Some (p\<lparr>fr_len := fin - fr_start p\<rparr>)) runs
         else rbind (normalize_loop (Some run) runs) (\<lambda>rs. Inr (p # rs)))"

definition normalize_publication_reserve_selection :: "FreePageRun list \<Rightarrow> FreePageRun list res" where
  "normalize_publication_reserve_selection selected = normalize_loop None (sort_key fr_start selected)"

definition ranges_overlap :: "u64 \<Rightarrow> u64 \<Rightarrow> u64 \<Rightarrow> u64 \<Rightarrow> bool" where
  "ranges_overlap left_start left_len right_start right_len \<longleftrightarrow>
     left_start < saturating_add right_start right_len \<and> right_start < saturating_add left_start left_len"

text \<open>The loop that swallows the entries that touch a growing range; \<open>fin\<close> reads the end of an entry.\<close>

function absorb :: "(u64 \<Rightarrow> u64 \<Rightarrow> u64) \<Rightarrow> u64 \<Rightarrow> u64 \<Rightarrow> (u64 \<times> u64) list \<Rightarrow> u64 \<times> (u64 \<times> u64) list" where
  "absorb fin merged_start merged_end m =
    (case bt_from merged_start m of
       None \<Rightarrow> (merged_end, m)
     | Some (k, v) \<Rightarrow> if k > merged_end then (merged_end, m)
         else absorb fin merged_start (max merged_end (fin k v)) (bt_remove k m))"
  by pat_completeness auto
termination
proof (relation "measure (\<lambda>(fin, s, e, m). length m)")
  fix fin :: "u64 \<Rightarrow> u64 \<Rightarrow> u64" and s e and m :: "(u64 \<times> u64) list" and kv k v
  assume "bt_from s m = Some kv" and "(k, v) = kv"
  then have "(k, v) \<in> set m" by (auto simp: bt_from_def find_Some_iff in_set_conv_nth)
  from length_filter_less [OF this, of "\<lambda>(a, b). a \<noteq> k"] show "((fin, s, max e (fin k v), bt_remove k m), fin, s, e, m) \<in> measure (\<lambda>(fin, s, e, m). length m)"
    by (simp add: bt_remove_def)
qed simp

declare absorb.simps [simp del]

text \<open>The range that a new one is merged into: it starts at an entry at or below it that reaches it.\<close>

definition merge_range :: "(u64 \<Rightarrow> u64 \<Rightarrow> u64) \<Rightarrow> u64 \<Rightarrow> u64 \<Rightarrow> (u64 \<times> u64) list \<Rightarrow> u64 \<times> u64 \<times> (u64 \<times> u64) list" where
  "merge_range fin start end0 m =
    (let (merged_start, e0, m0) =
       (case bt_floor start m of
          Some (k, v) \<Rightarrow> if fin k v \<ge> start then (k, max end0 (fin k v), bt_remove k m) else (start, end0, m)
        | None \<Rightarrow> (start, end0, m));
         (merged_end, m') = absorb fin merged_start e0 m0
     in (merged_start, merged_end, m'))"

definition insert_bootstrap_extent :: "(u64 \<times> u64) list \<Rightarrow> u64 \<Rightarrow> u64 \<Rightarrow> (u64 \<times> u64) list res" where
  "insert_bootstrap_extent extents start len =
    (if len = 0 then Inl InvalidArgument
     else rbind (ok_or CorruptObject (checked_add start len)) (\<lambda>end0.
       case merge_range saturating_add start end0 extents of (merged_start, merged_end, m) \<Rightarrow>
         let extents' = bt_insert merged_start (merged_end - merged_start) m
         in if length extents' > METADATA_BOOTSTRAP_MAX_EXTENTS then Inl ResourceExhausted else Inr extents'))"

fun scan_txn_runs :: "u64 \<Rightarrow> u64 list \<Rightarrow> (u64 \<times> u64) list \<Rightarrow> (u64 \<times> u64 list) res" where
  "scan_txn_runs merged_end removed [] = Inr (merged_end, removed)"
| "scan_txn_runs merged_end removed ((next_start, next_len) # runs) =
    (if next_start > merged_end then Inr (merged_end, removed)
     else rbind (ok_or CorruptObject (checked_add next_start next_len)) (\<lambda>next_end.
       scan_txn_runs (max merged_end next_end) (removed @ [next_start]) runs))"

record TxnRunChanges =
  tc_removed_starts :: "u64 list"
  tc_inserted_start :: u64
  tc_inserted_len :: u64

definition insert_txn_run :: "(u64 \<times> u64) list \<Rightarrow> u64 \<Rightarrow> u64 \<Rightarrow> (TxnRunChanges \<times> (u64 \<times> u64) list) res" where
  "insert_txn_run runs start fin =
    rbind (case bt_floor start runs of
             Some (prev_start, prev_len) \<Rightarrow>
               rbind (ok_or CorruptObject (checked_add prev_start prev_len)) (\<lambda>prev_end.
                 if prev_end \<ge> start
                 then rbind (ok_or CorruptObject (checked_add prev_start 1)) (\<lambda>scan.
                   Inr (prev_start, max fin prev_end, [prev_start], scan))
                 else Inr (start, fin, [], start))
           | None \<Rightarrow> Inr (start, fin, [], start))
      (\<lambda>(merged_start, end0, removed0, scan_start).
        rbind (scan_txn_runs end0 removed0 (filter (\<lambda>(k, _). scan_start \<le> k) runs)) (\<lambda>(merged_end, removed).
          Inr (\<lparr>tc_removed_starts = removed, tc_inserted_start = merged_start, tc_inserted_len = merged_end - merged_start\<rparr>,
               bt_insert merged_start (merged_end - merged_start) (fold bt_remove removed runs))))"

section \<open>The allocator\<close>

record CapturedFreeRun =
  cf_run :: FreePageRun
  cf_cursor_start :: u64
  cf_cursor_end :: u64

record CapturedFreeAllocationAuthority =
  ca_runs :: "CapturedFreeRun list"
  ca_consumed_through :: u64
  ca_page_count :: u64

record PageAllocator =
  pa_end :: u64
  pa_start_end :: u64
  pa_txn_gen :: u64
  pa_reuse_current_free :: bool
  pa_reusable_runs :: "FreePageRun list option"
  pa_publication_eligible_runs :: "FreePageRun list"
  pa_captured :: "CapturedFreeAllocationAuthority option"
  pa_publication_reserve :: "(u64 \<times> u64 \<times> u64) list"
  pa_publication_reserved_pages :: u64
  pa_publication_reserve_active :: bool
  pa_bootstrap :: "(u64 \<times> u64) list"
  pa_bootstrap_generation :: u64
  pa_allocated_runs :: "(u64 \<times> u64) list"
  pa_active :: "u64 set"
  pa_reuse_before :: "u64 option"
  pa_initial_free :: "FreePageRun list"
  pa_initial_free_by_start :: "(u64 \<times> FreePageRun) list"
  pa_free :: "(u64 \<times> u64 \<times> u64) list"
  pa_txn_freed :: "(u64 \<times> u64) list"
  pa_deferred :: "(u64 \<times> u64) list"
  pa_dirty :: "(u64 \<times> u64) list"
  pa_suppress :: bool

definition bt_collect :: "('k::linorder \<times> 'v) list \<Rightarrow> ('k \<times> 'v) list" where
  "bt_collect kvs = fold (\<lambda>(k, v). bt_insert k v) kvs []"

definition allocator_new :: "u64 \<Rightarrow> u64 \<Rightarrow> FreePageRun list \<Rightarrow> PageAllocator" where
  "allocator_new page_count txn_gen free =
    (let initial_free = coalesce_free_runs free
     in \<lparr>pa_end = page_count, pa_start_end = page_count, pa_txn_gen = txn_gen, pa_reuse_current_free = False,
         pa_reusable_runs = None, pa_publication_eligible_runs = [], pa_captured = None, pa_publication_reserve = [],
         pa_publication_reserved_pages = 0, pa_publication_reserve_active = False, pa_bootstrap = [],
         pa_bootstrap_generation = 0, pa_allocated_runs = [], pa_active = {}, pa_reuse_before = None,
         pa_initial_free = initial_free,
         pa_initial_free_by_start = bt_collect (map (\<lambda>r. (fr_start r, r)) initial_free),
         pa_free = bt_collect (map (\<lambda>r. (fr_start r, fr_len r, fr_freed_gen r)) initial_free),
         pa_txn_freed = [], pa_deferred = [], pa_dirty = [], pa_suppress = False\<rparr>)"

definition allocator_current_free_reusable :: "u64 \<Rightarrow> u64 \<Rightarrow> FreePageRun list \<Rightarrow> PageAllocator" where
  "allocator_current_free_reusable page_count txn_gen free =
    (let a = allocator_new page_count txn_gen free
     in a\<lparr>pa_reuse_current_free := True, pa_reusable_runs := Some (pa_initial_free a),
          pa_publication_eligible_runs := pa_initial_free a\<rparr>)"

definition allocator_reusable_authorities ::
  "u64 \<Rightarrow> u64 \<Rightarrow> FreePageRun list \<Rightarrow> FreePageRun list \<Rightarrow> FreePageRun list \<Rightarrow> PageAllocator" where
  "allocator_reusable_authorities page_count txn_gen current_free ordinary eligible =
    (allocator_new page_count txn_gen current_free)\<lparr>pa_reuse_current_free := True, pa_reusable_runs := Some ordinary,
       pa_publication_eligible_runs := coalesce_adjacent_same_generation eligible\<rparr>"

definition allocator_reusable_runs :: "u64 \<Rightarrow> u64 \<Rightarrow> FreePageRun list \<Rightarrow> FreePageRun list \<Rightarrow> PageAllocator" where
  "allocator_reusable_runs page_count txn_gen current_free reusable =
    allocator_reusable_authorities page_count txn_gen current_free reusable reusable"

definition allocator_reusing_before :: "u64 \<Rightarrow> u64 \<Rightarrow> FreePageRun list \<Rightarrow> u64 \<Rightarrow> PageAllocator" where
  "allocator_reusing_before page_count txn_gen free before = (allocator_new page_count txn_gen free)\<lparr>pa_reuse_before := Some before\<rparr>"

fun captured_valid :: "u64 \<Rightarrow> u64 \<Rightarrow> u64 \<Rightarrow> CapturedFreeRun list \<Rightarrow> bool" where
  "captured_valid page_count bound prior_cursor [] = True"
| "captured_valid page_count bound prior_cursor (c # cs) =
    (\<not> (fr_len (cf_run c) = 0 \<or> cf_cursor_start c < prior_cursor
        \<or> cf_cursor_end c \<noteq> saturating_add (cf_cursor_start c) (fr_len (cf_run c))
        \<or> cf_cursor_end c > page_count \<or> fr_end (cf_run c) > bound)
     \<and> captured_valid page_count bound (cf_cursor_end c) cs)"

definition install_captured_free_authority :: "PageAllocator \<Rightarrow> CapturedFreeAllocationAuthority \<Rightarrow> PageAllocator res" where
  "install_captured_free_authority a auth =
    (if ca_consumed_through auth > ca_page_count auth then Inl CorruptObject
     else if \<not> captured_valid (ca_page_count auth) (pa_end a) (ca_consumed_through auth) (ca_runs auth) then Inl CorruptObject
     else Inr (a\<lparr>pa_captured := Some auth\<rparr>))"

definition active_in_range :: "PageAllocator \<Rightarrow> u64 \<Rightarrow> u64 \<Rightarrow> bool" where
  "active_in_range a lo hi \<longleftrightarrow> (\<exists>p \<in> pa_active a. lo \<le> p \<and> p < hi)"

fun install_extents :: "PageAllocator \<Rightarrow> (u64 \<times> u64) list \<Rightarrow> MetadataBootstrapExtent list \<Rightarrow> (u64 \<times> u64) list res" where
  "install_extents a acc [] = Inr acc"
| "install_extents a acc (e # es) =
    (if active_in_range a (be_start e) (saturating_add (be_start e) (be_len e))
        \<or> list_ex (\<lambda>(start, len, _). ranges_overlap start len (be_start e) (be_len e)) (pa_free a)
     then Inl CorruptObject
     else install_extents a (bt_insert (be_start e) (be_len e) acc) es)"

definition install_metadata_bootstrap_reserve :: "PageAllocator \<Rightarrow> MetadataBootstrapReserve \<Rightarrow> PageAllocator res" where
  "install_metadata_bootstrap_reserve a r =
    (if br_capacity r = 0 \<and> br_extents r = []
     then Inr (a\<lparr>pa_bootstrap := [], pa_bootstrap_generation := br_owning_generation r\<rparr>)
     else rbind (map_err (\<lambda>_. CorruptObject) (reserve_validate r (pa_end a))) (\<lambda>_.
       if br_capacity r \<noteq> METADATA_BOOTSTRAP_CAPACITY_PAGES then Inl CorruptObject
       else rbind (install_extents a [] (br_extents r)) (\<lambda>m.
         Inr (a\<lparr>pa_bootstrap := m, pa_bootstrap_generation := br_owning_generation r\<rparr>))))"

definition metadata_bootstrap_page_count :: "PageAllocator \<Rightarrow> u64" where
  "metadata_bootstrap_page_count a = sum_list (map snd (pa_bootstrap a))"

definition metadata_bootstrap_descriptor :: "PageAllocator \<Rightarrow> u64 \<Rightarrow> MetadataBootstrapReserve" where
  "metadata_bootstrap_descriptor a owning_generation =
    \<lparr>br_owning_generation = owning_generation, br_capacity = METADATA_BOOTSTRAP_CAPACITY_PAGES,
     br_extents = map (\<lambda>(start, len). \<lparr>be_start = start, be_len = len\<rparr>) (pa_bootstrap a)\<rparr>"

section \<open>Tracking of changed extents\<close>

definition mark_free_map_dirty :: "PageAllocator \<Rightarrow> u64 \<Rightarrow> u64 \<Rightarrow> PageAllocator" where
  "mark_free_map_dirty a start len =
    (if pa_suppress a \<or> len = 0 then a
     else case merge_range (\<lambda>_ e. e) start (saturating_add start len) (pa_dirty a) of (merged_start, merged_end, m) \<Rightarrow>
       a\<lparr>pa_dirty := bt_insert merged_start merged_end m\<rparr>)"

definition note_committed_extent_delete :: "PageAllocator \<Rightarrow> u64 \<Rightarrow> PageAllocator" where
  "note_committed_extent_delete a start =
    (case map_of (pa_initial_free_by_start a) start of
       Some initial \<Rightarrow> mark_free_map_dirty a (fr_start initial) (fr_len initial)
     | None \<Rightarrow> a)"

definition note_extent_upsert :: "PageAllocator \<Rightarrow> FreePageRun \<Rightarrow> PageAllocator" where
  "note_extent_upsert a run = mark_free_map_dirty a (fr_start run) (fr_len run)"

text \<open>Putting a run back into the free map, and cutting the pages of a selection out of one of its runs.\<close>

definition put_free_run :: "PageAllocator \<Rightarrow> FreePageRun \<Rightarrow> PageAllocator" where
  "put_free_run a run = note_extent_upsert (a\<lparr>pa_free := bt_insert (fr_start run) (fr_len run, fr_freed_gen run) (pa_free a)\<rparr>) run"

definition carve_free :: "PageAllocator \<Rightarrow> u64 \<Rightarrow> u64 \<Rightarrow> u64 \<Rightarrow> u64 \<Rightarrow> u64 \<Rightarrow> PageAllocator" where
  "carve_free a start fin g lo hi =
    (let a1 = note_committed_extent_delete (a\<lparr>pa_free := bt_remove start (pa_free a)\<rparr>) start;
         a2 = (if start < lo then put_free_run a1 (free_run start (lo - start) g) else a1)
     in if hi < fin then put_free_run a2 (free_run hi (fin - hi) g) else a2)"

section \<open>Taking pages\<close>

definition extend :: "PageAllocator \<Rightarrow> u64 \<Rightarrow> PageId \<times> PageAllocator" where
  "extend a n = (pa_end a, a\<lparr>pa_end := pa_end a + n\<rparr>)"

definition take_publication_reserve :: "PageAllocator \<Rightarrow> u64 \<Rightarrow> (u64 \<times> PageAllocator) option" where
  "take_publication_reserve a n =
    (case find_map (\<lambda>(start, len, _). if len \<ge> n then Some start else None) (pa_publication_reserve a) of
       None \<Rightarrow> None
     | Some start \<Rightarrow>
       let (len, g) = (case map_of (pa_publication_reserve a) start of Some v \<Rightarrow> v | None \<Rightarrow> (0, 0));
           a1 = note_committed_extent_delete (a\<lparr>pa_publication_reserve := bt_remove start (pa_publication_reserve a)\<rparr>) start
       in Some (start,
            if len > n
            then note_extent_upsert (a1\<lparr>pa_publication_reserve := bt_insert (start + n) (len - n, g) (pa_publication_reserve a1)\<rparr>)
                   (free_run (start + n) (len - n) g)
            else a1))"

definition txn_freed_hit :: "PageAllocator \<Rightarrow> u64 \<Rightarrow> (u64 \<times> u64) option" where
  "txn_freed_hit a n =
    find_map (\<lambda>(start, len).
      if start \<ge> pa_start_end a \<and> len \<ge> n then Some (start, start)
      else let run_end = saturating_add start len
        in find_map (\<lambda>(allocated, allocated_len).
             let allocation_start = max start allocated;
                 allocation_end = min run_end (saturating_add allocated allocated_len)
             in if saturating_add allocation_start n \<le> allocation_end then Some (start, allocation_start) else None)
           (pa_allocated_runs a)) (pa_txn_freed a)"

definition put_txn_run :: "PageAllocator \<Rightarrow> u64 \<Rightarrow> u64 \<Rightarrow> PageAllocator" where
  "put_txn_run a start len =
    note_extent_upsert (a\<lparr>pa_txn_freed := bt_insert start len (pa_txn_freed a)\<rparr>) (free_run start len (pa_txn_gen a))"

definition take_txn_freed :: "PageAllocator \<Rightarrow> u64 \<Rightarrow> (u64 \<times> PageAllocator) option" where
  "take_txn_freed a n =
    (case txn_freed_hit a n of
       None \<Rightarrow> None
     | Some (run_start, allocation_start) \<Rightarrow>
       let len = (case map_of (pa_txn_freed a) run_start of Some l \<Rightarrow> l | None \<Rightarrow> 0);
           a1 = note_committed_extent_delete (a\<lparr>pa_txn_freed := bt_remove run_start (pa_txn_freed a)\<rparr>) run_start;
           a2 = (if allocation_start > run_start then put_txn_run a1 run_start (allocation_start - run_start) else a1);
           run_end = saturating_add run_start len;
           allocation_end = saturating_add allocation_start n
       in Some (allocation_start,
            if allocation_end < run_end then put_txn_run a2 allocation_end (run_end - allocation_end) else a2))"

definition within_bound :: "PageAllocator \<Rightarrow> u64 \<Rightarrow> bool" where
  "within_bound a fin = (case pa_reuse_before a of Some before \<Rightarrow> fin \<le> before | None \<Rightarrow> True)"

definition reusable_hit :: "PageAllocator \<Rightarrow> FreePageRun list \<Rightarrow> u64 \<Rightarrow> (u64 \<times> u64) option" where
  "reusable_hit a reusable n =
    find_map (\<lambda>allowed.
      find_map (\<lambda>(start, len, g).
        let fin = saturating_add start len; allocation_start = max start (fr_start allowed)
        in if g = fr_freed_gen allowed \<and> within_bound a (saturating_add allocation_start n)
              \<and> saturating_add allocation_start n \<le> fin \<and> saturating_add allocation_start n \<le> fr_end allowed
           then Some (start, allocation_start) else None) (pa_free a)) reusable"

definition take_aged :: "PageAllocator \<Rightarrow> u64 \<Rightarrow> (u64 \<times> PageAllocator) option" where
  "take_aged a n =
    (case pa_reusable_runs a of
       Some reusable \<Rightarrow>
         if pa_reuse_before a = Some 0 then None
         else (case reusable_hit a reusable n of
           None \<Rightarrow> None
         | Some (run_start, allocation_start) \<Rightarrow>
           let (len, g) = (case map_of (pa_free a) run_start of Some v \<Rightarrow> v | None \<Rightarrow> (0, 0))
           in Some (allocation_start,
                carve_free a run_start (saturating_add run_start len) g allocation_start (saturating_add allocation_start n)))
     | None \<Rightarrow>
       (case find_map (\<lambda>(s, len, g). if len \<ge> n \<and> within_bound a (saturating_add s n)
              \<and> (pa_reuse_current_free a \<or> g + REUSE_SAFE_WINDOW \<le> pa_txn_gen a) then Some s else None) (pa_free a) of
          None \<Rightarrow> None
        | Some start \<Rightarrow>
          let (len, g) = (case map_of (pa_free a) start of Some v \<Rightarrow> v | None \<Rightarrow> (0, 0));
              a1 = note_committed_extent_delete (a\<lparr>pa_free := bt_remove start (pa_free a)\<rparr>) start
          in Some (start, if len > n then put_free_run a1 (free_run (start + n) (len - n) g) else a1)))"

text \<open>The scan of one captured run: it moves the cursor over pages that are still free in one extent of the
  expected generation, and stops at the first stretch that is long enough.\<close>

function captured_scan :: "(u64 \<times> u64 \<times> u64) list \<Rightarrow> u64 \<Rightarrow> CapturedFreeRun \<Rightarrow> u64 \<Rightarrow> u64 \<Rightarrow> (u64 \<times> u64) option \<times> u64" where
  "captured_scan free n c page cursor =
    (if page < fr_end (cf_run c) then
       (case bt_floor page free of
          None \<Rightarrow> (None, cf_cursor_end c)
        | Some (free_start, free_len, g) \<Rightarrow>
          let free_end = saturating_add free_start free_len
          in if page < free_start \<or> page \<ge> free_end \<or> g \<noteq> fr_freed_gen (cf_run c) then (None, cf_cursor_end c)
             else let available_end = min free_end (fr_end (cf_run c)); available = saturating_sub available_end page
               in if available < n then captured_scan free n c available_end (saturating_add cursor available)
                  else (Some (page, free_start), cursor))
     else (None, cursor))"
  by pat_completeness auto
termination
  by (relation "measure (\<lambda>(free, n, c, page, cursor). unat (fr_end (cf_run c)) - unat page)")
    (auto simp: word_less_nat_alt min_def not_le diff_less_mono2)

declare captured_scan.simps [simp del]

fun captured_hit :: "(u64 \<times> u64 \<times> u64) list \<Rightarrow> u64 \<Rightarrow> u64 \<Rightarrow> CapturedFreeRun list \<Rightarrow> (u64 \<times> u64 \<times> u64) option" where
  "captured_hit free n cursor [] = None"
| "captured_hit free n cursor (c # cs) =
    (if cf_cursor_end c \<le> cursor then captured_hit free n cursor cs
     else let cursor1 = max cursor (cf_cursor_start c);
              page = saturating_add (fr_start (cf_run c)) (saturating_sub cursor1 (cf_cursor_start c))
       in case captured_scan free n c page cursor1 of
            (Some (p, free_start), cursor2) \<Rightarrow> Some (p, free_start, cursor2)
          | (None, cursor2) \<Rightarrow> captured_hit free n (max cursor2 (cf_cursor_end c)) cs)"

definition take_captured_free :: "PageAllocator \<Rightarrow> u64 \<Rightarrow> u64 option \<times> PageAllocator" where
  "take_captured_free a n =
    (case pa_captured a of
       None \<Rightarrow> (None, a)
     | Some auth \<Rightarrow>
       (case captured_hit (pa_free a) n (ca_consumed_through auth) (ca_runs auth) of
          Some (page, free_start, cursor) \<Rightarrow>
            let (len, g) = (case map_of (pa_free a) free_start of Some v \<Rightarrow> v | None \<Rightarrow> (0, 0));
                a1 = carve_free a free_start (saturating_add free_start len) g page (saturating_add page n)
            in (Some page, a1\<lparr>pa_captured := Some (auth\<lparr>ca_consumed_through := saturating_add cursor n\<rparr>)\<rparr>)
        | None \<Rightarrow> (None, a\<lparr>pa_captured := Some (auth\<lparr>ca_consumed_through := ca_page_count auth\<rparr>)\<rparr>)))"

definition page_range :: "u64 \<Rightarrow> u64 \<Rightarrow> u64 set" where
  "page_range lo hi = set (map word_of_nat [unat lo ..< unat hi])"

definition alloc_page :: "PageAllocator \<Rightarrow> u64 \<Rightarrow> PageId \<times> PageAllocator" where
  "alloc_page a n =
    (if pa_publication_reserve_active a then
       (case take_publication_reserve a n of Some r \<Rightarrow> r | None \<Rightarrow> extend a n)
     else case take_txn_freed a n of Some r \<Rightarrow> r | None \<Rightarrow>
       (case take_aged a n of Some r \<Rightarrow> r | None \<Rightarrow>
         (case take_captured_free a n of (Some start, a') \<Rightarrow> (start, a') | (None, a') \<Rightarrow> extend a' n)))"

definition alloc :: "PageAllocator \<Rightarrow> u64 \<Rightarrow> PageId \<times> PageAllocator" where
  "alloc a n =
    (case alloc_page a n of (page, a') \<Rightarrow>
      (page, a'\<lparr>pa_allocated_runs := pa_allocated_runs a' @ [(page, n)],
                pa_active := pa_active a' \<union> page_range page (saturating_add page n)\<rparr>))"

section \<open>The publication reserve\<close>

definition activate_publication_reserve :: "PageAllocator \<Rightarrow> PageAllocator" where
  "activate_publication_reserve a = a\<lparr>pa_publication_reserve_active := True\<rparr>"

definition reserve_piece :: "FreePageRun \<Rightarrow> u64 \<times> u64 \<times> u64 \<Rightarrow> PageAllocator \<Rightarrow> PageAllocator" where
  "reserve_piece reserved x a =
    (case x of (start, len, g) \<Rightarrow>
      let fin = saturating_add start len; lo = max start (fr_start reserved); hi = min fin (fr_end reserved)
      in if lo \<ge> hi then a
         else let a1 = carve_free a start fin g lo hi;
                  a2 = note_extent_upsert (a1\<lparr>pa_publication_reserve := bt_insert lo (hi - lo, g) (pa_publication_reserve a1)\<rparr>)
                         (free_run lo (hi - lo) g)
           in a2\<lparr>pa_publication_reserved_pages := saturating_add (pa_publication_reserved_pages a2) (hi - lo)\<rparr>)"

definition reserve_publication_run :: "PageAllocator \<Rightarrow> FreePageRun \<Rightarrow> PageAllocator" where
  "reserve_publication_run a reserved =
    fold (reserve_piece reserved)
      (filter (\<lambda>(start, len, g). start < fr_end reserved \<and> saturating_add start len > fr_start reserved) (pa_free a)) a"

definition reserve_run_check :: "PageAllocator \<Rightarrow> FreePageRun \<Rightarrow> unit res" where
  "reserve_run_check a run =
    (let fin = fr_start run + fr_len run
     in if fin > pa_end a then Inl InvalidArgument
        else if active_in_range a (fr_start run) fin then Inl InvalidArgument
        else case bt_floor (fr_start run) (pa_free a) of
          None \<Rightarrow> Inl InvalidArgument
        | Some (free_start, free_len, g) \<Rightarrow>
          if fr_start run < free_start \<or> fin > saturating_add free_start free_len \<or> fr_freed_gen run \<noteq> g then Inl InvalidArgument
          else if \<not> within_bound a fin
                  \<or> \<not> list_ex (\<lambda>allowed. fr_start run \<ge> fr_start allowed \<and> fin \<le> fr_end allowed
                          \<and> fr_freed_gen run = fr_freed_gen allowed) (pa_publication_eligible_runs a)
          then Inl InvalidArgument
          else Inr ())"

definition install_publication_reserve :: "PageAllocator \<Rightarrow> FreePageRun list \<Rightarrow> PageAllocator res" where
  "install_publication_reserve a selected =
    (if pa_publication_reserve_active a then Inl InvalidArgument
     else rbind (normalize_publication_reserve_selection selected) (\<lambda>normalized.
       rbind (rmap (reserve_run_check a) normalized) (\<lambda>_.
         Inr (fold (\<lambda>run b. reserve_publication_run b run) normalized a))))"

section \<open>The metadata reserve\<close>

text \<open>An error of the three operations below ends the transaction, and with it the allocator.\<close>

definition reserve_metadata_bootstrap_run ::
  "PageAllocator \<Rightarrow> u64 \<Rightarrow> u64 \<Rightarrow> u64 \<Rightarrow> u64 \<Rightarrow> u64 \<Rightarrow> PageAllocator res" where
  "reserve_metadata_bootstrap_run a free_start free_len g selected_start selected_len =
    (let free_end = saturating_add free_start free_len; selected_end = saturating_add selected_start selected_len
     in if selected_len = 0 \<or> selected_start < free_start \<or> selected_end > free_end
           \<or> active_in_range a selected_start selected_end then Inl CorruptObject
        else rbind (insert_bootstrap_extent (pa_bootstrap a) selected_start selected_len) (\<lambda>next_reserve.
          Inr ((carve_free a free_start free_end g selected_start selected_end)\<lparr>pa_bootstrap := next_reserve\<rparr>)))"

fun refill_candidates ::
  "(u64 \<times> u64 \<times> u64 \<times> u64 \<times> u64) list \<Rightarrow> u64 \<Rightarrow> PageAllocator \<Rightarrow> (u64 \<times> PageAllocator) res" where
  "refill_candidates [] refill a = Inr (refill, a)"
| "refill_candidates ((start, len, g, lo, hi) # cs) refill a =
    (if refill = 0 \<or> length (pa_bootstrap a) \<ge> METADATA_BOOTSTRAP_MAX_EXTENTS - 1 then Inr (refill, a)
     else let n = min refill (saturating_sub hi lo)
       in rbind (reserve_metadata_bootstrap_run a start len g lo n) (\<lambda>a'. refill_candidates cs (refill - n) a'))"

definition refill_selection :: "(u64 \<times> u64 \<times> u64) list \<Rightarrow> FreePageRun \<Rightarrow> (u64 \<times> u64 \<times> u64 \<times> u64 \<times> u64) list" where
  "refill_selection free allowed =
    List.map_filter (\<lambda>(start, len, g).
      let lo = max start (fr_start allowed); hi = min (saturating_add start len) (fr_end allowed)
      in if start < fr_end allowed \<and> lo < hi \<and> g = fr_freed_gen allowed then Some (start, len, g, lo, hi) else None) free"

fun refill_from :: "FreePageRun list \<Rightarrow> u64 \<Rightarrow> PageAllocator \<Rightarrow> (u64 \<times> PageAllocator) res" where
  "refill_from [] refill a = Inr (refill, a)"
| "refill_from (allowed # rest) refill a =
    (if refill = 0 \<or> length (pa_bootstrap a) \<ge> METADATA_BOOTSTRAP_MAX_EXTENTS - 1 then Inr (refill, a)
     else rbind (refill_candidates (refill_selection (pa_free a) allowed) refill a) (\<lambda>(refill', a'). refill_from rest refill' a'))"

definition extend_bootstrap :: "PageAllocator \<Rightarrow> u64 \<Rightarrow> PageAllocator res" where
  "extend_bootstrap a n =
    rbind (ok_or CorruptObject (checked_add (pa_end a) n)) (\<lambda>fin.
    rbind (insert_bootstrap_extent (pa_bootstrap a) (pa_end a) n) (\<lambda>m.
      Inr (a\<lparr>pa_end := fin, pa_bootstrap := m\<rparr>)))"

definition ensure_metadata_bootstrap_capacity :: "PageAllocator \<Rightarrow> PageAllocator res" where
  "ensure_metadata_bootstrap_capacity a =
    (let current = metadata_bootstrap_page_count a
     in if current > METADATA_BOOTSTRAP_REFILL_THRESHOLD_PAGES then Inr a
        else let refill = saturating_sub METADATA_BOOTSTRAP_TARGET_PAGES current
          in if refill = 0 then Inr a
             else rbind (refill_from (pa_publication_eligible_runs a) refill a) (\<lambda>(refill', a').
               if refill' = 0 then Inr a' else extend_bootstrap a' refill'))"

function take_bootstrap :: "u64 \<Rightarrow> PageAllocator \<Rightarrow> PageId list \<Rightarrow> (PageId list \<times> PageAllocator) res" where
  "take_bootstrap remaining a acc =
    (if remaining = 0 then Inr (acc, a)
     else case pa_bootstrap a of
       [] \<Rightarrow> Inl CorruptObject
     | (start, len) # m \<Rightarrow>
       let n = min len remaining;
           a' = a\<lparr>pa_bootstrap := (if n < len then bt_insert (start + n) (len - n) m else m),
                  pa_allocated_runs := pa_allocated_runs a @ [(start, n)],
                  pa_active := pa_active a \<union> page_range start (start + n)\<rparr>
       in take_bootstrap (remaining - n) a' (acc @ map word_of_nat [unat start ..< unat start + unat n]))"
  by pat_completeness auto
termination
proof (relation "measures [\<lambda>(r, a, acc). unat r, \<lambda>(r, a, acc). length (pa_bootstrap a)]")
  fix r :: u64 and a acc entry m start len n a'
  assume r: "r \<noteq> 0" and b: "pa_bootstrap a = entry # m" and e: "(start, len) = entry" and n: "n = min len r"
    and a': "a' = a\<lparr>pa_bootstrap := (if n < len then bt_insert (start + n) (len - n) m else m),
      pa_allocated_runs := pa_allocated_runs a @ [(start, n)], pa_active := pa_active a \<union> page_range start (start + n)\<rparr>"
  show "((r - n, a', acc @ map word_of_nat [unat start ..< unat start + unat n]), r, a, acc)
      \<in> measures [\<lambda>(r, a, acc). unat r, \<lambda>(r, a, acc). length (pa_bootstrap a)]"
  proof (cases "n = 0")
    case True
    then have "len = 0" using n r by (auto simp: min_def split: if_splits)
    then show ?thesis using True b a' by simp
  next
    case False
    have "n \<le> r" by (simp add: n)
    then have "unat (r - n) < unat r" using False unat_gt_0 [of n] by (simp add: unat_sub word_le_nat_alt)
    then show ?thesis by simp
  qed
qed simp

declare take_bootstrap.simps [simp del]

definition alloc_metadata_bootstrap_pages :: "PageAllocator \<Rightarrow> u64 \<Rightarrow> (PageId list \<times> PageAllocator) res" where
  "alloc_metadata_bootstrap_pages a pages =
    (if pages > FOREGROUND_TRANSACTION_METADATA_LIMIT_PAGES then Inl ResourceExhausted
     else let current = metadata_bootstrap_page_count a
       in rbind (if current < pages then extend_bootstrap a (pages - current) else Inr a) (\<lambda>a'. take_bootstrap pages a' []))"

section \<open>Freeing pages\<close>

definition validate_free_span :: "PageAllocator \<Rightarrow> PageId \<Rightarrow> u64 \<Rightarrow> u64 res" where
  "validate_free_span a start len =
    (if len = 0 then Inl CorruptObject
     else rbind (ok_or CorruptObject (checked_add start len)) (\<lambda>fin.
       if fin > pa_end a then Inl CorruptObject else Inr fin))"

definition metadata_bootstrap_reserve_overlaps :: "PageAllocator \<Rightarrow> PageId \<Rightarrow> u64 \<Rightarrow> bool" where
  "metadata_bootstrap_reserve_overlaps a start n =
    list_ex (\<lambda>(reserve_start, reserve_len). ranges_overlap start n reserve_start reserve_len) (pa_bootstrap a)"

definition note_new_extent_changes :: "PageAllocator \<Rightarrow> TxnRunChanges \<Rightarrow> PageAllocator" where
  "note_new_extent_changes a ch =
    (let a1 = fold (\<lambda>start b. mark_free_map_dirty b start 1) (tc_removed_starts ch) a;
         inserted_end = saturating_add (tc_inserted_start ch) (tc_inserted_len ch);
         overlaps = map fst (filter (\<lambda>(start, len, _). start < inserted_end \<and> saturating_add start len > tc_inserted_start ch) (pa_free a1));
         a2 = fold (\<lambda>start b. note_committed_extent_delete (b\<lparr>pa_free := bt_remove start (pa_free b)\<rparr>) start) overlaps a1
     in note_extent_upsert a2 (free_run (tc_inserted_start ch) (tc_inserted_len ch) (pa_txn_gen a)))"

text \<open>On an error of \<open>insert_txn_run\<close> the pages have already left the set of active pages.\<close>

definition free_pages :: "PageAllocator \<Rightarrow> PageId \<Rightarrow> u64 \<Rightarrow> unit res \<times> PageAllocator" where
  "free_pages a start n =
    (case validate_free_span a start n of
       Inl e \<Rightarrow> (Inl e, a)
     | Inr fin \<Rightarrow>
       if metadata_bootstrap_reserve_overlaps a start n then (Inl CorruptObject, a)
       else let a1 = a\<lparr>pa_active := pa_active a - page_range start fin\<rparr>
         in if pa_suppress a then (Inr (), a1)
            else case insert_txn_run (pa_txn_freed a1) start fin of
              Inl e \<Rightarrow> (Inl e, a1)
            | Inr (ch, runs) \<Rightarrow> (Inr (), note_new_extent_changes (a1\<lparr>pa_txn_freed := runs\<rparr>) ch))"

definition defer_free :: "PageAllocator \<Rightarrow> PageId \<Rightarrow> u64 \<Rightarrow> unit res \<times> PageAllocator" where
  "defer_free a start n =
    (case validate_free_span a start n of
       Inl e \<Rightarrow> (Inl e, a)
     | Inr fin \<Rightarrow>
       if metadata_bootstrap_reserve_overlaps a start n then (Inl CorruptObject, a)
       else let a1 = a\<lparr>pa_active := pa_active a - page_range start fin\<rparr>
         in if pa_suppress a then (Inr (), a1)
            else case insert_txn_run (pa_deferred a1) start fin of
              Inl e \<Rightarrow> (Inl e, a1)
            | Inr (ch, runs) \<Rightarrow> (Inr (), note_new_extent_changes (a1\<lparr>pa_deferred := runs\<rparr>) ch))"

definition allocated_in_transaction :: "PageAllocator \<Rightarrow> PageId \<Rightarrow> bool" where
  "allocated_in_transaction a page = (page \<in> pa_active a)"

definition snapshot_free :: "PageAllocator \<Rightarrow> FreePageRun list" where
  "snapshot_free a = coalesce_free_runs
    (map (\<lambda>(start, len, g). free_run start len g) (pa_free a)
     @ map (\<lambda>(start, len). free_run start len (pa_txn_gen a)) (pa_txn_freed a)
     @ map (\<lambda>(start, len). free_run start len (pa_txn_gen a)) (pa_deferred a)
     @ map (\<lambda>(start, len, g). free_run start len g) (pa_publication_reserve a))"

datatype FreeMapExtentUpdate = Delete FreePageRun | Upsert FreePageRun

text \<open>The runs of a map that meet a range: the last one below it when it reaches in, then those that start inside.\<close>

definition runs_intersecting :: "(u64 \<times> FreePageRun) list \<Rightarrow> u64 \<Rightarrow> u64 \<Rightarrow> FreePageRun list" where
  "runs_intersecting m start fin =
    (let below = filter (\<lambda>(k, _). k < start) m
     in (if below \<noteq> [] \<and> fr_end (snd (List.last below)) > start then [snd (List.last below)] else [])
        @ filter (\<lambda>run. fr_start run < fin \<and> fr_end run > start) (map snd (filter (\<lambda>(k, _). start \<le> k \<and> k < fin) m)))"

definition collect_prior_free_runs :: "(u64 \<times> u64 \<times> u64) list \<Rightarrow> u64 \<Rightarrow> u64 \<Rightarrow> FreePageRun list" where
  "collect_prior_free_runs m start fin = runs_intersecting (map (\<lambda>(s, len, g). (s, free_run s len g)) m) start fin"

definition collect_transaction_free_runs :: "(u64 \<times> u64) list \<Rightarrow> u64 \<Rightarrow> u64 \<Rightarrow> u64 \<Rightarrow> FreePageRun list" where
  "collect_transaction_free_runs m g start fin = runs_intersecting (map (\<lambda>(s, len). (s, free_run s len g)) m) start fin"

definition final_free_runs_intersecting :: "PageAllocator \<Rightarrow> u64 \<Rightarrow> u64 \<Rightarrow> FreePageRun list" where
  "final_free_runs_intersecting a start fin = coalesce_free_runs
    (collect_prior_free_runs (pa_free a) start fin
     @ collect_transaction_free_runs (pa_txn_freed a) (pa_txn_gen a) start fin
     @ collect_transaction_free_runs (pa_deferred a) (pa_txn_gen a) start fin
     @ collect_prior_free_runs (pa_publication_reserve a) start fin)"

definition dirty_free_map_extent_updates :: "PageAllocator \<Rightarrow> FreeMapExtentUpdate list" where
  "dirty_free_map_extent_updates a =
    concat (map (\<lambda>(start, fin).
      let initial_runs = runs_intersecting (pa_initial_free_by_start a) start fin;
          final_runs = final_free_runs_intersecting a start fin
      in if initial_runs = final_runs then [] else map Delete initial_runs @ map Upsert final_runs) (pa_dirty a))"

definition take_free_map_extent_updates :: "PageAllocator \<Rightarrow> FreeMapExtentUpdate list \<times> PageAllocator" where
  "take_free_map_extent_updates a = (dirty_free_map_extent_updates a, a\<lparr>pa_dirty := []\<rparr>)"

end
