(* ===== verification/Loom_Alloc.thy ===== *)
theory Loom_Alloc
  imports Loom_Pagemap
begin

text \<open>
  Page accounting of the allocator: which pages a map of runs covers, that every operation moves whole runs
  between the live pages and the free maps, and so that no page is handed out twice, none is lost, and none
  that the last committed generation refers to is overwritten.
\<close>

section \<open>Pages of a map of runs\<close>

definition run_pages :: "u64 \<Rightarrow> u64 \<Rightarrow> nat set" where
  "run_pages s l = {unat s ..< unat s + unat l}"

definition pages_of :: "(u64 \<times> u64 \<times> 'g) list \<Rightarrow> nat set" where
  "pages_of m = (\<Union>(s, l, g) \<in> set m. run_pages s l)"

definition page_gens :: "(u64 \<times> u64 \<times> 'g) list \<Rightarrow> (nat \<times> 'g) set" where
  "page_gens m = (\<Union>(s, l, g) \<in> set m. run_pages s l \<times> {g})"

definition tagged :: "(u64 \<times> u64) list \<Rightarrow> (u64 \<times> u64 \<times> unit) list" where
  "tagged m = map (\<lambda>(s, l). (s, l, ())) m"

definition runs_ok :: "nat \<Rightarrow> (u64 \<times> u64 \<times> 'g) list \<Rightarrow> bool" where
  "runs_ok B m \<longleftrightarrow> bt_sorted m \<and> (\<forall>s l g. (s, l, g) \<in> set m \<longrightarrow> 0 < unat l \<and> unat s + unat l \<le> B)
     \<and> (\<forall>s l g s' l' g'. (s, l, g) \<in> set m \<longrightarrow> (s', l', g') \<in> set m \<longrightarrow> s \<noteq> s' \<longrightarrow> run_pages s l \<inter> run_pages s' l' = {})"

lemma pages_of_gens: "pages_of m = fst ` page_gens m"
  by (force simp: pages_of_def page_gens_def)

lemma page_gens_Nil [simp]: "page_gens [] = {}" "pages_of [] = {}" "runs_ok B []"
  by (simp_all add: page_gens_def pages_of_def runs_ok_def)

lemma page_gensI: "(s, l, g) \<in> set m \<Longrightarrow> p \<in> run_pages s l \<Longrightarrow> (p, g) \<in> page_gens m"
  by (auto simp: page_gens_def)

lemma page_gensE:
  assumes "(p, g) \<in> page_gens m"
  obtains s l where "(s, l, g) \<in> set m" "p \<in> run_pages s l"
  using assms by (auto simp: page_gens_def)

lemma set_bt_remove: "set (bt_remove k m) = {x \<in> set m. fst x \<noteq> k}"
  by (auto simp: bt_remove_def)

lemma set_bt_insert_new: "k \<notin> fst ` set m \<Longrightarrow> set (bt_insert k v m) = insert (k, v) (set m)"
  by (induction k v m rule: bt_insert.induct) auto

lemma runs_okD: "runs_ok B m \<Longrightarrow> (s, l, g) \<in> set m \<Longrightarrow> 0 < unat l \<and> unat s + unat l \<le> B"
  by (auto simp: runs_ok_def)

lemma runs_ok_disjoint:
  "runs_ok B m \<Longrightarrow> (s, l, g) \<in> set m \<Longrightarrow> (s', l', g') \<in> set m \<Longrightarrow> s \<noteq> s' \<Longrightarrow> run_pages s l \<inter> run_pages s' l' = {}"
  unfolding runs_ok_def by blast

lemma runs_ok_same:
  assumes "runs_ok B m" "(s, l, g) \<in> set m" "(s, l', g') \<in> set m"
  shows "l = l' \<and> g = g'"
proof -
  have "distinct (map fst m)" using assms(1) by (auto simp: runs_ok_def intro: bt_sorted_distinct)
  with assms(2,3) show ?thesis by (metis Some_eq_map_of_iff option.inject prod.inject)
qed

lemma map_of_runs: "runs_ok B m \<Longrightarrow> (s, l, g) \<in> set m \<Longrightarrow> map_of m s = Some (l, g)"
  by (simp add: runs_ok_def bt_sorted_distinct)

lemma pages_of_bound: "runs_ok B m \<Longrightarrow> pages_of m \<subseteq> {..<B}"
  by (auto simp: pages_of_def run_pages_def dest!: runs_okD)

lemma runs_okI:
  assumes "bt_sorted m" and "\<And>s l g. (s, l, g) \<in> set m \<Longrightarrow> 0 < unat l \<and> unat s + unat l \<le> B"
    and "\<And>s l g s' l' g'. (s, l, g) \<in> set m \<Longrightarrow> (s', l', g') \<in> set m \<Longrightarrow> s \<noteq> s' \<Longrightarrow> run_pages s l \<inter> run_pages s' l' = {}"
  shows "runs_ok B m"
  using assms unfolding runs_ok_def by blast

lemma runs_ok_mono: "runs_ok B m \<Longrightarrow> B \<le> B' \<Longrightarrow> runs_ok B' m"
  unfolding runs_ok_def by (meson le_trans)

lemma page_gens_unique:
  assumes "runs_ok B m" "(p, g) \<in> page_gens m" "(p, g') \<in> page_gens m"
  shows "g = g'"
proof -
  from assms(2) obtain s l where r: "(s, l, g) \<in> set m" "p \<in> run_pages s l" by (rule page_gensE)
  from assms(3) obtain s' l' where r': "(s', l', g') \<in> set m" "p \<in> run_pages s' l'" by (rule page_gensE)
  have "s = s'" using runs_ok_disjoint [OF assms(1) r(1) r'(1)] r(2) r'(2) by blast
  with runs_ok_same [OF assms(1) r(1)] r'(1) show ?thesis by blast
qed

lemma runs_ok_remove:
  assumes "runs_ok B m"
  shows "runs_ok B (bt_remove s m)"
proof (rule runs_okI)
  show "bt_sorted (bt_remove s m)" using assms by (simp add: runs_ok_def)
qed (auto simp: set_bt_remove dest: runs_okD [OF assms] runs_ok_disjoint [OF assms])

lemma page_gens_remove:
  assumes "runs_ok B m" and "(s, l, g) \<in> set m"
  shows "page_gens (bt_remove s m) = page_gens m - run_pages s l \<times> UNIV"
proof (rule set_eqI)
  fix x :: "nat \<times> 'a"
  obtain p h where x: "x = (p, h)" by force
  show "x \<in> page_gens (bt_remove s m) \<longleftrightarrow> x \<in> page_gens m - run_pages s l \<times> UNIV"
  proof
    assume "x \<in> page_gens (bt_remove s m)"
    then obtain s' l' where r: "(s', l', h) \<in> set m" "s' \<noteq> s" "p \<in> run_pages s' l'"
      unfolding x by (auto elim!: page_gensE simp: set_bt_remove)
    have "run_pages s' l' \<inter> run_pages s l = {}" using runs_ok_disjoint [OF assms(1) r(1) assms(2) r(2)] .
    with r show "x \<in> page_gens m - run_pages s l \<times> UNIV" by (auto simp: x intro: page_gensI)
  next
    assume "x \<in> page_gens m - run_pages s l \<times> UNIV"
    then obtain s' l' where r: "(s', l', h) \<in> set m" "p \<in> run_pages s' l'" and np: "p \<notin> run_pages s l"
      unfolding x by (auto elim!: page_gensE)
    have "s' \<noteq> s" using r np runs_ok_same [OF assms(1) r(1)] assms(2) by blast
    with r show "x \<in> page_gens (bt_remove s m)" unfolding x by (intro page_gensI) (auto simp: set_bt_remove)
  qed
qed

lemma run_start_in: "0 < unat l \<Longrightarrow> unat s \<in> run_pages s l"
  by (simp add: run_pages_def)

lemma runs_insert:
  assumes ok: "runs_ok B m" and l: "0 < unat l" "unat s + unat l \<le> B" and new: "run_pages s l \<inter> pages_of m = {}"
  shows "runs_ok B (bt_insert s (l, g) m)" and "page_gens (bt_insert s (l, g) m) = page_gens m \<union> run_pages s l \<times> {g}"
proof -
  have nk: "s \<notin> fst ` set m"
  proof
    assume "s \<in> fst ` set m"
    then obtain l' g' where e: "(s, l', g') \<in> set m" by force
    then have "unat s \<in> pages_of m" using runs_okD [OF ok e] by (auto simp: pages_of_def run_pages_def intro!: bexI [OF _ e])
    with new run_start_in [OF l(1)] show False by blast
  qed
  note set = set_bt_insert_new [OF nk, of "(l, g)"]
  have dis: "run_pages s l \<inter> run_pages s' l' = {}" if "(s', l', g') \<in> set m" for s' l' g'
    using new that by (force simp: pages_of_def)
  show "page_gens (bt_insert s (l, g) m) = page_gens m \<union> run_pages s l \<times> {g}"
    by (auto simp: page_gens_def set)
  show "runs_ok B (bt_insert s (l, g) m)"
  proof (rule runs_okI)
    show "bt_sorted (bt_insert s (l, g) m)" using ok by (simp add: runs_ok_def)
    show "0 < unat l' \<and> unat s' + unat l' \<le> B" if "(s', l', g') \<in> set (bt_insert s (l, g) m)" for s' l' g'
      using that l runs_okD [OF ok] unfolding set by auto
    show "run_pages a la \<inter> run_pages b lb = {}"
      if a: "(a, la, ga) \<in> set (bt_insert s (l, g) m)" and b: "(b, lb, gb) \<in> set (bt_insert s (l, g) m)" and ne: "a \<noteq> b" for a la ga b lb gb
    proof -
      consider "(a, la, ga) \<in> set m" "(b, lb, gb) \<in> set m" | "a = s" "la = l" "(b, lb, gb) \<in> set m" | "b = s" "lb = l" "(a, la, ga) \<in> set m"
        using a b ne unfolding set by auto
      then show ?thesis by cases (use dis runs_ok_disjoint [OF ok] ne in blast)+
    qed
  qed
qed

text \<open>Cutting a range out of one run of a map.\<close>

definition carve_map :: "u64 \<Rightarrow> u64 \<Rightarrow> 'g \<Rightarrow> u64 \<Rightarrow> u64 \<Rightarrow> (u64 \<times> u64 \<times> 'g) list \<Rightarrow> (u64 \<times> u64 \<times> 'g) list" where
  "carve_map s fin g lo hi m =
    (let m1 = bt_remove s m;
         m2 = (if s < lo then bt_insert s (lo - s, g) m1 else m1)
     in if hi < fin then bt_insert hi (fin - hi, g) m2 else m2)"

lemma unat_minus: "(b :: u64) \<le> a \<Longrightarrow> unat (a - b) = unat a - unat b"
  by (simp add: unat_sub)

lemma carve_sets:
  assumes "W = X \<union> Y \<union> Z" and "Y \<inter> (X \<union> Z) = {}" and "W \<times> {g} \<subseteq> G" and "\<And>p h. (p, h) \<in> G \<Longrightarrow> p \<in> W \<Longrightarrow> h = g"
  shows "G - W \<times> UNIV \<union> X \<times> {g} \<union> Z \<times> {g} = G - Y \<times> UNIV"
proof (rule set_eqI)
  fix x :: "'a \<times> 'b"
  show "x \<in> G - W \<times> UNIV \<union> X \<times> {g} \<union> Z \<times> {g} \<longleftrightarrow> x \<in> G - Y \<times> UNIV"
    using assms by (cases x) blast
qed

lemma carve_map_pages:
  assumes ok: "runs_ok B m" and r: "(s, l, g) \<in> set m" and fin: "unat fin = unat s + unat l"
    and sel: "unat s \<le> unat lo" "unat lo < unat hi" "unat hi \<le> unat fin"
  shows "runs_ok B (carve_map s fin g lo hi m)"
    and "page_gens (carve_map s fin g lo hi m) = page_gens m - {unat lo ..< unat hi} \<times> UNIV"
proof -
  define m1 where "m1 = bt_remove s m"
  define m2 where "m2 = (if s < lo then bt_insert s (lo - s, g) m1 else m1)"
  have b: "unat s + unat l \<le> B" using runs_okD [OF ok r] by simp
  have ok1: "runs_ok B m1" unfolding m1_def by (rule runs_ok_remove [OF ok])
  have g1: "page_gens m1 = page_gens m - run_pages s l \<times> UNIV" unfolding m1_def by (rule page_gens_remove [OF ok r])
  then have p1: "pages_of m1 \<inter> run_pages s l = {}" by (auto simp: pages_of_gens)
  have own: "run_pages s l \<times> {g} \<subseteq> page_gens m" using r by (auto simp: page_gens_def)
  have uniq: "h = g" if "(p, h) \<in> page_gens m" "p \<in> run_pages s l" for p h
    using page_gens_unique [OF ok that(1)] own that(2) by blast
  have pre: "run_pages s (lo - s) = {unat s ..< unat lo}" if "s < lo"
    using that by (simp add: run_pages_def unat_minus word_less_nat_alt word_le_nat_alt)
  have suf: "run_pages hi (fin - hi) = {unat hi ..< unat fin}" if "hi < fin"
    using that by (simp add: run_pages_def unat_minus word_less_nat_alt word_le_nat_alt)
  have whole: "run_pages s l = {unat s ..< unat fin}" by (simp add: run_pages_def fin)
  have sub: "{unat s ..< unat lo} \<subseteq> run_pages s l" "{unat hi ..< unat fin} \<subseteq> run_pages s l" "{unat lo ..< unat hi} \<subseteq> run_pages s l"
    "{unat lo ..< unat hi} \<inter> ({unat s ..< unat lo} \<union> {unat hi ..< unat fin}) = {}" "{unat s ..< unat lo} \<inter> {unat hi ..< unat fin} = {}"
    using sel by (auto simp: whole)
  have split: "run_pages s l = {unat s ..< unat lo} \<union> {unat lo ..< unat hi} \<union> {unat hi ..< unat fin}" using sel by (auto simp: whole)
  have st2: "runs_ok B m2 \<and> page_gens m2 = page_gens m1 \<union> {unat s ..< unat lo} \<times> {g}"
  proof (cases "s < lo")
    case True
    have "0 < unat (lo - s)" "unat s + unat (lo - s) \<le> B"
      using True sel b fin by (simp_all add: unat_minus word_less_nat_alt word_le_nat_alt)
    moreover have "run_pages s (lo - s) \<inter> pages_of m1 = {}" using p1 sub(1) unfolding pre [OF True] by blast
    ultimately show ?thesis using runs_insert [OF ok1] True by (simp add: m2_def pre)
  next
    case False
    then show ?thesis using ok1 by (simp add: m2_def word_less_nat_alt)
  qed
  have m: "carve_map s fin g lo hi m = (if hi < fin then bt_insert hi (fin - hi, g) m2 else m2)"
    by (simp add: carve_map_def m1_def m2_def Let_def)
  have res: "runs_ok B (carve_map s fin g lo hi m) \<and> page_gens (carve_map s fin g lo hi m) = page_gens m2 \<union> {unat hi ..< unat fin} \<times> {g}"
  proof (cases "hi < fin")
    case True
    have "0 < unat (fin - hi)" "unat hi + unat (fin - hi) \<le> B"
      using True sel b fin by (simp_all add: unat_minus word_less_nat_alt word_le_nat_alt)
    moreover have "pages_of m2 = pages_of m1 \<union> {unat s ..< unat lo}" using st2 by (force simp: pages_of_gens)
    then have "run_pages hi (fin - hi) \<inter> pages_of m2 = {}" using p1 sub(2,5) unfolding suf [OF True] by blast
    ultimately show ?thesis using runs_insert [of B m2] st2 True by (simp add: m suf)
  next
    case False
    then show ?thesis using st2 by (simp add: m word_less_nat_alt)
  qed
  show "runs_ok B (carve_map s fin g lo hi m)"
    and "page_gens (carve_map s fin g lo hi m) = page_gens m - {unat lo ..< unat hi} \<times> UNIV"
    using res by (auto simp: st2 g1 carve_sets [OF split sub(4) own uniq])
qed

lemma carve_map_tagged:
  "tagged (let m1 = bt_remove s m; m2 = (if s < lo then bt_insert s (lo - s) m1 else m1)
     in if hi < fin then bt_insert hi (fin - hi) m2 else m2) = carve_map s fin () lo hi (tagged m)"
proof -
  have i: "tagged (bt_insert k v n) = bt_insert k (v, ()) (tagged n)" for k v n
    by (induction k v n rule: bt_insert.induct) (auto simp: tagged_def)
  have r: "tagged (bt_remove k n) = bt_remove k (tagged n)" for k n
    by (induction n) (auto simp: tagged_def bt_remove_def)
  show ?thesis by (simp add: carve_map_def Let_def i r)
qed

section \<open>Operations as updates of the maps\<close>

text \<open>Tracking of changed extents touches no other field, so every operation is an update of the maps of runs.\<close>

lemma mark_dirty_frame: "\<exists>d. mark_free_map_dirty a s l = a\<lparr>pa_dirty := d\<rparr>"
proof (cases "pa_suppress a \<or> l = 0")
  case True
  have "a = a\<lparr>pa_dirty := pa_dirty a\<rparr>" by simp
  with True show ?thesis unfolding mark_free_map_dirty_def by metis
next
  case False
  then show ?thesis by (auto simp: mark_free_map_dirty_def split: prod.splits)
qed

lemma note_delete_frame: "\<exists>d. note_committed_extent_delete a s = a\<lparr>pa_dirty := d\<rparr>"
proof (cases "map_of (pa_initial_free_by_start a) s")
  case None
  have "a = a\<lparr>pa_dirty := pa_dirty a\<rparr>" by simp
  with None show ?thesis unfolding note_committed_extent_delete_def by (metis option.case(1))
next
  case (Some r)
  then show ?thesis using mark_dirty_frame by (simp add: note_committed_extent_delete_def)
qed

lemma note_upsert_frame: "\<exists>d. note_extent_upsert a r = a\<lparr>pa_dirty := d\<rparr>"
  unfolding note_extent_upsert_def by (rule mark_dirty_frame)

lemma put_free_frame:
  "\<exists>d. put_free_run a (free_run s l g) = a\<lparr>pa_free := bt_insert s (l, g) (pa_free a), pa_dirty := d\<rparr>"
  using note_upsert_frame [of "a\<lparr>pa_free := bt_insert s (l, g) (pa_free a)\<rparr>" "free_run s l g"]
  by (auto simp: put_free_run_def free_run_def)

lemma put_txn_frame: "\<exists>d. put_txn_run a s l = a\<lparr>pa_txn_freed := bt_insert s l (pa_txn_freed a), pa_dirty := d\<rparr>"
  using note_upsert_frame [of "a\<lparr>pa_txn_freed := bt_insert s l (pa_txn_freed a)\<rparr>" "free_run s l (pa_txn_gen a)"]
  by (auto simp: put_txn_run_def)

lemma carve_free_frame:
  "\<exists>d. carve_free a s fin g lo hi = a\<lparr>pa_free := carve_map s fin g lo hi (pa_free a), pa_dirty := d\<rparr>"
proof -
  define m1 where "m1 = bt_remove s (pa_free a)"
  obtain d1 where 1: "note_committed_extent_delete (a\<lparr>pa_free := m1\<rparr>) s = a\<lparr>pa_free := m1, pa_dirty := d1\<rparr>"
    using note_delete_frame [of "a\<lparr>pa_free := m1\<rparr>" s] by auto
  define m2 where "m2 = (if s < lo then bt_insert s (lo - s, g) m1 else m1)"
  obtain d2 where 2: "(if s < lo then put_free_run (a\<lparr>pa_free := m1, pa_dirty := d1\<rparr>) (free_run s (lo - s) g) else a\<lparr>pa_free := m1, pa_dirty := d1\<rparr>)
      = a\<lparr>pa_free := m2, pa_dirty := d2\<rparr>"
    using put_free_frame [of "a\<lparr>pa_free := m1, pa_dirty := d1\<rparr>" s "lo - s" g] by (cases "s < lo") (auto simp: m2_def)
  show ?thesis
    unfolding carve_free_def m1_def [symmetric] 1 Let_def 2 carve_map_def m2_def [symmetric]
    using put_free_frame [of "a\<lparr>pa_free := m2, pa_dirty := d2\<rparr>" hi "fin - hi" g] by (cases "hi < fin") auto
qed

lemma carve_txn_frame:
  assumes hit: "txn_freed_hit a n = Some (s, lo)" and mo: "map_of (pa_txn_freed a) s = Some l"
  shows "\<exists>d m. take_txn_freed a n = Some (lo, a\<lparr>pa_txn_freed := m, pa_dirty := d\<rparr>)
    \<and> tagged m = carve_map s (saturating_add s l) () lo (saturating_add lo n) (tagged (pa_txn_freed a))"
proof -
  define m1 where "m1 = bt_remove s (pa_txn_freed a)"
  obtain d1 where 1: "note_committed_extent_delete (a\<lparr>pa_txn_freed := m1\<rparr>) s = a\<lparr>pa_txn_freed := m1, pa_dirty := d1\<rparr>"
    using note_delete_frame [of "a\<lparr>pa_txn_freed := m1\<rparr>" s] by auto
  define m2 where "m2 = (if s < lo then bt_insert s (lo - s) m1 else m1)"
  obtain d2 where 2: "(if s < lo then put_txn_run (a\<lparr>pa_txn_freed := m1, pa_dirty := d1\<rparr>) s (lo - s) else a\<lparr>pa_txn_freed := m1, pa_dirty := d1\<rparr>)
      = a\<lparr>pa_txn_freed := m2, pa_dirty := d2\<rparr>"
    using put_txn_frame [of "a\<lparr>pa_txn_freed := m1, pa_dirty := d1\<rparr>" s "lo - s"] by (cases "s < lo") (auto simp: m2_def)
  have m: "tagged (if saturating_add lo n < saturating_add s l then bt_insert (saturating_add lo n) (saturating_add s l - saturating_add lo n) m2 else m2)
      = carve_map s (saturating_add s l) () lo (saturating_add lo n) (tagged (pa_txn_freed a))"
    unfolding m1_def m2_def by (rule carve_map_tagged [unfolded Let_def])
  have t: "take_txn_freed a n = Some (lo, if saturating_add lo n < saturating_add s l
      then put_txn_run (a\<lparr>pa_txn_freed := m2, pa_dirty := d2\<rparr>) (saturating_add lo n) (saturating_add s l - saturating_add lo n)
      else a\<lparr>pa_txn_freed := m2, pa_dirty := d2\<rparr>)"
    unfolding take_txn_freed_def hit option.case prod.case mo m1_def [symmetric] 1 Let_def 2 by (rule refl)
  show ?thesis
    using put_txn_frame [of "a\<lparr>pa_txn_freed := m2, pa_dirty := d2\<rparr>" "saturating_add lo n" "saturating_add s l - saturating_add lo n"] m
    unfolding t by (cases "saturating_add lo n < saturating_add s l") (simp_all, blast+)
qed

lemma find_map_Some: "find_map f xs = Some y \<Longrightarrow> \<exists>x \<in> set xs. f x = Some y"
  by (induction xs) (auto split: option.splits)

lemma bt_floor_Some: "bt_floor k m = Some e \<Longrightarrow> e \<in> set m \<and> fst e \<le> k"
proof -
  assume a: "bt_floor k m = Some e"
  let ?f = "filter (\<lambda>(x, _). x \<le> k) m"
  have "?f \<noteq> []" "e = List.last ?f" using a by (auto simp: bt_floor_def Let_def split: if_splits)
  then have "e \<in> set ?f" by (metis last_in_set)
  then show ?thesis by auto
qed

lemma unat_sat: "unat (a :: u64) + unat b < 2 ^ 64 \<Longrightarrow> unat (saturating_add a b) = unat a + unat b"
  by (simp add: unat_saturating_add)

lemma sat_le: "saturating_add (a :: u64) b \<le> c \<Longrightarrow> unat c < 2 ^ 64 - 1 \<Longrightarrow> unat a + unat b \<le> unat c"
  by (simp add: word_le_nat_alt unat_saturating_add split: if_splits)

lemma page_range_pages: "unat p + unat n < 2 ^ 64 \<Longrightarrow> unat ` page_range p (saturating_add p n) = run_pages p n"
  unfolding page_range_def by (force simp: unat_sat run_pages_def unat_of_nat image_iff)

section \<open>Accounting\<close>

text \<open>A list of sets that splits a set.\<close>

fun parts :: "nat set list \<Rightarrow> nat set \<Rightarrow> bool" where
  "parts [] U \<longleftrightarrow> U = {}"
| "parts (X # Xs) U \<longleftrightarrow> X \<subseteq> U \<and> parts Xs (U - X)"

abbreviation free_set :: "PageAllocator \<Rightarrow> nat set" where "free_set a \<equiv> pages_of (pa_free a)"
abbreviation reserve_set :: "PageAllocator \<Rightarrow> nat set" where "reserve_set a \<equiv> pages_of (pa_publication_reserve a)"
abbreviation txn_set :: "PageAllocator \<Rightarrow> nat set" where "txn_set a \<equiv> pages_of (tagged (pa_txn_freed a))"
abbreviation deferred_set :: "PageAllocator \<Rightarrow> nat set" where "deferred_set a \<equiv> pages_of (tagged (pa_deferred a))"
abbreviation bootstrap_set :: "PageAllocator \<Rightarrow> nat set" where "bootstrap_set a \<equiv> pages_of (tagged (pa_bootstrap a))"

definition ever_allocated :: "PageAllocator \<Rightarrow> nat set" where
  "ever_allocated a = (\<Union>(s, n) \<in> set (pa_allocated_runs a). run_pages s n)"

text \<open>The pages in use: those of the committed generation \<open>live0\<close> that the transaction has not freed, and those
  it has allocated and not freed.\<close>

definition live_pages :: "nat set \<Rightarrow> PageAllocator \<Rightarrow> nat set" where
  "live_pages live0 a = (live0 - txn_set a - deferred_set a) \<union> unat ` pa_active a"

definition maps_ok :: "PageAllocator \<Rightarrow> bool" where
  "maps_ok a \<longleftrightarrow> runs_ok (unat (pa_end a)) (pa_free a) \<and> runs_ok (unat (pa_end a)) (pa_publication_reserve a)
     \<and> runs_ok (unat (pa_end a)) (tagged (pa_txn_freed a)) \<and> runs_ok (unat (pa_end a)) (tagged (pa_deferred a))
     \<and> runs_ok (unat (pa_end a)) (tagged (pa_bootstrap a))"

definition account :: "nat set \<Rightarrow> PageAllocator \<Rightarrow> bool" where
  "account live0 a \<longleftrightarrow> maps_ok a
     \<and> parts [live_pages live0 a, free_set a, reserve_set a, txn_set a, deferred_set a, bootstrap_set a] {..<unat (pa_end a)}
     \<and> live0 \<inter> (free_set a \<union> reserve_set a \<union> bootstrap_set a \<union> ever_allocated a) = {}
     \<and> live0 \<subseteq> {..<unat (pa_start_end a)}
     \<and> unat ` pa_active a \<subseteq> ever_allocated a \<and> (\<forall>(s, n) \<in> set (pa_allocated_runs a). unat s + unat n \<le> unat (pa_end a))"

text \<open>Taking the pages \<open>R\<close>: they leave one of the maps, or lie behind the old end of the page array.\<close>

definition taken :: "PageAllocator \<Rightarrow> nat set \<Rightarrow> PageAllocator \<Rightarrow> bool" where
  "taken a R a' \<longleftrightarrow> maps_ok a' \<and> pa_start_end a' = pa_start_end a \<and> pa_bootstrap a' = pa_bootstrap a \<and> pa_deferred a' = pa_deferred a
     \<and> pa_active a' = pa_active a \<and> pa_allocated_runs a' = pa_allocated_runs a \<and> pa_suppress a' = pa_suppress a \<and> unat (pa_end a) \<le> unat (pa_end a')
     \<and> free_set a' = free_set a - R \<and> reserve_set a' = reserve_set a - R \<and> txn_set a' = txn_set a - R
     \<and> R \<subseteq> free_set a \<union> reserve_set a \<union> txn_set a \<union> {unat (pa_end a) ..< unat (pa_end a')} \<and> {unat (pa_end a) ..< unat (pa_end a')} \<subseteq> R"

lemma account_alloc:
  assumes acc: "account live0 a" and t: "taken a (run_pages p n) a'" and nl: "run_pages p n \<inter> live0 = {}"
    and fit: "unat p + unat n \<le> unat (pa_end a')"
  defines "a'' \<equiv> a'\<lparr>pa_allocated_runs := pa_allocated_runs a' @ [(p, n)], pa_active := pa_active a' \<union> page_range p (saturating_add p n)\<rparr>"
  shows "account live0 a''" and "run_pages p n \<inter> (live_pages live0 a \<union> live0 \<union> deferred_set a \<union> bootstrap_set a) = {}"
proof -
  let ?R = "run_pages p n"
  have "unat p + unat n < 2 ^ 64" using fit unat_bound [of "pa_end a'"] by simp
  then have act: "unat ` pa_active a'' = unat ` pa_active a \<union> ?R"
    using t by (simp add: a''_def image_Un page_range_pages taken_def)
  have ever: "ever_allocated a'' = ever_allocated a \<union> ?R" using t by (auto simp: a''_def ever_allocated_def taken_def)
  have f: "free_set a'' = free_set a - ?R" "reserve_set a'' = reserve_set a - ?R" "txn_set a'' = txn_set a - ?R"
    "deferred_set a'' = deferred_set a" "bootstrap_set a'' = bootstrap_set a" "pa_start_end a'' = pa_start_end a" "pa_end a'' = pa_end a'"
    using t by (simp_all add: a''_def taken_def)
  have live: "live_pages live0 a'' = live_pages live0 a \<union> ?R" using nl by (auto simp: live_pages_def act f)
  have "maps_ok a'" using t by (simp add: taken_def)
  then have m: "maps_ok a''" by (simp add: a''_def maps_ok_def)
  have ps: "parts [live_pages live0 a, free_set a, reserve_set a, txn_set a, deferred_set a, bootstrap_set a] {..<unat (pa_end a)}"
    using acc by (simp add: account_def)
  have R: "?R \<subseteq> free_set a \<union> reserve_set a \<union> txn_set a \<union> {unat (pa_end a) ..< unat (pa_end a')}" "{unat (pa_end a) ..< unat (pa_end a')} \<subseteq> ?R"
    "unat (pa_end a) \<le> unat (pa_end a')" using t by (simp_all add: taken_def)
  have U: "{..<unat (pa_end a')} = {..<unat (pa_end a)} \<union> {unat (pa_end a) ..< unat (pa_end a')}" using R(3) by auto
  have X: "{..<unat (pa_end a)} \<inter> {unat (pa_end a) ..< unat (pa_end a')} = {}" by auto
  have "parts [live_pages live0 a'', free_set a'', reserve_set a'', txn_set a'', deferred_set a'', bootstrap_set a''] {..<unat (pa_end a'')}"
    using ps R(1,2) X unfolding live f U by simp blast
  moreover have "\<forall>(s, k) \<in> set (pa_allocated_runs a''). unat s + unat k \<le> unat (pa_end a'')"
    using acc t fit by (fastforce simp: a''_def account_def taken_def)
  ultimately show "account live0 a''"
    using acc m nl by (auto simp: account_def f act ever)
  show "?R \<inter> (live_pages live0 a \<union> live0 \<union> deferred_set a \<union> bootstrap_set a) = {}"
    using ps R(1) X nl by simp blast
qed

section \<open>Every way of taking pages\<close>

lemma carve_pages:
  assumes "runs_ok B m" and "(s, l, g) \<in> set m" and "unat fin = unat s + unat l" and "unat s \<le> unat lo" "unat lo < unat hi" "unat hi \<le> unat fin"
  shows "pages_of (carve_map s fin g lo hi m) = pages_of m - {unat lo ..< unat hi}" and "{unat lo ..< unat hi} \<subseteq> pages_of m"
    and "runs_ok B (carve_map s fin g lo hi m)" and "unat hi \<le> B"
proof -
  note c = carve_map_pages [OF assms]
  show "pages_of (carve_map s fin g lo hi m) = pages_of m - {unat lo ..< unat hi}" by (force simp: pages_of_gens c(2))
  show "runs_ok B (carve_map s fin g lo hi m)" by (rule c(1))
  have "{unat lo ..< unat hi} \<subseteq> run_pages s l" using assms(3-6) by (auto simp: run_pages_def)
  then show "{unat lo ..< unat hi} \<subseteq> pages_of m" using assms(2) by (force simp: pages_of_def)
  show "unat hi \<le> B" using runs_okD [OF assms(1,2)] assms(3,6) by simp
qed

lemma account_maps: "account live0 a \<Longrightarrow> maps_ok a"
  by (simp add: account_def)

lemma account_disjoint:
  assumes "account live0 a"
  shows "free_set a \<inter> reserve_set a = {}" "free_set a \<inter> txn_set a = {}" "reserve_set a \<inter> txn_set a = {}"
    "live0 \<inter> free_set a = {}" "live0 \<inter> reserve_set a = {}" "live0 \<inter> bootstrap_set a = {}" "live0 \<inter> ever_allocated a = {}"
    "free_set a \<inter> deferred_set a = {}" "txn_set a \<inter> deferred_set a = {}" "reserve_set a \<inter> deferred_set a = {}"
    "bootstrap_set a \<inter> (live_pages live0 a \<union> free_set a \<union> reserve_set a \<union> txn_set a \<union> deferred_set a) = {}"
    "live_pages live0 a \<inter> (free_set a \<union> reserve_set a \<union> txn_set a \<union> deferred_set a) = {}"
    "live_pages live0 a \<union> free_set a \<union> reserve_set a \<union> txn_set a \<union> deferred_set a \<union> bootstrap_set a = {..<unat (pa_end a)}"
proof -
  have p: "live_pages live0 a \<subseteq> {..<unat (pa_end a)}" "free_set a \<subseteq> {..<unat (pa_end a)} - live_pages live0 a"
    "reserve_set a \<subseteq> {..<unat (pa_end a)} - live_pages live0 a - free_set a"
    "txn_set a \<subseteq> {..<unat (pa_end a)} - live_pages live0 a - free_set a - reserve_set a"
    "deferred_set a \<subseteq> {..<unat (pa_end a)} - live_pages live0 a - free_set a - reserve_set a - txn_set a"
    "bootstrap_set a = {..<unat (pa_end a)} - live_pages live0 a - free_set a - reserve_set a - txn_set a - deferred_set a"
    using assms unfolding account_def by auto
  show "live0 \<inter> free_set a = {}" "live0 \<inter> reserve_set a = {}" "live0 \<inter> bootstrap_set a = {}" "live0 \<inter> ever_allocated a = {}"
    using assms unfolding account_def by blast+
  show "free_set a \<inter> reserve_set a = {}" using p(3) by blast
  show "free_set a \<inter> txn_set a = {}" using p(4) by blast
  show "reserve_set a \<inter> txn_set a = {}" using p(4) by blast
  show "free_set a \<inter> deferred_set a = {}" using p(5) by blast
  show "txn_set a \<inter> deferred_set a = {}" using p(5) by blast
  show "reserve_set a \<inter> deferred_set a = {}" using p(5) by blast
  show "bootstrap_set a \<inter> (live_pages live0 a \<union> free_set a \<union> reserve_set a \<union> txn_set a \<union> deferred_set a) = {}" unfolding p(6) by blast
  show "live_pages live0 a \<inter> (free_set a \<union> reserve_set a \<union> txn_set a \<union> deferred_set a) = {}" using p(2-5) by blast
  show "live_pages live0 a \<union> free_set a \<union> reserve_set a \<union> txn_set a \<union> deferred_set a \<union> bootstrap_set a = {..<unat (pa_end a)}"
    unfolding p(6) using p(1-5) by blast
qed

lemma taken_free:
  assumes acc: "account live0 a" and r: "(s, l, g) \<in> set (pa_free a)"
    and sel: "unat fin = unat s + unat l" "unat s \<le> unat lo" "unat lo < unat hi" "unat hi \<le> unat fin"
    and a': "a' = a\<lparr>pa_free := carve_map s fin g lo hi (pa_free a), pa_dirty := d, pa_captured := c\<rparr>"
  shows "taken a {unat lo ..< unat hi} a' \<and> {unat lo ..< unat hi} \<inter> live0 = {} \<and> unat hi \<le> unat (pa_end a')"
proof -
  have m: "maps_ok a" by (rule account_maps [OF acc])
  then have ok: "runs_ok (unat (pa_end a)) (pa_free a)" by (simp add: maps_ok_def)
  note c = carve_pages [OF ok r sel]
  have "taken a {unat lo ..< unat hi} a'"
    using m c(1,2,3) account_disjoint(1,2) [OF acc] by (auto simp: taken_def a' maps_ok_def)
  moreover have "{unat lo ..< unat hi} \<inter> live0 = {}" using c(2) account_disjoint(4) [OF acc] by blast
  ultimately show ?thesis using c(4) by (simp add: a')
qed

lemma taken_reserve:
  assumes acc: "account live0 a" and r: "(s, l, g) \<in> set (pa_publication_reserve a)"
    and sel: "unat fin = unat s + unat l" "unat s \<le> unat lo" "unat lo < unat hi" "unat hi \<le> unat fin"
    and a': "a' = a\<lparr>pa_publication_reserve := carve_map s fin g lo hi (pa_publication_reserve a), pa_dirty := d\<rparr>"
  shows "taken a {unat lo ..< unat hi} a' \<and> {unat lo ..< unat hi} \<inter> live0 = {} \<and> unat hi \<le> unat (pa_end a')"
proof -
  have m: "maps_ok a" by (rule account_maps [OF acc])
  then have ok: "runs_ok (unat (pa_end a)) (pa_publication_reserve a)" by (simp add: maps_ok_def)
  note c = carve_pages [OF ok r sel]
  have "taken a {unat lo ..< unat hi} a'"
    using m c(1,2,3) account_disjoint(1,3) [OF acc] by (auto simp: taken_def a' maps_ok_def)
  moreover have "{unat lo ..< unat hi} \<inter> live0 = {}" using c(2) account_disjoint(5) [OF acc] by blast
  ultimately show ?thesis using c(4) by (simp add: a')
qed

lemma taken_txn:
  assumes acc: "account live0 a" and r: "(s, l, ()) \<in> set (tagged (pa_txn_freed a))"
    and sel: "unat fin = unat s + unat l" "unat s \<le> unat lo" "unat lo < unat hi" "unat hi \<le> unat fin"
    and nl: "{unat lo ..< unat hi} \<inter> live0 = {}"
    and a': "a' = a\<lparr>pa_txn_freed := m', pa_dirty := d\<rparr>" and m': "tagged m' = carve_map s fin () lo hi (tagged (pa_txn_freed a))"
  shows "taken a {unat lo ..< unat hi} a' \<and> {unat lo ..< unat hi} \<inter> live0 = {} \<and> unat hi \<le> unat (pa_end a')"
proof -
  have m: "maps_ok a" by (rule account_maps [OF acc])
  then have ok: "runs_ok (unat (pa_end a)) (tagged (pa_txn_freed a))" by (simp add: maps_ok_def)
  note c = carve_pages [OF ok r sel]
  have "taken a {unat lo ..< unat hi} a'"
    using m c(1,2,3) account_disjoint(2,3) [OF acc] by (auto simp: taken_def a' maps_ok_def m')
  then show ?thesis using c(4) nl by (simp add: a')
qed

lemma taken_extend:
  assumes acc: "account live0 a" and n: "unat (pa_end a) + unat n < 2 ^ 64"
  shows "taken a (run_pages (pa_end a) n) (a\<lparr>pa_end := pa_end a + n\<rparr>) \<and> run_pages (pa_end a) n \<inter> live0 = {}
    \<and> unat (pa_end a) + unat n \<le> unat (pa_end a + n)"
proof -
  have e: "unat (pa_end a + n) = unat (pa_end a) + unat n" using n by (simp add: unat_word_ariths)
  have m: "maps_ok a" by (rule account_maps [OF acc])
  have m': "maps_ok (a\<lparr>pa_end := pa_end a + n\<rparr>)"
    using m by (auto simp: maps_ok_def e intro: runs_ok_mono [where B = "unat (pa_end a)"])
  have below: "free_set a \<union> reserve_set a \<union> txn_set a \<union> deferred_set a \<union> live_pages live0 a \<subseteq> {..<unat (pa_end a)}"
    using account_disjoint(13) [OF acc] by blast
  have "run_pages (pa_end a) n \<inter> {..<unat (pa_end a)} = {}" by (auto simp: run_pages_def)
  moreover have "live0 \<subseteq> {..<unat (pa_end a)}" using below by (auto simp: live_pages_def)
  ultimately show ?thesis using m' below unfolding taken_def by (auto simp: e run_pages_def)
qed

lemma hit_run:
  assumes "runs_ok B m" "B < 2 ^ 64" "(s, l, g) \<in> set m"
  shows "unat (saturating_add s l) = unat s + unat l" "map_of m s = Some (l, g)" "unat s + unat l \<le> B" "0 < unat l"
  using assms runs_okD [OF assms(1,3)] map_of_runs [OF assms(1,3)] by (simp_all add: unat_sat)

lemma carve_at_start:
  assumes "unat s + unat l < 2 ^ 64"
  shows "(if n < l then bt_insert (s + n) (l - n, g) (bt_remove s m) else bt_remove s m) = carve_map s (s + l) g s (s + n) m \<or> l < n"
proof (cases "l < n")
  case False
  then have u: "unat (s + n) = unat s + unat n" "unat (s + l) = unat s + unat l"
    using assms by (simp_all add: unat_word_ariths word_less_nat_alt)
  have "s + n < s + l \<longleftrightarrow> n < l" by (simp add: word_less_nat_alt u)
  moreover have "s + l - (s + n) = l - n" by simp
  ultimately show ?thesis by (simp add: carve_map_def)
qed simp

lemma take_publication_reserve_taken:
  assumes acc: "account live0 a" and n: "0 < unat n" and t: "take_publication_reserve a n = Some (p, a')"
  shows "taken a (run_pages p n) a' \<and> run_pages p n \<inter> live0 = {} \<and> unat p + unat n \<le> unat (pa_end a')"
proof -
  let ?m = "pa_publication_reserve a"
  have ok: "runs_ok (unat (pa_end a)) ?m" using account_maps [OF acc] by (simp add: maps_ok_def)
  obtain s where f: "find_map (\<lambda>(start, len, _). if len \<ge> n then Some start else None) ?m = Some s"
    using t by (auto simp: take_publication_reserve_def split: option.splits)
  obtain l g where r: "(s, l, g) \<in> set ?m" "n \<le> l" using find_map_Some [OF f] by (auto split: if_splits)
  note h = hit_run [OF ok _ r(1)]
  have b: "unat (pa_end a) < 2 ^ 64" using unat_bound [of "pa_end a"] by simp
  have u: "unat (s + n) = unat s + unat n" "unat (s + l) = unat s + unat l"
    using h(3) [OF b] b r(2) by (simp_all add: unat_word_ariths word_le_nat_alt)
  define m1 where "m1 = bt_remove s ?m"
  obtain d1 where d1: "note_committed_extent_delete (a\<lparr>pa_publication_reserve := m1\<rparr>) s = a\<lparr>pa_publication_reserve := m1, pa_dirty := d1\<rparr>"
    using note_delete_frame [of "a\<lparr>pa_publication_reserve := m1\<rparr>" s] by auto
  obtain d2 where d2: "note_extent_upsert (a\<lparr>pa_dirty := d1, pa_publication_reserve := bt_insert (s + n) (l - n, g) m1\<rparr>) (free_run (s + n) (l - n) g)
      = a\<lparr>pa_publication_reserve := bt_insert (s + n) (l - n, g) m1, pa_dirty := d2\<rparr>"
    using note_upsert_frame [of "a\<lparr>pa_dirty := d1, pa_publication_reserve := bt_insert (s + n) (l - n, g) m1\<rparr>"] by auto
  have c: "(if n < l then bt_insert (s + n) (l - n, g) m1 else m1) = carve_map s (s + l) g s (s + n) ?m"
    using carve_at_start [of s l n g ?m] h(3) [OF b] b r(2) unfolding m1_def by force
  have p: "p = s" using t f h(2) [OF b] by (simp add: take_publication_reserve_def Let_def)
  obtain d where a': "a' = a\<lparr>pa_publication_reserve := carve_map s (s + l) g s (s + n) ?m, pa_dirty := d\<rparr>"
    using t [unfolded p] f h(2) [OF b] that unfolding take_publication_reserve_def c [symmetric]
    by (auto simp: Let_def m1_def [symmetric] d1 d2 split: if_splits)
  have "run_pages p n = {unat s ..< unat (s + n)}" by (simp add: run_pages_def p u)
  with taken_reserve [OF acc r(1) u(2) _ _ _ a'] n r(2) u p show ?thesis by (simp add: word_le_nat_alt)
qed

lemma take_aged_taken:
  assumes acc: "account live0 a" and n: "0 < unat n" and e: "unat (pa_end a) < 2 ^ 64 - 1" and t: "take_aged a n = Some (p, a')"
  shows "taken a (run_pages p n) a' \<and> run_pages p n \<inter> live0 = {} \<and> unat p + unat n \<le> unat (pa_end a')"
proof (cases "pa_reusable_runs a")
  case (Some reusable)
  let ?m = "pa_free a"
  have ok: "runs_ok (unat (pa_end a)) ?m" using account_maps [OF acc] by (simp add: maps_ok_def)
  have b: "unat (pa_end a) < 2 ^ 64" using e by simp
  obtain s lo where h: "reusable_hit a reusable n = Some (s, lo)" using t Some by (auto simp: take_aged_def split: if_splits option.splits)
  obtain al where fm: "find_map (\<lambda>(start, len, g).
        let fin = saturating_add start len; allocation_start = max start (fr_start al)
        in if g = fr_freed_gen al \<and> within_bound a (saturating_add allocation_start n)
              \<and> saturating_add allocation_start n \<le> fin \<and> saturating_add allocation_start n \<le> fr_end al
           then Some (start, allocation_start) else None) ?m = Some (s, lo)"
    using find_map_Some [OF h [unfolded reusable_hit_def]] by blast
  obtain l g where r: "(s, l, g) \<in> set ?m" "lo = max s (fr_start al)" "saturating_add lo n \<le> saturating_add s l"
    using find_map_Some [OF fm] by (auto simp: Let_def split: if_splits)
  note hr = hit_run [OF ok b r(1)]
  have fit: "unat lo + unat n \<le> unat s + unat l" using sat_le [OF r(3)] hr(1,3) e by simp
  then have u: "unat (saturating_add lo n) = unat lo + unat n" using hr(3) b by (intro unat_sat) simp
  have lo: "unat s \<le> unat lo" by (simp add: r(2) max_def word_le_nat_alt)
  obtain d where d: "carve_free a s (saturating_add s l) g lo (saturating_add lo n)
      = a\<lparr>pa_free := carve_map s (saturating_add s l) g lo (saturating_add lo n) ?m, pa_dirty := d\<rparr>"
    using carve_free_frame by blast
  have "p = lo" and a': "a' = a\<lparr>pa_free := carve_map s (saturating_add s l) g lo (saturating_add lo n) ?m, pa_dirty := d\<rparr>"
    using t Some h hr(2) d by (auto simp: take_aged_def split: if_splits)
  then have "a' = a\<lparr>pa_free := carve_map s (saturating_add s l) g lo (saturating_add lo n) ?m, pa_dirty := d, pa_captured := pa_captured a\<rparr>" by simp
  from taken_free [OF acc r(1) hr(1) lo _ _ this] n u fit hr(1) \<open>p = lo\<close> show ?thesis by (simp add: run_pages_def)
next
  case None
  let ?m = "pa_free a"
  have ok: "runs_ok (unat (pa_end a)) ?m" using account_maps [OF acc] by (simp add: maps_ok_def)
  have b: "unat (pa_end a) < 2 ^ 64" using e by simp
  obtain s where f: "find_map (\<lambda>(s, len, g). if len \<ge> n \<and> within_bound a (saturating_add s n)
      \<and> (pa_reuse_current_free a \<or> g + REUSE_SAFE_WINDOW \<le> pa_txn_gen a) then Some s else None) ?m = Some s"
    using t None by (auto simp: take_aged_def split: option.splits)
  obtain l g where r: "(s, l, g) \<in> set ?m" "n \<le> l" using find_map_Some [OF f] by (auto split: if_splits)
  note h = hit_run [OF ok b r(1)]
  have u: "unat (s + n) = unat s + unat n" "unat (s + l) = unat s + unat l"
    using h(3) b r(2) by (simp_all add: unat_word_ariths word_le_nat_alt)
  define m1 where "m1 = bt_remove s ?m"
  obtain d1 where d1: "note_committed_extent_delete (a\<lparr>pa_free := m1\<rparr>) s = a\<lparr>pa_free := m1, pa_dirty := d1\<rparr>"
    using note_delete_frame [of "a\<lparr>pa_free := m1\<rparr>" s] by auto
  obtain d2 where d2: "put_free_run (a\<lparr>pa_free := m1, pa_dirty := d1\<rparr>) (free_run (s + n) (l - n) g)
      = a\<lparr>pa_free := bt_insert (s + n) (l - n, g) m1, pa_dirty := d2\<rparr>"
    using put_free_frame [of "a\<lparr>pa_free := m1, pa_dirty := d1\<rparr>" "s + n" "l - n" g] by auto
  have c: "(if n < l then bt_insert (s + n) (l - n, g) m1 else m1) = carve_map s (s + l) g s (s + n) ?m"
    using carve_at_start [of s l n g ?m] h(3) b r(2) unfolding m1_def by force
  have p: "p = s" using t f h(2) None by (simp add: take_aged_def Let_def)
  obtain d where a': "a' = a\<lparr>pa_free := carve_map s (s + l) g s (s + n) ?m, pa_dirty := d\<rparr>"
    using t [unfolded p] f h(2) None that unfolding take_aged_def c [symmetric]
    by (auto simp: Let_def m1_def [symmetric] d1 d2 split: if_splits)
  then have "a' = a\<lparr>pa_free := carve_map s (s + l) g s (s + n) ?m, pa_dirty := d, pa_captured := pa_captured a\<rparr>" by simp
  from taken_free [OF acc r(1) u(2) _ _ _ this] n r(2) u p show ?thesis by (simp add: word_le_nat_alt run_pages_def)
qed

lemma captured_scan_hit:
  "captured_scan free n c page cursor = (Some (p, fs), cursor') \<Longrightarrow>
    \<exists>fl. (fs, fl, fr_freed_gen (cf_run c)) \<in> set free \<and> fs \<le> p \<and> p < saturating_add fs fl
      \<and> n \<le> saturating_sub (min (saturating_add fs fl) (fr_end (cf_run c))) p"
proof (induction free n c page cursor rule: captured_scan.induct)
  case (1 free n c page cursor)
  note IH = 1(1) and step = 1(2) [unfolded captured_scan.simps [of free n c page]]
  show ?case
  proof (cases "page < fr_end (cf_run c)")
    case True
    show ?thesis
    proof (cases "bt_floor page free")
      case None
      with step True show ?thesis by simp
    next
      case (Some x)
      obtain s l g where x: "x = (s, l, g)" by (cases x) auto
      have in_free: "(s, l, g) \<in> set free" "s \<le> page" using bt_floor_Some [OF Some] by (auto simp: x)
      show ?thesis
      proof (cases "page < s \<or> saturating_add s l \<le> page \<or> g \<noteq> fr_freed_gen (cf_run c)")
        case True
        with step Some x \<open>page < fr_end (cf_run c)\<close> show ?thesis by (simp add: Let_def)
      next
        case False
        show ?thesis
        proof (cases "saturating_sub (min (saturating_add s l) (fr_end (cf_run c))) page < n")
          case t: True
          with step Some x True False
          have "captured_scan free n c (min (saturating_add s l) (fr_end (cf_run c)))
              (saturating_add cursor (saturating_sub (min (saturating_add s l) (fr_end (cf_run c))) page)) = (Some (p, fs), cursor')"
            by (simp add: Let_def)
          from IH [OF True Some [unfolded x] refl refl refl False refl refl t this] show ?thesis .
        next
          case f: False
          with step Some x True False have "p = page" "fs = s" by (auto simp: Let_def)
          with in_free False f show ?thesis by auto
        qed
      qed
    qed
  qed (use step in simp)
qed

lemma captured_hit_run:
  "captured_hit free n cursor cs = Some (p, fs, cursor') \<Longrightarrow>
    \<exists>fl g fin. (fs, fl, g) \<in> set free \<and> fs \<le> p \<and> p < saturating_add fs fl \<and> n \<le> saturating_sub (min (saturating_add fs fl) fin) p"
proof (induction free n cursor cs rule: captured_hit.induct)
  case (1 free n cursor)
  then show ?case by simp
next
  case (2 free n cursor c cs)
  show ?case
  proof (cases "cf_cursor_end c \<le> cursor")
    case True
    with 2 show ?thesis by simp
  next
    case False
    define cursor1 where "cursor1 = max cursor (cf_cursor_start c)"
    define page where "page = saturating_add (fr_start (cf_run c)) (saturating_sub cursor1 (cf_cursor_start c))"
    obtain hit cursor2 where s: "captured_scan free n c page cursor1 = (hit, cursor2)" by force
    show ?thesis
    proof (cases hit)
      case None
      have "captured_hit free n (max cursor2 (cf_cursor_end c)) cs = Some (p, fs, cursor')"
        using 2(3) False s None by (simp add: Let_def cursor1_def [symmetric] page_def [symmetric])
      from 2(2) [OF False cursor1_def page_def s [symmetric] None this] show ?thesis .
    next
      case (Some h)
      obtain p' fs' where h: "h = (p', fs')" by force
      have "p' = p" "fs' = fs" using 2(3) False s Some h by (simp_all add: Let_def cursor1_def [symmetric] page_def [symmetric])
      with captured_scan_hit [of free n c page cursor1 p fs cursor2] s Some h show ?thesis by blast
    qed
  qed
qed

lemma take_captured_taken:
  assumes acc: "account live0 a" and n: "0 < unat n" and t: "take_captured_free a n = (Some p, a')"
  shows "taken a (run_pages p n) a' \<and> run_pages p n \<inter> live0 = {} \<and> unat p + unat n \<le> unat (pa_end a')"
proof -
  let ?m = "pa_free a"
  have ok: "runs_ok (unat (pa_end a)) ?m" using account_maps [OF acc] by (simp add: maps_ok_def)
  have b: "unat (pa_end a) < 2 ^ 64" using unat_bound [of "pa_end a"] by simp
  obtain auth s cursor where au: "pa_captured a = Some auth"
    and hit: "captured_hit ?m n (ca_consumed_through auth) (ca_runs auth) = Some (p, s, cursor)"
    using t by (auto simp: take_captured_free_def Let_def split: option.splits prod.splits)
  obtain l g fin where r: "(s, l, g) \<in> set ?m" "s \<le> p" "p < saturating_add s l" "n \<le> saturating_sub (min (saturating_add s l) fin) p"
    using captured_hit_run [OF hit] by blast
  note h = hit_run [OF ok b r(1)]
  have fit: "unat p + unat n \<le> unat s + unat l"
  proof -
    have "n \<noteq> 0" using n by auto
    then have q: "p \<le> min (saturating_add s l) fin" using r(4) by (auto simp: saturating_sub_def split: if_splits)
    then have "unat n \<le> unat (min (saturating_add s l) fin) - unat p" using r(4) by (simp add: saturating_sub_def word_le_nat_alt unat_sub)
    moreover have "unat (min (saturating_add s l) fin) \<le> unat s + unat l" using h(1) by (simp add: min_def word_le_nat_alt)
    moreover have "unat p \<le> unat (min (saturating_add s l) fin)" using q by (simp add: word_le_nat_alt)
    ultimately show ?thesis by linarith
  qed
  then have u: "unat (saturating_add p n) = unat p + unat n" using h(3) b by (intro unat_sat) simp
  obtain d where d: "carve_free a s (saturating_add s l) g p (saturating_add p n)
      = a\<lparr>pa_free := carve_map s (saturating_add s l) g p (saturating_add p n) ?m, pa_dirty := d\<rparr>"
    using carve_free_frame by blast
  have a': "a' = a\<lparr>pa_free := carve_map s (saturating_add s l) g p (saturating_add p n) ?m, pa_dirty := d,
      pa_captured := Some (auth\<lparr>ca_consumed_through := saturating_add cursor n\<rparr>)\<rparr>"
    using t au hit h(2) d by (simp add: take_captured_free_def)
  have "unat s \<le> unat p" using r(2) by (simp add: word_le_nat_alt)
  from taken_free [OF acc r(1) h(1) this _ _ a'] n u fit h(1) show ?thesis by (simp add: run_pages_def)
qed

lemma take_txn_freed_taken:
  assumes acc: "account live0 a" and n: "0 < unat n" and e: "unat (pa_end a) < 2 ^ 64 - 1" and t: "take_txn_freed a n = Some (p, a')"
  shows "taken a (run_pages p n) a' \<and> run_pages p n \<inter> live0 = {} \<and> unat p + unat n \<le> unat (pa_end a')"
proof -
  let ?m = "pa_txn_freed a"
  have ok: "runs_ok (unat (pa_end a)) (tagged ?m)" using account_maps [OF acc] by (simp add: maps_ok_def)
  have b: "unat (pa_end a) < 2 ^ 64" using e by simp
  obtain s lo where hit: "txn_freed_hit a n = Some (s, lo)" using t by (auto simp: take_txn_freed_def split: option.splits)
  obtain l where r: "(s, l) \<in> set ?m"
    and how: "(pa_start_end a \<le> s \<and> n \<le> l \<and> lo = s) \<or> (\<exists>al k. (al, k) \<in> set (pa_allocated_runs a) \<and> lo = max s al
       \<and> saturating_add lo n \<le> min (saturating_add s l) (saturating_add al k))"
    using find_map_Some [OF hit [unfolded txn_freed_hit_def]] by (auto simp: Let_def split: if_splits dest!: find_map_Some) blast+
  have tr: "(s, l, ()) \<in> set (tagged ?m)" using r by (force simp: tagged_def)
  note h = hit_run [OF ok b tr]
  have mo: "map_of ?m s = Some l"
  proof -
    have "distinct (map fst (tagged ?m))" using ok by (auto simp: runs_ok_def intro: bt_sorted_distinct)
    then have "distinct (map fst ?m)" by (simp add: tagged_def comp_def case_prod_beta)
    with r show ?thesis by simp
  qed
  have facts: "unat s \<le> unat lo \<and> unat lo + unat n \<le> unat s + unat l \<and> run_pages lo n \<inter> live0 = {}"
  proof (rule disjE [OF how])
    assume c: "pa_start_end a \<le> s \<and> n \<le> l \<and> lo = s"
    moreover have "live0 \<subseteq> {..<unat (pa_start_end a)}" using acc by (simp add: account_def)
    ultimately show ?thesis by (auto simp: word_le_nat_alt run_pages_def)
  next
    assume "\<exists>al k. (al, k) \<in> set (pa_allocated_runs a) \<and> lo = max s al \<and> saturating_add lo n \<le> min (saturating_add s l) (saturating_add al k)"
    then obtain al k where c: "(al, k) \<in> set (pa_allocated_runs a)" "lo = max s al" "saturating_add lo n \<le> saturating_add s l"
      "saturating_add lo n \<le> saturating_add al k" by auto
    have k: "unat al + unat k \<le> unat (pa_end a)" using acc c(1) by (fastforce simp: account_def)
    have "unat (saturating_add al k) = unat al + unat k" using k b by (intro unat_sat) simp
    then have 2: "unat lo + unat n \<le> unat al + unat k" using sat_le [OF c(4)] k e by simp
    have 1: "unat lo + unat n \<le> unat s + unat l" using sat_le [OF c(3)] h(1,3) e by simp
    have "unat al \<le> unat lo" using c(2) by (simp add: max_def word_le_nat_alt)
    then have "run_pages lo n \<subseteq> run_pages al k" using 2 by (auto simp: run_pages_def)
    then have "run_pages lo n \<subseteq> ever_allocated a" using c(1) by (force simp: ever_allocated_def)
    then have "run_pages lo n \<inter> live0 = {}" using account_disjoint(7) [OF acc] by blast
    with 1 c(2) show ?thesis by (simp add: max_def word_le_nat_alt)
  qed
  then have u: "unat (saturating_add lo n) = unat lo + unat n" using h(3) b by (intro unat_sat) simp
  obtain d m' where a': "a' = a\<lparr>pa_txn_freed := m', pa_dirty := d\<rparr>" and p: "p = lo"
    and m': "tagged m' = carve_map s (saturating_add s l) () lo (saturating_add lo n) (tagged ?m)"
    using carve_txn_frame [OF hit mo] t by auto
  have "{unat lo ..< unat (saturating_add lo n)} = run_pages lo n" by (simp add: run_pages_def u)
  with taken_txn [OF acc tr h(1) _ _ _ _ a' m'] facts u n h(1) p show ?thesis by simp
qed

section \<open>Allocation\<close>

lemma account_captured [simp]: "account live0 (a\<lparr>pa_captured := c\<rparr>) = account live0 a"
  by (simp add: account_def maps_ok_def live_pages_def ever_allocated_def)

lemma take_captured_None: "take_captured_free a n = (None, a') \<Longrightarrow> \<exists>c. a' = a\<lparr>pa_captured := c\<rparr>"
  by (cases a) (auto simp: take_captured_free_def Let_def split: option.splits prod.splits)

lemma taken_captured: "taken (a\<lparr>pa_captured := c\<rparr>) R a' = taken a R a'"
  by (simp add: taken_def)

lemma alloc_page_taken:
  assumes acc: "account live0 a" and n: "0 < unat n" and e: "unat (pa_end a) + unat n < 2 ^ 64" and t: "alloc_page a n = (p, a')"
  shows "taken a (run_pages p n) a' \<and> run_pages p n \<inter> live0 = {} \<and> unat p + unat n \<le> unat (pa_end a')"
proof -
  have e1: "unat (pa_end a) < 2 ^ 64 - 1" using n e by simp
  have x: "alloc_page a n = extend (a\<lparr>pa_captured := c\<rparr>) n \<Longrightarrow> ?thesis" for c
    using taken_extend [of live0 "a\<lparr>pa_captured := c\<rparr>" n] acc e t by (simp add: extend_def taken_captured)
  show ?thesis
  proof (cases "pa_publication_reserve_active a")
    case True
    then show ?thesis
      using take_publication_reserve_taken [OF acc n, of p a'] t x [of "pa_captured a"]
      by (cases "take_publication_reserve a n") (simp_all add: alloc_page_def)
  next
    case False
    consider (txn) r where "take_txn_freed a n = Some r" | (aged) r where "take_txn_freed a n = None" "take_aged a n = Some r"
      | (captured) start a1 where "take_txn_freed a n = None" "take_aged a n = None" "take_captured_free a n = (Some start, a1)"
      | (ext) a1 where "take_txn_freed a n = None" "take_aged a n = None" "take_captured_free a n = (None, a1)"
      by (metis not_Some_eq surj_pair)
    then show ?thesis
    proof cases
      case txn
      then show ?thesis using take_txn_freed_taken [OF acc n e1, of p a'] t False by (simp add: alloc_page_def)
    next
      case aged
      then show ?thesis using take_aged_taken [OF acc n e1, of p a'] t False by (simp add: alloc_page_def)
    next
      case captured
      then show ?thesis using take_captured_taken [OF acc n, of p a'] t False by (simp add: alloc_page_def)
    next
      case ext
      obtain c where "a1 = a\<lparr>pa_captured := c\<rparr>" using take_captured_None [OF ext(3)] by blast
      then have "alloc_page a n = extend (a\<lparr>pa_captured := c\<rparr>) n" using ext False by (simp add: alloc_page_def)
      then show ?thesis by (rule x)
    qed
  qed
qed

lemma alloc_account:
  assumes acc: "account live0 a" and n: "0 < unat n" and e: "unat (pa_end a) + unat n < 2 ^ 64" and t: "alloc a n = (p, a')"
  shows "account live0 a'" and "run_pages p n \<inter> (live_pages live0 a \<union> live0 \<union> deferred_set a \<union> bootstrap_set a) = {}"
    and "live_pages live0 a' = live_pages live0 a \<union> run_pages p n" and "pa_suppress a' = pa_suppress a"
proof -
  obtain a1 where t1: "alloc_page a n = (p, a1)" and a': "a' = a1\<lparr>pa_allocated_runs := pa_allocated_runs a1 @ [(p, n)],
      pa_active := pa_active a1 \<union> page_range p (saturating_add p n)\<rparr>"
    using t by (auto simp: alloc_def split: prod.splits)
  from alloc_page_taken [OF acc n e t1] have k: "taken a (run_pages p n) a1" "run_pages p n \<inter> live0 = {}" "unat p + unat n \<le> unat (pa_end a1)" by auto
  show "account live0 a'" unfolding a' by (rule account_alloc(1) [OF acc k])
  show "run_pages p n \<inter> (live_pages live0 a \<union> live0 \<union> deferred_set a \<union> bootstrap_set a) = {}" by (rule account_alloc(2) [OF acc k])
  show "pa_suppress a' = pa_suppress a" using k(1) by (simp add: a' taken_def)
  have "unat p + unat n < 2 ^ 64" using k(3) unat_bound [of "pa_end a1"] by simp
  then show "live_pages live0 a' = live_pages live0 a \<union> run_pages p n"
    using k(1,2) by (auto simp: a' live_pages_def taken_def image_Un page_range_pages)
qed

end
