(* ===== verification/Loom_Alloc_Free.thy ===== *)
theory Loom_Alloc_Free
  imports Loom_Alloc
begin

text \<open>
  Freeing of pages and the life of an allocator over a transaction: the merge of a freed run with its
  neighbours, the operations on the reserves, and the transition system of all allocator operations with the
  accounting invariant of \<^verbatim>\<open>crates/loom-store/src/pagemap.rs\<close>.
\<close>

section \<open>Merging a run into a map\<close>

lemma tagged_insert: "tagged (bt_insert k v n) = bt_insert k (v, ()) (tagged n)"
  by (induction k v n rule: bt_insert.induct) (auto simp: tagged_def)

lemma in_tagged [simp]: "(s, l, u) \<in> set (tagged m) \<longleftrightarrow> (s, l) \<in> set m"
  by (force simp: tagged_def)

lemma sorted_tagged: "bt_sorted (tagged m) = bt_sorted m"
  by (simp add: tagged_def bt_sorted_def comp_def case_prod_beta)

lemma pages_of_tagged: "pages_of (tagged m) = (\<Union>(s, l) \<in> set m. run_pages s l)"
  by (force simp: pages_of_def)

lemma merge_pages:
  assumes ok: "runs_ok B (tagged m)" and c: "C \<subseteq> set m" and R: "{unat ms ..< unat me} = N \<union> (\<Union>(s, l) \<in> C. run_pages s l)"
    and N: "N \<inter> pages_of (tagged m) = {}" and b: "unat ms < unat me" "unat me \<le> B" and m0: "bt_sorted m0" "set m0 = set m - C"
  shows "runs_ok B (tagged (bt_insert ms (me - ms) m0))"
    and "pages_of (tagged (bt_insert ms (me - ms) m0)) = pages_of (tagged m) \<union> N"
proof -
  have len: "unat (me - ms) = unat me - unat ms" using b by (intro unat_minus) (simp add: word_le_nat_alt)
  then have rp: "run_pages ms (me - ms) = {unat ms ..< unat me}" using b by (simp add: run_pages_def)
  have ok0: "runs_ok B (tagged m0)"
    using m0 ok by (intro runs_okI) (auto simp: sorted_tagged dest: runs_okD runs_ok_disjoint)
  have dis: "run_pages s l \<inter> run_pages s' l' = {}" if "(s, l) \<in> set m0" "(s', l') \<in> C" for s l s' l'
  proof -
    have "(s, l) \<in> set m" "(s', l') \<in> set m" "(s, l) \<noteq> (s', l')" using that c m0 by auto
    then show ?thesis using runs_ok_disjoint [OF ok, of s l "()" s' l' "()"] runs_ok_same [OF ok, of s l "()" l' "()"] by auto
  qed
  have sub: "pages_of (tagged m0) \<subseteq> pages_of (tagged m)" using m0 by (force simp: pages_of_tagged)
  have new: "run_pages ms (me - ms) \<inter> pages_of (tagged m0) = {}"
    unfolding rp R using N sub dis by (fastforce simp: pages_of_tagged)
  show "runs_ok B (tagged (bt_insert ms (me - ms) m0))"
    unfolding tagged_insert by (rule runs_insert(1) [OF ok0 _ _ new]) (use b len in simp_all)
  have "page_gens (tagged (bt_insert ms (me - ms) m0)) = page_gens (tagged m0) \<union> run_pages ms (me - ms) \<times> {()}"
    unfolding tagged_insert by (rule runs_insert(2) [OF ok0 _ _ new]) (use b len in simp_all)
  then have "pages_of (tagged (bt_insert ms (me - ms) m0)) = pages_of (tagged m0) \<union> {unat ms ..< unat me}"
    by (simp add: pages_of_gens image_Un rp)
  also have "\<dots> = pages_of (tagged m) \<union> N" unfolding R using m0 c by (auto simp: pages_of_tagged)
  finally show "pages_of (tagged (bt_insert ms (me - ms) m0)) = pages_of (tagged m) \<union> N" .
qed

lemma bt_insert_mem: "(k, v) \<in> set (bt_insert k v m)"
  by (rule map_of_SomeD) (simp add: map_of_bt_insert)

lemma set_fold_bt_remove: "set (fold bt_remove ks m) = {x \<in> set m. fst x \<notin> set ks}"
  by (induction ks arbitrary: m) (auto simp: set_bt_remove)

lemma sorted_fold_bt_remove: "bt_sorted m \<Longrightarrow> bt_sorted (fold bt_remove ks m)"
  by (induction ks arbitrary: m) auto

lemma scan_txn_runs_spec:
  assumes "\<forall>(s, l) \<in> set L. unat s + unat l < 2 ^ 64 \<and> ms \<le> s" and "ms \<le> me"
  shows "\<exists>me' pre post. scan_txn_runs me removed L = Inr (me', removed @ map fst pre) \<and> L = pre @ post \<and> me \<le> me'
    \<and> {unat ms ..< unat me'} = {unat ms ..< unat me} \<union> (\<Union>(s, l) \<in> set pre. run_pages s l)"
  using assms
proof (induction L arbitrary: me removed)
  case Nil
  show ?case by simp
next
  case (Cons x L)
  obtain s l where x: "x = (s, l)" by force
  have b: "unat s + unat l < 2 ^ 64" "ms \<le> s" using Cons.prems(1) by (auto simp: x)
  show ?case
  proof (cases "me < s")
    case True
    then show ?thesis by (intro exI [of _ me] exI [of _ "[]"] exI [of _ "x # L"]) (simp add: x)
  next
    case False
    have u: "unat (s + l) = unat s + unat l" using b by (simp add: unat_word_ariths)
    have ca: "checked_add s l = Some (s + l)" using b by (simp add: checked_add_def u)
    have le: "ms \<le> max me (s + l)" using Cons.prems(2) by (simp add: le_max_iff_disj)
    obtain me' pre post where r: "scan_txn_runs (max me (s + l)) (removed @ [s]) L = Inr (me', (removed @ [s]) @ map fst pre)"
      "L = pre @ post" "max me (s + l) \<le> me'" and p: "{unat ms ..< unat me'} = {unat ms ..< unat (max me (s + l))} \<union> (\<Union>(s, l) \<in> set pre. run_pages s l)"
      using Cons.IH [OF _ le, of "removed @ [s]"] Cons.prems(1) by auto
    have "{unat ms ..< unat (max me (s + l))} = {unat ms ..< unat me} \<union> run_pages s l"
      using False b Cons.prems(2) by (auto simp: run_pages_def max_def word_le_nat_alt word_less_nat_alt u)
    then have "{unat ms ..< unat me'} = {unat ms ..< unat me} \<union> (\<Union>(s, l) \<in> set ((s, l) # pre). run_pages s l)" using p by auto
    then show ?thesis using r False
      by (intro exI [of _ me'] exI [of _ "(s, l) # pre"] exI [of _ post]) (simp add: x ca ok_or_def)
  qed
qed

lemma insert_txn_run_spec:
  assumes ok: "runs_ok B (tagged m)" and B: "B < 2 ^ 64" and se: "start < fin" "unat fin \<le> B"
    and new: "{unat start ..< unat fin} \<inter> pages_of (tagged m) = {}"
  shows "\<exists>ch m'. insert_txn_run m start fin = Inr (ch, m') \<and> runs_ok B (tagged m') \<and> pages_of (tagged m') = pages_of (tagged m) \<union> {unat start ..< unat fin}
    \<and> (tc_inserted_start ch, tc_inserted_len ch) \<in> set m'"
proof -
  have fits: "unat s + unat l \<le> B" if "(s, l) \<in> set m" for s l using runs_okD [OF ok, of s l "()"] that by simp
  have ca: "checked_add s l = Some (s + l) \<and> unat (s + l) = unat s + unat l" if "(s, l) \<in> set m" for s l
    using fits [OF that] B by (simp add: checked_add_def unat_word_ariths)
  have sorted: "bt_sorted m" using ok by (simp add: runs_ok_def sorted_tagged)
  have core: "\<exists>ch m'. rbind (scan_txn_runs e0 (map fst P) (filter (\<lambda>(k, _). scan \<le> k) m)) (\<lambda>(merged_end, removed).
          Inr (\<lparr>tc_removed_starts = removed, tc_inserted_start = ms, tc_inserted_len = merged_end - ms\<rparr>,
               bt_insert ms (merged_end - ms) (fold bt_remove removed m))) = Inr (ch, m') \<and> runs_ok B (tagged m')
        \<and> pages_of (tagged m') = pages_of (tagged m) \<union> {unat start ..< unat fin} \<and> (tc_inserted_start ch, tc_inserted_len ch) \<in> set m'"
    if P: "set P \<subseteq> set m" and e0: "{unat ms ..< unat e0} = {unat start ..< unat fin} \<union> (\<Union>(s, l) \<in> set P. run_pages s l)"
      and le: "ms \<le> scan" "ms < e0" for P ms e0 scan
  proof -
    let ?L = "filter (\<lambda>(k, _). scan \<le> k) m"
    have "\<forall>(s, l) \<in> set ?L. unat s + unat l < 2 ^ 64 \<and> ms \<le> s" using fits B le by fastforce
    from scan_txn_runs_spec [OF this less_imp_le [OF le(2)], of "map fst P"] obtain me pre post
      where r: "scan_txn_runs e0 (map fst P) ?L = Inr (me, map fst P @ map fst pre)" "?L = pre @ post" "e0 \<le> me"
      and u: "{unat ms ..< unat me} = {unat ms ..< unat e0} \<union> (\<Union>(s, l) \<in> set pre. run_pages s l)" by blast
    let ?C = "set P \<union> set pre" and ?ks = "map fst P @ map fst pre"
    have "set pre \<subseteq> set ?L" unfolding r(2) by simp
    then have C: "?C \<subseteq> set m" using P by auto
    have R: "{unat ms ..< unat me} = {unat start ..< unat fin} \<union> (\<Union>(s, l) \<in> ?C. run_pages s l)" unfolding u e0 by auto
    have lt: "unat ms < unat me" using le r(3) by (simp add: word_less_nat_alt word_le_nat_alt)
    have "unat me - 1 \<in> {unat ms ..< unat me}" using lt by auto
    moreover have "{unat start ..< unat fin} \<union> (\<Union>(s, l) \<in> ?C. run_pages s l) \<subseteq> {..<B}"
      using se C fits by (fastforce simp: run_pages_def)
    ultimately have meB: "unat me \<le> B" unfolding R by force
    have st: "set (fold bt_remove ?ks m) = set m - ?C"
    proof -
      have "x \<in> ?C" if "x \<in> set m" "fst x \<in> fst ` ?C" for x
      proof -
        from that(2) obtain y where y: "y \<in> ?C" "fst y = fst x" by (rule imageE) simp
        then have "y \<in> set m" using C by blast
        with that(1) y show ?thesis using bt_sorted_distinct [OF sorted] by (metis prod.collapse eq_key_imp_eq_value)
      qed
      then show ?thesis unfolding set_fold_bt_remove by (auto simp: image_Un)
    qed
    note k = merge_pages [OF ok C R new lt meB sorted_fold_bt_remove [OF sorted] st]
    show ?thesis using k bt_insert_mem [of ms "me - ms"] by (simp add: r(1))
  qed
  show ?thesis
  proof (cases "bt_floor start m")
    case None
    then show ?thesis using core [of "[]" start fin start] se by (simp add: insert_txn_run_def)
  next
    case (Some e)
    obtain ps pl where e: "e = (ps, pl)" by force
    have p: "(ps, pl) \<in> set m" "ps \<le> start" using bt_floor_Some [OF Some] by (auto simp: e)
    show ?thesis
    proof (cases "start \<le> ps + pl")
      case False
      then show ?thesis using core [of "[]" start fin start] se Some ca [OF p(1)] by (simp add: insert_txn_run_def e ok_or_def)
    next
      case True
      have b: "unat ps < 2 ^ 64 - 1" using runs_okD [OF ok, of ps pl "()"] p(1) B by simp
      then have ps: "unat (ps + 1) = unat ps + 1" by (simp add: unat_word_ariths)
      have c1: "checked_add ps 1 = Some (ps + 1)" using b by (simp add: checked_add_def)
      have "{unat ps ..< unat (max fin (ps + pl))} = {unat start ..< unat fin} \<union> (\<Union>(s, l) \<in> set [(ps, pl)]. run_pages s l)"
        using True p(2) se ca [OF p(1)] by (auto simp: run_pages_def max_def word_le_nat_alt word_less_nat_alt)
      moreover have "ps \<le> ps + 1" using ps by (simp add: word_le_nat_alt)
      moreover have "ps < max fin (ps + pl)" using le_less_trans [OF p(2) se(1)] by (simp add: less_max_iff_disj)
      ultimately show ?thesis using core [of "[(ps, pl)]" ps "max fin (ps + pl)" "ps + 1"] p(1) Some True ca [OF p(1)] c1
        by (simp add: insert_txn_run_def e ok_or_def)
    qed
  qed
qed

section \<open>Freeing\<close>

lemma fold_mark_frame: "\<exists>d. fold (\<lambda>start b. mark_free_map_dirty b start 1) xs a = a\<lparr>pa_dirty := d\<rparr>"
proof (induction xs arbitrary: a)
  case Nil
  show ?case by (rule exI [of _ "pa_dirty a"]) simp
next
  case (Cons x xs)
  obtain d where "mark_free_map_dirty a x 1 = a\<lparr>pa_dirty := d\<rparr>" using mark_dirty_frame by blast
  with Cons.IH [of "a\<lparr>pa_dirty := d\<rparr>"] show ?case by auto
qed

lemma no_overlap:
  assumes "unat s + unat l < 2 ^ 64" "unat s' + unat l' < 2 ^ 64" "0 < unat l" "0 < unat l'" "run_pages s l \<inter> run_pages s' l' = {}"
  shows "\<not> (s < saturating_add s' l' \<and> s' < saturating_add s l)"
proof
  assume o: "s < saturating_add s' l' \<and> s' < saturating_add s l"
  then have "max (unat s) (unat s') \<in> run_pages s l \<inter> run_pages s' l'"
    using assms(1-4) by (auto simp: run_pages_def word_less_nat_alt unat_sat max_def)
  with assms(5) show False by blast
qed

lemma note_new_frame:
  assumes ok: "runs_ok B (pa_free a)" and B: "B < 2 ^ 64" and l: "0 < unat (tc_inserted_len ch)"
    "unat (tc_inserted_start ch) + unat (tc_inserted_len ch) \<le> B"
    and dis: "run_pages (tc_inserted_start ch) (tc_inserted_len ch) \<inter> free_set a = {}"
  shows "\<exists>d. note_new_extent_changes a ch = a\<lparr>pa_dirty := d\<rparr>"
proof -
  obtain d where d: "fold (\<lambda>start b. mark_free_map_dirty b start 1) (tc_removed_starts ch) a = a\<lparr>pa_dirty := d\<rparr>"
    using fold_mark_frame by blast
  have no: "\<not> (s < saturating_add (tc_inserted_start ch) (tc_inserted_len ch) \<and> saturating_add s k > tc_inserted_start ch)"
    if "(s, k, g) \<in> set (pa_free a)" for s k g
  proof -
    have "run_pages s k \<subseteq> free_set a" using that by (force simp: pages_of_def)
    then show ?thesis using no_overlap [of s k "tc_inserted_start ch" "tc_inserted_len ch"] runs_okD [OF ok that] B l dis by auto
  qed
  have f: "filter (\<lambda>(start, len, _). start < saturating_add (tc_inserted_start ch) (tc_inserted_len ch) \<and> saturating_add start len > tc_inserted_start ch)
      (pa_free a) = []" using no by (auto simp: filter_empty_conv)
  have f': "pa_free (a\<lparr>pa_dirty := d\<rparr>) = pa_free a" by simp
  show ?thesis unfolding note_new_extent_changes_def d Let_def f' f using note_upsert_frame [of "a\<lparr>pa_dirty := d\<rparr>"] by auto
qed

lemma txn_changes_frame:
  assumes m: "maps_ok a" and mem: "(tc_inserted_start ch, tc_inserted_len ch) \<in> set m'" and ok: "runs_ok (unat (pa_end a)) (tagged m')"
    and dis: "pages_of (tagged m') \<inter> free_set a = {}" and b: "pa_free b = pa_free a"
  shows "\<exists>d. note_new_extent_changes b ch = b\<lparr>pa_dirty := d\<rparr>"
proof -
  have "run_pages (tc_inserted_start ch) (tc_inserted_len ch) \<subseteq> pages_of (tagged m')" using mem by (force simp: pages_of_tagged)
  moreover have "0 < unat (tc_inserted_len ch) \<and> unat (tc_inserted_start ch) + unat (tc_inserted_len ch) \<le> unat (pa_end a)"
    using runs_okD [OF ok, of "tc_inserted_start ch" "tc_inserted_len ch" "()"] mem by simp
  moreover have "runs_ok (unat (pa_end a)) (pa_free b)" using m b by (simp add: maps_ok_def)
  ultimately show ?thesis using note_new_frame [of "unat (pa_end a)" b ch] unat_bound [of "pa_end a"] dis b by auto
qed

lemma page_range_to: "start \<le> fin \<Longrightarrow> unat ` page_range start fin = {unat start ..< unat fin}"
  unfolding page_range_def using unat_bound [of fin] by (force simp: unat_of_nat image_iff)

lemma active_drop: "start \<le> fin \<Longrightarrow> unat ` (A - page_range start fin) = unat ` A - {unat start ..< unat fin}"
proof -
  assume le: "start \<le> fin"
  have "inj (unat :: u64 \<Rightarrow> nat)" by (rule injI) (rule unsigned_word_eqI)
  from image_set_diff [OF this, of A "page_range start fin"] show ?thesis by (simp add: page_range_to [OF le])
qed

lemma parts_move:
  assumes "parts [L, F, S, T, D, B] U" and "R \<subseteq> L"
  shows "parts [L - R, F, S, T \<union> R, D, B] U" and "parts [L - R, F, S, T, D \<union> R, B] U"
proof -
  have p: "L \<subseteq> U" "F \<subseteq> U - L" "S \<subseteq> U - L - F" "T \<subseteq> U - L - F - S" "D \<subseteq> U - L - F - S - T" "B = U - L - F - S - T - D"
    using assms(1) by auto
  show "parts [L - R, F, S, T \<union> R, D, B] U" unfolding parts.simps p(6) using p(1-5) assms(2) by (intro conjI) blast+
  show "parts [L - R, F, S, T, D \<union> R, B] U" unfolding parts.simps p(6) using p(1-5) assms(2) by (intro conjI) blast+
qed

text \<open>The pages \<open>R\<close> move from the live ones to one of the two maps of the transaction.\<close>

lemma account_free:
  assumes acc: "account live0 a" and R: "R \<subseteq> live_pages live0 a" and m: "maps_ok a'"
    and same: "pa_end a' = pa_end a" "pa_start_end a' = pa_start_end a" "pa_free a' = pa_free a" "pa_publication_reserve a' = pa_publication_reserve a"
      "pa_bootstrap a' = pa_bootstrap a" "pa_allocated_runs a' = pa_allocated_runs a" "unat ` pa_active a' = unat ` pa_active a - R"
    and moved: "txn_set a' = txn_set a \<union> R \<and> deferred_set a' = deferred_set a \<or> txn_set a' = txn_set a \<and> deferred_set a' = deferred_set a \<union> R"
  shows "account live0 a'" and "live_pages live0 a' = live_pages live0 a - R"
proof -
  show live: "live_pages live0 a' = live_pages live0 a - R" using moved unfolding live_pages_def same(7) by auto
  note d = account_disjoint [OF acc]
  have ever: "ever_allocated a' = ever_allocated a" by (simp add: ever_allocated_def same)
  have ps: "parts [live_pages live0 a, free_set a, reserve_set a, txn_set a, deferred_set a, bootstrap_set a] {..<unat (pa_end a)}"
    using acc by (simp add: account_def)
  have "parts [live_pages live0 a', free_set a', reserve_set a', txn_set a', deferred_set a', bootstrap_set a'] {..<unat (pa_end a')}"
    unfolding live same using moved parts_move [OF ps R] by metis
  then show "account live0 a'" using acc m by (simp add: account_def same ever) blast
qed

lemma validate_span:
  assumes "0 < unat n" "unat start + unat n \<le> unat (pa_end a)"
  shows "validate_free_span a start n = Inr (start + n)" "unat (start + n) = unat start + unat n" "start < start + n"
proof -
  have b: "unat start + unat n < 2 ^ 64" using assms unat_bound [of "pa_end a"] by simp
  then show u: "unat (start + n) = unat start + unat n" by (simp add: unat_word_ariths)
  show "start < start + n" using assms by (simp add: word_less_nat_alt u)
  have "n \<noteq> 0" using assms by auto
  then show "validate_free_span a start n = Inr (start + n)"
    using b assms by (simp add: validate_free_span_def checked_add_def ok_or_def word_less_nat_alt u)
qed

lemma not_in_reserve:
  assumes acc: "account live0 a" and n: "0 < unat n" "unat start + unat n \<le> unat (pa_end a)" and R: "run_pages start n \<subseteq> live_pages live0 a"
  shows "\<not> metadata_bootstrap_reserve_overlaps a start n"
proof
  assume "metadata_bootstrap_reserve_overlaps a start n"
  then obtain s l where e: "(s, l) \<in> set (pa_bootstrap a)" and o: "ranges_overlap start n s l"
    by (auto simp: metadata_bootstrap_reserve_overlaps_def list_ex_iff)
  have b: "0 < unat l \<and> unat s + unat l \<le> unat (pa_end a)"
    using account_maps [OF acc] runs_okD [of "unat (pa_end a)" "tagged (pa_bootstrap a)" s l "()"] e by (simp add: maps_ok_def)
  have "run_pages s l \<subseteq> bootstrap_set a" using e by (force simp: pages_of_tagged)
  then have "run_pages start n \<inter> run_pages s l = {}" using account_disjoint(11) [OF acc] R by blast
  with no_overlap [of start n s l] b n o unat_bound [of "pa_end a"] show False by (simp add: ranges_overlap_def)
qed

lemma free_pages_account:
  assumes acc: "account live0 a" and s: "\<not> pa_suppress a" and n: "0 < unat n" "unat start + unat n \<le> unat (pa_end a)"
    and R: "run_pages start n \<subseteq> live_pages live0 a"
  shows "\<exists>a'. free_pages a start n = (Inr (), a') \<and> account live0 a' \<and> live_pages live0 a' = live_pages live0 a - run_pages start n
    \<and> pa_suppress a' = pa_suppress a"
proof -
  note v = validate_span [OF n]
  have rp: "run_pages start n = {unat start ..< unat (start + n)}" by (simp add: run_pages_def v)
  have m: "maps_ok a" by (rule account_maps [OF acc])
  then have ok: "runs_ok (unat (pa_end a)) (tagged (pa_txn_freed a))" by (simp add: maps_ok_def)
  have E: "unat (pa_end a) < 2 ^ 64" using unat_bound [of "pa_end a"] by simp
  have new: "{unat start ..< unat (start + n)} \<inter> txn_set a = {}" using R account_disjoint(12) [OF acc] rp by blast
  obtain ch m' where i: "insert_txn_run (pa_txn_freed a) start (start + n) = Inr (ch, m')" "runs_ok (unat (pa_end a)) (tagged m')"
    "pages_of (tagged m') = txn_set a \<union> run_pages start n" "(tc_inserted_start ch, tc_inserted_len ch) \<in> set m'"
    using insert_txn_run_spec [OF ok E v(3) _ new] n v(2) rp by auto
  have dis: "pages_of (tagged m') \<inter> free_set a = {}" unfolding i(3) using account_disjoint(2,12) [OF acc] R by blast
  define b where "b = a\<lparr>pa_active := pa_active a - page_range start (start + n), pa_txn_freed := m'\<rparr>"
  obtain d where d: "note_new_extent_changes b ch = b\<lparr>pa_dirty := d\<rparr>"
    using txn_changes_frame [OF m i(4,2) dis, of b] by (auto simp: b_def)
  have f: "free_pages a start n = (Inr (), b\<lparr>pa_dirty := d\<rparr>)"
    using s not_in_reserve [OF acc n R] i(1) d by (simp add: free_pages_def v(1) b_def)
  have "unat ` (pa_active a - page_range start (start + n)) = unat ` pa_active a - run_pages start n"
    unfolding rp by (rule active_drop) (use v(3) in simp)
  moreover have "maps_ok (b\<lparr>pa_dirty := d\<rparr>)" using m i(2) by (simp add: maps_ok_def b_def)
  ultimately show ?thesis using account_free [OF acc R, of "b\<lparr>pa_dirty := d\<rparr>"] i(3) f by (simp add: b_def)
qed

lemma defer_free_account:
  assumes acc: "account live0 a" and s: "\<not> pa_suppress a" and n: "0 < unat n" "unat start + unat n \<le> unat (pa_end a)"
    and R: "run_pages start n \<subseteq> live_pages live0 a"
  shows "\<exists>a'. defer_free a start n = (Inr (), a') \<and> account live0 a' \<and> live_pages live0 a' = live_pages live0 a - run_pages start n
    \<and> pa_suppress a' = pa_suppress a"
proof -
  note v = validate_span [OF n]
  have rp: "run_pages start n = {unat start ..< unat (start + n)}" by (simp add: run_pages_def v)
  have m: "maps_ok a" by (rule account_maps [OF acc])
  then have ok: "runs_ok (unat (pa_end a)) (tagged (pa_deferred a))" by (simp add: maps_ok_def)
  have E: "unat (pa_end a) < 2 ^ 64" using unat_bound [of "pa_end a"] by simp
  have new: "{unat start ..< unat (start + n)} \<inter> deferred_set a = {}" using R account_disjoint(12) [OF acc] rp by blast
  obtain ch m' where i: "insert_txn_run (pa_deferred a) start (start + n) = Inr (ch, m')" "runs_ok (unat (pa_end a)) (tagged m')"
    "pages_of (tagged m') = deferred_set a \<union> run_pages start n" "(tc_inserted_start ch, tc_inserted_len ch) \<in> set m'"
    using insert_txn_run_spec [OF ok E v(3) _ new] n v(2) rp by auto
  have dis: "pages_of (tagged m') \<inter> free_set a = {}" unfolding i(3) using account_disjoint(8,12) [OF acc] R by blast
  define b where "b = a\<lparr>pa_active := pa_active a - page_range start (start + n), pa_deferred := m'\<rparr>"
  obtain d where d: "note_new_extent_changes b ch = b\<lparr>pa_dirty := d\<rparr>"
    using txn_changes_frame [OF m i(4,2) dis, of b] by (auto simp: b_def)
  have f: "defer_free a start n = (Inr (), b\<lparr>pa_dirty := d\<rparr>)"
    using s not_in_reserve [OF acc n R] i(1) d by (simp add: defer_free_def v(1) b_def)
  have "unat ` (pa_active a - page_range start (start + n)) = unat ` pa_active a - run_pages start n"
    unfolding rp by (rule active_drop) (use v(3) in simp)
  moreover have "maps_ok (b\<lparr>pa_dirty := d\<rparr>)" using m i(2) by (simp add: maps_ok_def b_def)
  ultimately show ?thesis using account_free [OF acc R, of "b\<lparr>pa_dirty := d\<rparr>"] i(3) f by (simp add: b_def)
qed

section \<open>The metadata reserve\<close>

lemma bt_from_Some: "bt_from k m = Some e \<Longrightarrow> e \<in> set m \<and> k \<le> fst e"
  by (auto simp: bt_from_def find_Some_iff in_set_conv_nth)

lemma set_remove_one:
  assumes "bt_sorted m" "(k, v) \<in> set m"
  shows "set (bt_remove k m) = set m - {(k, v)}"
proof -
  have u: "x = (k, v)" if "x \<in> set m" "fst x = k" for x
    using eq_key_imp_eq_value [OF bt_sorted_distinct [OF assms(1)] assms(2), of "snd x"] that by (cases x) simp
  show ?thesis unfolding set_bt_remove by (auto dest: u)
qed

lemma absorb_spec:
  assumes "\<forall>(s, l) \<in> set m. unat s + unat l < 2 ^ 64" "bt_sorted m" "ms \<le> me" "absorb saturating_add ms me m = (me', m')"
  shows "\<exists>C. C \<subseteq> set m \<and> set m' = set m - C \<and> bt_sorted m' \<and> me \<le> me'
    \<and> {unat ms ..< unat me'} = {unat ms ..< unat me} \<union> (\<Union>(s, l) \<in> C. run_pages s l)"
  using assms
proof (induction m arbitrary: me rule: measure_induct_rule [of length])
  case (less m)
  show ?case
  proof (cases "\<exists>k v. bt_from ms m = Some (k, v) \<and> k \<le> me")
    case False
    then have "absorb saturating_add ms me m = (me, m)"
      by (subst absorb.simps) (auto simp: not_less [symmetric] split: option.splits)
    with less.prems show ?thesis by (intro exI [of _ "{}"]) simp
  next
    case True
    then obtain k v where k: "bt_from ms m = Some (k, v)" "k \<le> me" by blast
    have e: "(k, v) \<in> set m" "ms \<le> k" using bt_from_Some [OF k(1)] by auto
    note rm = set_remove_one [OF less.prems(2) e(1)]
    have fit: "unat k + unat v < 2 ^ 64" using less.prems(1) e(1) by auto
    let ?me = "max me (saturating_add k v)"
    have a: "absorb saturating_add ms ?me (bt_remove k m) = (me', m')"
      using less.prems(4) k(1) leD [OF k(2)] by (subst (asm) absorb.simps) simp
    have le: "ms \<le> ?me" using less.prems(3) by (simp add: le_max_iff_disj)
    have st: "bt_sorted (bt_remove k m)" using less.prems(2) by simp
    have "length (bt_remove k m) < length m"
      unfolding bt_remove_def by (rule length_filter_less [OF e(1)]) simp
    from less.IH [OF this _ st le a] less.prems(1) rm obtain C where
      C: "C \<subseteq> set m - {(k, v)}" "set m' = set m - {(k, v)} - C" "bt_sorted m'" "?me \<le> me'"
      and p: "{unat ms ..< unat me'} = {unat ms ..< unat ?me} \<union> (\<Union>(s, l) \<in> C. run_pages s l)" by auto
    have "{unat ms ..< unat ?me} = {unat ms ..< unat me} \<union> run_pages k v"
      using k(2) e(2) less.prems(3) fit by (auto simp: run_pages_def max_def word_le_nat_alt unat_sat)
    then show ?thesis using C p e(1) by (intro exI [of _ "insert (k, v) C"]) auto
  qed
qed

lemma merge_range_spec:
  assumes ok: "runs_ok B (tagged m)" and B: "B < 2 ^ 64" and le: "start < end0" and mr: "merge_range saturating_add start end0 m = (ms, me, m')"
  shows "\<exists>C. C \<subseteq> set m \<and> set m' = set m - C \<and> bt_sorted m' \<and> ms < me
    \<and> {unat ms ..< unat me} = {unat start ..< unat end0} \<union> (\<Union>(s, l) \<in> C. run_pages s l)"
proof -
  have fits: "unat s + unat l < 2 ^ 64" if "(s, l) \<in> set m" for s l using runs_okD [OF ok, of s l "()"] that B by simp
  have sorted: "bt_sorted m" using ok by (simp add: runs_ok_def sorted_tagged)
  have core: ?thesis if a: "absorb saturating_add ms e0 m0 = (me, m')" and P: "P \<subseteq> set m" "set m0 = set m - P" "bt_sorted m0"
    and lt: "ms < e0" and r: "{unat ms ..< unat e0} = {unat start ..< unat end0} \<union> (\<Union>(s, l) \<in> P. run_pages s l)" for e0 m0 P
  proof -
    have "\<forall>(s, l) \<in> set m0. unat s + unat l < 2 ^ 64" using fits P by auto
    from absorb_spec [OF this P(3) less_imp_le [OF lt] a] obtain C where C: "C \<subseteq> set m0" "set m' = set m0 - C" "bt_sorted m'" "e0 \<le> me"
      "{unat ms ..< unat me} = {unat ms ..< unat e0} \<union> (\<Union>(s, l) \<in> C. run_pages s l)" by blast
    show ?thesis
      using C P r less_le_trans [OF lt C(4)] by (intro exI [of _ "P \<union> C"]) auto
  qed
  show ?thesis
  proof (cases "\<exists>k v. bt_floor start m = Some (k, v) \<and> start \<le> saturating_add k v")
    case False
    then have "ms = start" "absorb saturating_add ms end0 m = (me, m')"
      using mr by (auto simp: merge_range_def Let_def split: option.splits prod.splits if_splits)
    then show ?thesis using core [of end0 m "{}"] sorted le by simp
  next
    case True
    then obtain k v where k: "bt_floor start m = Some (k, v)" "start \<le> saturating_add k v" by blast
    have e: "(k, v) \<in> set m" "k \<le> start" using bt_floor_Some [OF k(1)] by auto
    have a: "ms = k" "absorb saturating_add ms (max end0 (saturating_add k v)) (bt_remove k m) = (me, m')"
      using mr k by (auto simp: merge_range_def Let_def split: prod.splits)
    have "{unat k ..< unat (max end0 (saturating_add k v))} = {unat start ..< unat end0} \<union> (\<Union>(s, l) \<in> {(k, v)}. run_pages s l)"
      using k(2) e(2) le fits [OF e(1)] by (auto simp: run_pages_def max_def word_le_nat_alt word_less_nat_alt unat_sat)
    moreover have "k < max end0 (saturating_add k v)" using le_less_trans [OF e(2) le] by (simp add: less_max_iff_disj)
    ultimately show ?thesis
      using core [OF a(2), of "{(k, v)}"] e(1) sorted set_remove_one [OF sorted e(1)] a(1) by simp
  qed
qed

lemma insert_bootstrap_spec:
  assumes ok: "runs_ok B (tagged m)" and B: "B < 2 ^ 64" and l: "0 < unat len" "unat start + unat len \<le> B"
    and new: "run_pages start len \<inter> pages_of (tagged m) = {}" and ins: "insert_bootstrap_extent m start len = Inr m'"
  shows "runs_ok B (tagged m')" "pages_of (tagged m') = pages_of (tagged m) \<union> run_pages start len"
proof -
  have u: "unat (start + len) = unat start + unat len" using l B by (simp add: unat_word_ariths)
  have ca: "checked_add start len = Some (start + len)" using l B by (simp add: checked_add_def)
  obtain ms me m0 where mr: "merge_range saturating_add start (start + len) m = (ms, me, m0)" using prod_cases3 by blast
  have m': "m' = bt_insert ms (me - ms) m0"
    using ins by (auto simp: insert_bootstrap_extent_def ca ok_or_def mr Let_def split: if_splits)
  have lt: "start < start + len" using l by (simp add: word_less_nat_alt u)
  obtain C where C: "C \<subseteq> set m" "set m0 = set m - C" "bt_sorted m0" "ms < me"
    "{unat ms ..< unat me} = {unat start ..< unat (start + len)} \<union> (\<Union>(s, l) \<in> C. run_pages s l)"
    using merge_range_spec [OF ok B lt mr] by blast
  have rp: "{unat start ..< unat (start + len)} = run_pages start len" by (simp add: run_pages_def u)
  have "run_pages start len \<union> (\<Union>(s, l) \<in> C. run_pages s l) \<subseteq> {..<B}"
    using pages_of_bound [OF ok] C(1) l by (auto simp: pages_of_tagged run_pages_def)
  moreover have "unat me - 1 \<in> {unat ms ..< unat me}" using C(4) by (auto simp: word_less_nat_alt)
  ultimately have "unat me \<le> B" unfolding C(5) rp by force
  note k = merge_pages [OF ok C(1) C(5) [unfolded rp] new C(4) [unfolded word_less_nat_alt] this C(3,2)]
  show "runs_ok B (tagged m')" "pages_of (tagged m') = pages_of (tagged m) \<union> run_pages start len" unfolding m' by (rule k)+
qed

lemma parts_intro:
  assumes "L \<union> F \<union> S \<union> T \<union> D \<union> B = U" "F \<inter> L = {}" "S \<inter> (L \<union> F) = {}" "T \<inter> (L \<union> F \<union> S) = {}" "D \<inter> (L \<union> F \<union> S \<union> T) = {}"
    "B \<inter> (L \<union> F \<union> S \<union> T \<union> D) = {}"
  shows "parts [L, F, S, T, D, B] U"
  unfolding assms(1) [symmetric] parts.simps using assms(2-6) by (intro conjI) blast+

text \<open>Pages that move between the maps of free, reserved and metadata pages, or come in at the end of the page array.\<close>

lemma account_shift:
  assumes acc: "account live0 a" and m: "maps_ok a'" and le: "unat (pa_end a) \<le> unat (pa_end a')"
    and same: "pa_start_end a' = pa_start_end a" "pa_txn_freed a' = pa_txn_freed a" "pa_deferred a' = pa_deferred a"
      "pa_active a' = pa_active a" "pa_allocated_runs a' = pa_allocated_runs a"
    and dis: "free_set a' \<inter> reserve_set a' = {}" "free_set a' \<inter> bootstrap_set a' = {}" "reserve_set a' \<inter> bootstrap_set a' = {}"
    and un: "free_set a' \<union> reserve_set a' \<union> bootstrap_set a'
      = free_set a \<union> reserve_set a \<union> bootstrap_set a \<union> {unat (pa_end a) ..< unat (pa_end a')}"
  shows "account live0 a'" and "live_pages live0 a' = live_pages live0 a"
proof -
  show live: "live_pages live0 a' = live_pages live0 a" by (simp add: live_pages_def same)
  note d = account_disjoint [OF acc]
  have low: "live_pages live0 a \<union> txn_set a \<union> deferred_set a \<subseteq> {..<unat (pa_end a)}" using d(13) by blast
  let ?N = "{unat (pa_end a) ..< unat (pa_end a')}"
  have U: "{..<unat (pa_end a')} = {..<unat (pa_end a)} \<union> ?N" "{..<unat (pa_end a)} \<inter> ?N = {}" using le by auto
  have N: "?N \<inter> (live_pages live0 a \<union> txn_set a \<union> deferred_set a) = {}" using low by auto
  have sub: "(free_set a' \<union> reserve_set a' \<union> bootstrap_set a') \<inter> (live_pages live0 a \<union> txn_set a \<union> deferred_set a) = {}"
    unfolding un using d(2,3,8,10,11,12) N by blast
  have td: "txn_set a \<inter> deferred_set a = {}" "live_pages live0 a \<inter> txn_set a = {}" "live_pages live0 a \<inter> deferred_set a = {}" using d(9,12) by blast+
  have "parts [live_pages live0 a', free_set a', reserve_set a', txn_set a', deferred_set a', bootstrap_set a'] {..<unat (pa_end a')}"
    unfolding live same
  proof (rule parts_intro)
    have "live_pages live0 a \<union> free_set a' \<union> reserve_set a' \<union> txn_set a \<union> deferred_set a \<union> bootstrap_set a'
        = live_pages live0 a \<union> txn_set a \<union> deferred_set a \<union> (free_set a' \<union> reserve_set a' \<union> bootstrap_set a')" by blast
    also have "\<dots> = (live_pages live0 a \<union> free_set a \<union> reserve_set a \<union> txn_set a \<union> deferred_set a \<union> bootstrap_set a) \<union> ?N" unfolding un by blast
    finally show "live_pages live0 a \<union> free_set a' \<union> reserve_set a' \<union> txn_set a \<union> deferred_set a \<union> bootstrap_set a' = {..<unat (pa_end a')}"
      unfolding d(13) U(1) .
    show "free_set a' \<inter> live_pages live0 a = {}" "reserve_set a' \<inter> (live_pages live0 a \<union> free_set a') = {}" using sub dis(1) by blast+
    show "txn_set a \<inter> (live_pages live0 a \<union> free_set a' \<union> reserve_set a') = {}" using sub td by blast
    show "deferred_set a \<inter> (live_pages live0 a \<union> free_set a' \<union> reserve_set a' \<union> txn_set a) = {}" using sub td by blast
    show "bootstrap_set a' \<inter> (live_pages live0 a \<union> free_set a' \<union> reserve_set a' \<union> txn_set a \<union> deferred_set a) = {}"
      using sub dis(2,3) by blast
  qed
  moreover have ever: "ever_allocated a' = ever_allocated a" by (simp add: ever_allocated_def same)
  moreover have "live0 \<inter> (free_set a' \<union> reserve_set a' \<union> bootstrap_set a' \<union> ever_allocated a) = {}"
  proof -
    have "live0 \<subseteq> live_pages live0 a \<union> txn_set a \<union> deferred_set a" by (auto simp: live_pages_def)
    then have "live0 \<inter> ?N = {}" using N by blast
    then show ?thesis unfolding un using d(4,5,6,7) by blast
  qed
  moreover have "\<forall>(s, n) \<in> set (pa_allocated_runs a). unat s + unat n \<le> unat (pa_end a')" "live0 \<subseteq> {..<unat (pa_start_end a)}"
    "unat ` pa_active a \<subseteq> ever_allocated a"
    using acc le by (auto simp: account_def)
  ultimately show "account live0 a'" using m unfolding account_def same by simp
qed

lemma carve_keeps:
  assumes ok: "runs_ok B m" and r: "(s, l, g) \<in> set m" and sel: "unat fin = unat s + unat l" "unat s \<le> unat lo" "unat lo < unat hi"
    and e: "(s', l', g') \<in> set m" "s' \<noteq> s"
  shows "(s', l', g') \<in> set (carve_map s fin g lo hi m)"
proof -
  have "s' \<noteq> hi" if "hi < fin"
  proof
    assume h: "s' = hi"
    have "unat hi \<in> run_pages s l" using that sel by (simp add: run_pages_def word_less_nat_alt)
    moreover have "unat hi \<in> run_pages s' l'" using runs_okD [OF ok e(1)] h by (simp add: run_pages_def)
    ultimately show False using runs_ok_disjoint [OF ok r e(1)] e(2) by blast
  qed
  then have "map_of (carve_map s fin g lo hi m) s' = map_of m s'"
    using e(2) by (auto simp: carve_map_def Let_def map_of_bt_insert map_of_bt_remove)
  with map_of_runs [OF ok e(1)] show ?thesis by (intro map_of_SomeD) simp
qed

lemma reserve_bootstrap_account:
  assumes acc: "account live0 a" and r: "(s, l, g) \<in> set (pa_free a)" and res: "reserve_metadata_bootstrap_run a s l g lo n = Inr a'"
  shows "account live0 a'" "live_pages live0 a' = live_pages live0 a" "pa_suppress a' = pa_suppress a"
    and "\<And>s' l' g'. (s', l', g') \<in> set (pa_free a) \<Longrightarrow> s' \<noteq> s \<Longrightarrow> (s', l', g') \<in> set (pa_free a')"
proof -
  have m: "maps_ok a" by (rule account_maps [OF acc])
  then have ok: "runs_ok (unat (pa_end a)) (pa_free a)" and okb: "runs_ok (unat (pa_end a)) (tagged (pa_bootstrap a))" by (simp_all add: maps_ok_def)
  have E: "unat (pa_end a) < 2 ^ 64" using unat_bound [of "pa_end a"] by simp
  note h = hit_run [OF ok E r]
  obtain mb where c: "n \<noteq> 0" "s \<le> lo" "saturating_add lo n \<le> saturating_add s l" and ins: "insert_bootstrap_extent (pa_bootstrap a) lo n = Inr mb"
    and a': "a' = (carve_free a s (saturating_add s l) g lo (saturating_add lo n))\<lparr>pa_bootstrap := mb\<rparr>"
    using res by (auto simp: reserve_metadata_bootstrap_run_def Let_def result_simps not_less split: if_splits)
  have n: "0 < unat n" using c(1) unat_gt_0 by blast
  have ca: "checked_add lo n \<noteq> None" using ins by (auto simp: insert_bootstrap_extent_def ok_or_def split: if_splits option.splits)
  then have u: "unat (saturating_add lo n) = unat lo + unat n" by (intro unat_sat) (auto simp: checked_add_def split: if_splits)
  have sel: "unat s \<le> unat lo" "unat lo < unat (saturating_add lo n)" "unat (saturating_add lo n) \<le> unat (saturating_add s l)"
    using c n u by (simp_all add: word_le_nat_alt)
  note cp = carve_pages [OF ok r h(1) sel]
  have rp: "{unat lo ..< unat (saturating_add lo n)} = run_pages lo n" by (simp add: run_pages_def u)
  obtain d where d: "carve_free a s (saturating_add s l) g lo (saturating_add lo n)
      = a\<lparr>pa_free := carve_map s (saturating_add s l) g lo (saturating_add lo n) (pa_free a), pa_dirty := d\<rparr>"
    using carve_free_frame by blast
  have fb: "free_set a \<inter> bootstrap_set a = {}" "free_set a \<inter> reserve_set a = {}" "reserve_set a \<inter> bootstrap_set a = {}"
    using account_disjoint(1,11) [OF acc] by blast+
  have new: "run_pages lo n \<inter> bootstrap_set a = {}" using cp(2) fb rp by blast
  note b = insert_bootstrap_spec [OF okb E n _ new ins] 
  have b1: "runs_ok (unat (pa_end a)) (tagged mb)" "pages_of (tagged mb) = bootstrap_set a \<union> run_pages lo n"
    using b cp(4) u by simp_all
  have m': "maps_ok a'" using m cp(3) b1(1) by (simp add: a' d maps_ok_def)
  have f: "free_set a' = free_set a - run_pages lo n" using cp(1) rp by (simp add: a' d)
  have bs: "bootstrap_set a' = bootstrap_set a \<union> run_pages lo n" using b1(2) by (simp add: a' d)
  have rs: "reserve_set a' = reserve_set a" by (simp add: a' d)
  have in_free: "run_pages lo n \<subseteq> free_set a" using cp(2) rp by simp
  have dis: "free_set a' \<inter> reserve_set a' = {}" "free_set a' \<inter> bootstrap_set a' = {}" "reserve_set a' \<inter> bootstrap_set a' = {}"
    unfolding f bs rs using fb in_free by blast+
  have e: "pa_end a' = pa_end a" by (simp add: a' d)
  have un: "free_set a' \<union> reserve_set a' \<union> bootstrap_set a' = free_set a \<union> reserve_set a \<union> bootstrap_set a \<union> {unat (pa_end a) ..< unat (pa_end a')}"
    unfolding f bs rs e using in_free by auto
  note k = account_shift [OF acc m' _ _ _ _ _ _ dis un]
  show "account live0 a'" by (rule k(1)) (simp_all add: a' d)
  show "live_pages live0 a' = live_pages live0 a" by (rule k(2)) (simp_all add: a' d)
  show "pa_suppress a' = pa_suppress a" by (simp add: a' d)
  show "(s', l', g') \<in> set (pa_free a')" if "(s', l', g') \<in> set (pa_free a)" "s' \<noteq> s" for s' l' g'
    using carve_keeps [OF ok r h(1) sel(1,2) that] by (simp add: a' d)
qed

lemma refill_candidates_account:
  assumes "account live0 a" "refill_candidates cs n a = Inr (n', a')"
    "\<forall>(s, l, g, lo, hi) \<in> set cs. (s, l, g) \<in> set (pa_free a)" "distinct (map fst cs)"
  shows "account live0 a' \<and> live_pages live0 a' = live_pages live0 a \<and> pa_suppress a' = pa_suppress a"
  using assms
proof (induction cs n a rule: refill_candidates.induct)
  case (1 n a)
  then show ?case by simp
next
  case (2 s l g lo hi cs n a)
  show ?case
  proof (cases "n = 0 \<or> length (pa_bootstrap a) \<ge> METADATA_BOOTSTRAP_MAX_EXTENTS - 1")
    case True
    then show ?thesis using "2.prems"(1,2) by simp
  next
    case False
    define k where "k = min n (saturating_sub hi lo)"
    obtain a1 where r: "reserve_metadata_bootstrap_run a s l g lo k = Inr a1" and rest: "refill_candidates cs (n - k) a1 = Inr (n', a')"
      using "2.prems"(2) False by (auto simp: Let_def k_def [symmetric] rbind_eq_Inr)
    have e: "(s, l, g) \<in> set (pa_free a)" using "2.prems"(3) by simp
    note b = reserve_bootstrap_account [OF "2.prems"(1) e r]
    have "\<forall>(s', l', g', lo', hi') \<in> set cs. (s', l', g') \<in> set (pa_free a1)"
      using "2.prems"(3,4) b(4) by (fastforce simp: image_iff)
    from "2.IH" [OF False k_def r b(1) rest this] "2.prems"(4) b(2,3) show ?thesis by simp
  qed
qed

lemma refill_selection_entries:
  assumes "bt_sorted free"
  shows "\<forall>(s, l, g, lo, hi) \<in> set (refill_selection free allowed). (s, l, g) \<in> set free"
    and "distinct (map fst (refill_selection free allowed))"
proof -
  show "\<forall>(s, l, g, lo, hi) \<in> set (refill_selection free allowed). (s, l, g) \<in> set free"
    by (auto simp: refill_selection_def List.map_filter_def Let_def split: if_splits)
  have k: "fst (the (f x)) = fst x" if "f x \<noteq> None"
    "f = (\<lambda>(start, len, g). let lo = max start (fr_start allowed); hi = min (saturating_add start len) (fr_end allowed)
      in if start < fr_end allowed \<and> lo < hi \<and> g = fr_freed_gen allowed then Some (start, len, g, lo, hi) else None)" for f and x :: "u64 \<times> u64 \<times> u64"
    using that by (auto simp: Let_def split: prod.splits if_splits)
  have "map fst (refill_selection free allowed) = map fst (filter (\<lambda>x. (case x of (start, len, g) \<Rightarrow>
      let lo = max start (fr_start allowed); hi = min (saturating_add start len) (fr_end allowed)
      in if start < fr_end allowed \<and> lo < hi \<and> g = fr_freed_gen allowed then Some (start, len, g, lo, hi) else None) \<noteq> None) free)"
    unfolding refill_selection_def List.map_filter_def map_map by (rule map_cong [OF refl]) (simp add: k del: not_None_eq)
  then show "distinct (map fst (refill_selection free allowed))"
    using distinct_map_filter [OF bt_sorted_distinct [OF assms]] by simp
qed

lemma refill_from_account:
  assumes "account live0 a" "refill_from es n a = Inr (n', a')"
  shows "account live0 a' \<and> live_pages live0 a' = live_pages live0 a \<and> pa_suppress a' = pa_suppress a"
  using assms
proof (induction es arbitrary: n a)
  case Nil
  then show ?case by simp
next
  case (Cons allowed es)
  show ?case
  proof (cases "n = 0 \<or> length (pa_bootstrap a) \<ge> METADATA_BOOTSTRAP_MAX_EXTENTS - 1")
    case True
    then show ?thesis using Cons.prems by simp
  next
    case False
    obtain n1 a1 where r: "refill_candidates (refill_selection (pa_free a) allowed) n a = Inr (n1, a1)" and rest: "refill_from es n1 a1 = Inr (n', a')"
      using Cons.prems(2) False by (auto simp: rbind_eq_Inr)
    have "bt_sorted (pa_free a)" using account_maps [OF Cons.prems(1)] by (simp add: maps_ok_def runs_ok_def)
    from refill_candidates_account [OF Cons.prems(1) r refill_selection_entries [OF this]] Cons.IH [OF _ rest] show ?thesis by simp
  qed
qed

lemma extend_bootstrap_account:
  assumes acc: "account live0 a" and n: "0 < unat n" and ext: "extend_bootstrap a n = Inr a'"
  shows "account live0 a' \<and> live_pages live0 a' = live_pages live0 a \<and> pa_suppress a' = pa_suppress a"
proof -
  obtain mb where ca: "unat (pa_end a) + unat n < 2 ^ 64" and ins: "insert_bootstrap_extent (pa_bootstrap a) (pa_end a) n = Inr mb"
    and a': "a' = a\<lparr>pa_end := pa_end a + n, pa_bootstrap := mb\<rparr>"
    using ext by (auto simp: extend_bootstrap_def rbind_eq_Inr ok_or_def checked_add_def split: option.splits if_splits)
  have e: "unat (pa_end a + n) = unat (pa_end a) + unat n" using ca by (simp add: unat_word_ariths)
  have m: "maps_ok a" by (rule account_maps [OF acc])
  then have okb: "runs_ok (unat (pa_end a) + unat n) (tagged (pa_bootstrap a))" by (auto simp: maps_ok_def intro: runs_ok_mono)
  have low: "free_set a \<union> reserve_set a \<union> bootstrap_set a \<subseteq> {..<unat (pa_end a)}" using account_disjoint(13) [OF acc] by blast
  have N: "run_pages (pa_end a) n \<inter> {..<unat (pa_end a)} = {}" by (auto simp: run_pages_def)
  have new: "run_pages (pa_end a) n \<inter> bootstrap_set a = {}" using low N by blast
  note b = insert_bootstrap_spec [OF okb ca n order_refl new ins]
  have m': "maps_ok a'" using m b(1) by (auto simp: a' maps_ok_def e intro: runs_ok_mono [where B = "unat (pa_end a)"])
  have s: "free_set a' = free_set a" "reserve_set a' = reserve_set a" "bootstrap_set a' = bootstrap_set a \<union> run_pages (pa_end a) n"
    "run_pages (pa_end a) n = {unat (pa_end a) ..< unat (pa_end a')}"
    using b(2) by (simp_all add: a' e run_pages_def)
  have dis: "free_set a' \<inter> reserve_set a' = {}" "free_set a' \<inter> bootstrap_set a' = {}" "reserve_set a' \<inter> bootstrap_set a' = {}"
    unfolding s(1,2,3) using account_disjoint(1,11) [OF acc] low N by blast+
  have un: "free_set a' \<union> reserve_set a' \<union> bootstrap_set a' = free_set a \<union> reserve_set a \<union> bootstrap_set a \<union> {unat (pa_end a) ..< unat (pa_end a')}"
    unfolding s(1,2,3) s(4) [symmetric] by blast
  note k = account_shift [OF acc m' _ _ _ _ _ _ dis un]
  have "account live0 a'" by (rule k(1)) (simp_all add: a' e)
  moreover have "live_pages live0 a' = live_pages live0 a" by (rule k(2)) (simp_all add: a' e)
  ultimately show ?thesis by (simp add: a')
qed

lemma ensure_bootstrap_account:
  assumes acc: "account live0 a" and r: "ensure_metadata_bootstrap_capacity a = Inr a'"
  shows "account live0 a' \<and> live_pages live0 a' = live_pages live0 a \<and> pa_suppress a' = pa_suppress a"
proof -
  define refill where "refill = saturating_sub METADATA_BOOTSTRAP_TARGET_PAGES (metadata_bootstrap_page_count a)"
  show ?thesis
  proof (cases "metadata_bootstrap_page_count a > METADATA_BOOTSTRAP_REFILL_THRESHOLD_PAGES \<or> refill = 0")
    case True
    then show ?thesis using acc r unfolding ensure_metadata_bootstrap_capacity_def Let_def refill_def [symmetric] by (auto split: if_splits)
  next
    case False
    obtain n1 a1 where f: "refill_from (pa_publication_eligible_runs a) refill a = Inr (n1, a1)"
      and e: "(if n1 = 0 then Inr a1 else extend_bootstrap a1 n1) = Inr a'"
      using r False unfolding ensure_metadata_bootstrap_capacity_def Let_def refill_def [symmetric] by (auto simp: rbind_eq_Inr)
    note p = refill_from_account [OF acc f]
    show ?thesis
      using p e extend_bootstrap_account [of live0 a1 n1 a'] unat_gt_0 [of n1] by (cases "n1 = 0") auto
  qed
qed

end
