(* ===== verification/Loom_Alloc_Run.thy ===== *)
theory Loom_Alloc_Run
  imports Loom_Alloc_Free
begin

text \<open>
  The life of the page allocator of \<^verbatim>\<open>crates/loom-store/src/pagemap.rs\<close> over a transaction: its start
  from the committed free list and metadata reserve, the steps that the commit paths take, and the theorems on
  every allocator that such steps reach.
\<close>

section \<open>Pages from the metadata reserve\<close>

lemma account_take:
  assumes acc: "account live0 a" and m: "maps_ok a'" and R: "R \<subseteq> bootstrap_set a" "R = run_pages p n" "unat p + unat n \<le> unat (pa_end a)"
    and same: "pa_end a' = pa_end a" "pa_start_end a' = pa_start_end a" "pa_free a' = pa_free a" "pa_publication_reserve a' = pa_publication_reserve a"
      "pa_txn_freed a' = pa_txn_freed a" "pa_deferred a' = pa_deferred a" "pa_allocated_runs a' = pa_allocated_runs a @ [(p, n)]"
      "unat ` pa_active a' = unat ` pa_active a \<union> R" and b: "bootstrap_set a' = bootstrap_set a - R"
  shows "account live0 a' \<and> live_pages live0 a' = live_pages live0 a \<union> R"
proof -
  note d = account_disjoint [OF acc]
  have nl: "R \<inter> live0 = {}" using R(1) d(6) by blast
  have live: "live_pages live0 a' = live_pages live0 a \<union> R" unfolding live_pages_def same by blast
  have ever: "ever_allocated a' = ever_allocated a \<union> R" using R(2) by (simp add: ever_allocated_def same Un_commute)
  have "parts [live_pages live0 a', free_set a', reserve_set a', txn_set a', deferred_set a', bootstrap_set a'] {..<unat (pa_end a')}"
    unfolding live same b
  proof (rule parts_intro)
    show "live_pages live0 a \<union> R \<union> free_set a \<union> reserve_set a \<union> txn_set a \<union> deferred_set a \<union> (bootstrap_set a - R) = {..<unat (pa_end a)}"
      unfolding d(13) [symmetric] using R(1) by blast
    show "free_set a \<inter> (live_pages live0 a \<union> R) = {}" using d(11,12) R(1) by blast
    show "reserve_set a \<inter> (live_pages live0 a \<union> R \<union> free_set a) = {}" using d(1,11,12) R(1) by blast
    show "txn_set a \<inter> (live_pages live0 a \<union> R \<union> free_set a \<union> reserve_set a) = {}" using d(2,3,11,12) R(1) by blast
    show "deferred_set a \<inter> (live_pages live0 a \<union> R \<union> free_set a \<union> reserve_set a \<union> txn_set a) = {}" using d(8,9,10,11,12) R(1) by blast
    show "(bootstrap_set a - R) \<inter> (live_pages live0 a \<union> R \<union> free_set a \<union> reserve_set a \<union> txn_set a \<union> deferred_set a) = {}" using d(11) by blast
  qed
  moreover have "live0 \<inter> (free_set a \<union> reserve_set a \<union> (bootstrap_set a - R) \<union> (ever_allocated a \<union> R)) = {}" using d(4-7) nl by blast
  moreover have "\<forall>(s, k) \<in> set (pa_allocated_runs a @ [(p, n)]). unat s + unat k \<le> unat (pa_end a)" "live0 \<subseteq> {..<unat (pa_start_end a)}"
    "unat ` pa_active a \<subseteq> ever_allocated a" using acc R(3) by (auto simp: account_def)
  ultimately have "account live0 a'" using m unfolding account_def same ever b by auto
  with live show ?thesis by blast
qed

definition boot_step :: "u64 \<Rightarrow> u64 \<Rightarrow> u64 \<Rightarrow> (u64 \<times> u64) list \<Rightarrow> PageAllocator \<Rightarrow> PageAllocator" where
  "boot_step start len n m a = a\<lparr>pa_bootstrap := (if n < len then bt_insert (start + n) (len - n) m else m),
     pa_allocated_runs := pa_allocated_runs a @ [(start, n)], pa_active := pa_active a \<union> page_range start (start + n)\<rparr>"

lemma boot_step_account:
  assumes acc: "account live0 a" and b: "pa_bootstrap a = (start, len) # m" and n: "0 < unat n" "n \<le> len"
  shows "account live0 (boot_step start len n m a) \<and> live_pages live0 (boot_step start len n m a) = live_pages live0 a \<union> run_pages start n"
    and "run_pages start n \<subseteq> bootstrap_set a" "unat start + unat n \<le> unat (pa_end a)"
proof -
  let ?a = "boot_step start len n m a"
  have mo: "maps_ok a" by (rule account_maps [OF acc])
  then have ok: "runs_ok (unat (pa_end a)) (tagged (pa_bootstrap a))" by (simp add: maps_ok_def)
  have r: "(start, len, ()) \<in> set (tagged (pa_bootstrap a))" by (simp add: b)
  have E: "unat (pa_end a) < 2 ^ 64" using unat_bound [of "pa_end a"] by simp
  note h = runs_okD [OF ok r]
  have le: "unat n \<le> unat len" using n by (simp add: word_le_nat_alt)
  have u: "unat (start + len) = unat start + unat len" "unat (start + n) = unat start + unat n" using h E le by (simp_all add: unat_word_ariths)
  have "bt_sorted ((start, len) # m)" using ok b by (simp add: runs_ok_def sorted_tagged)
  then have "bt_remove start ((start, len) # m) = m" by (auto simp: bt_remove_def bt_sorted_def filter_id_conv)
  then have "bt_remove start (tagged (pa_bootstrap a)) = tagged m"
    unfolding b by (simp add: tagged_def bt_remove_def filter_map comp_def case_prod_unfold)
  then have c: "tagged (pa_bootstrap ?a) = carve_map start (start + len) () start (start + n) (tagged (pa_bootstrap a))"
    using carve_at_start [of start len n "()" "tagged (pa_bootstrap a)"] h E n by (auto simp: boot_step_def tagged_insert not_less)
  have rp: "{unat start ..< unat (start + n)} = run_pages start n" by (simp add: run_pages_def u)
  note k = carve_pages [OF ok r u(1), of start "start + n", unfolded rp c [symmetric]]
  have s: "unat start < unat (start + n)" "unat (start + n) \<le> unat (start + len)" using u n le by simp_all
  show "run_pages start n \<subseteq> bootstrap_set a" using k(2) s by simp
  moreover show fit: "unat start + unat n \<le> unat (pa_end a)" using k(4) s u by simp
  moreover have "maps_ok ?a" using mo k(3) s by (simp add: maps_ok_def boot_step_def)
  moreover have "unat ` pa_active ?a = unat ` pa_active a \<union> run_pages start n"
    using page_range_to [of start "start + n"] s by (simp add: boot_step_def image_Un rp word_le_nat_alt)
  ultimately show "account live0 ?a \<and> live_pages live0 ?a = live_pages live0 a \<union> run_pages start n"
    using k(1) s by (intro account_take [OF acc, where p = start and n = n]) (simp_all add: boot_step_def)
qed

lemma take_bootstrap_step:
  "take_bootstrap r a acc = (if r = 0 then Inr (acc, a) else case pa_bootstrap a of [] \<Rightarrow> Inl CorruptObject
     | (start, len) # m \<Rightarrow> take_bootstrap (r - min len r) (boot_step start len (min len r) m a)
         (acc @ map word_of_nat [unat start ..< unat start + unat (min len r)]))"
  by (subst take_bootstrap.simps) (simp add: Let_def boot_step_def split: list.splits prod.splits)

lemma take_bootstrap_account:
  assumes "account live0 a" "take_bootstrap r a acc = Inr (ps, a')"
  shows "\<exists>new. ps = acc @ new \<and> length new = unat r \<and> distinct new \<and> account live0 a' \<and> pa_suppress a' = pa_suppress a
    \<and> live_pages live0 a' = live_pages live0 a \<union> unat ` set new \<and> unat ` set new \<inter> (live_pages live0 a \<union> live0) = {}"
  using assms
proof (induction "unat r" arbitrary: r a acc rule: less_induct)
  case less
  show ?case
  proof (cases "r = 0")
    case True
    then show ?thesis using less.prems by (subst (asm) take_bootstrap_step) simp
  next
    case False
    obtain start len m where b: "pa_bootstrap a = (start, len) # m"
      using less.prems(2) False by (subst (asm) take_bootstrap_step) (auto split: list.splits)
    define n where "n = min len r"
    define piece :: "u64 list" where "piece = map word_of_nat [unat start ..< unat start + unat n]"
    have "0 < unat len" using account_maps [OF less.prems(1)] runs_okD [of "unat (pa_end a)" "tagged (pa_bootstrap a)" start len "()"]
      by (simp add: maps_ok_def b)
    then have n: "0 < unat n" "n \<le> len" "n \<le> r" using False unat_gt_0 [of r] by (auto simp: n_def min_def)
    note s = boot_step_account [OF less.prems(1) b n(1,2)]
    let ?a = "boot_step start len n m a"
    have rest: "take_bootstrap (r - n) ?a (acc @ piece) = Inr (ps, a')"
      using less.prems(2) False b by (subst (asm) take_bootstrap_step) (simp add: n_def [symmetric] piece_def)
    have u: "unat (r - n) = unat r - unat n" "unat n \<le> unat r" using n by (simp_all add: unat_minus word_le_nat_alt)
    have "unat (r - n) < unat r" using u n(1) by simp
    from less.hyps [OF this _ rest] s(1) obtain new where k: "ps = (acc @ piece) @ new" "length new = unat (r - n)" "distinct new"
      "account live0 a'" "pa_suppress a' = pa_suppress ?a" "live_pages live0 a' = live_pages live0 ?a \<union> unat ` set new"
      "unat ` set new \<inter> (live_pages live0 ?a \<union> live0) = {}" by blast
    have w: "unat (word_of_nat i :: u64) = i" if "i < unat start + unat n" for i
      using that s(3) unat_bound [of "pa_end a"] by (simp add: unat_of_nat)
    have mp: "map unat piece = [unat start ..< unat start + unat n]"
      unfolding piece_def map_map by (rule map_idI) (simp add: w)
    then have im: "unat ` set piece = run_pages start n" by (metis list.set_map run_pages_def set_upt)
    have "distinct (map unat piece)" unfolding mp by simp
    moreover have "length piece = unat n" by (simp add: piece_def)
    moreover have "run_pages start n \<inter> (live_pages live0 a \<union> live0) = {}" using s(2) account_disjoint(6,11) [OF less.prems(1)] by blast
    moreover have "set piece \<inter> set new = {}" using k(7) im s(1) by blast
    ultimately show ?thesis using k s(1) u im
      by (intro exI [of _ "piece @ new"]) (auto simp: boot_step_def distinct_map)
  qed
qed

lemma alloc_bootstrap_account:
  assumes acc: "account live0 a" and r: "alloc_metadata_bootstrap_pages a n = Inr (ps, a')"
  shows "length ps = unat n \<and> distinct ps \<and> account live0 a' \<and> pa_suppress a' = pa_suppress a
    \<and> live_pages live0 a' = live_pages live0 a \<union> unat ` set ps \<and> unat ` set ps \<inter> (live_pages live0 a \<union> live0) = {}"
proof -
  obtain a1 where e: "(if metadata_bootstrap_page_count a < n then extend_bootstrap a (n - metadata_bootstrap_page_count a) else Inr a) = Inr a1"
    and t: "take_bootstrap n a1 [] = Inr (ps, a')"
    using r by (auto simp: alloc_metadata_bootstrap_pages_def Let_def rbind_eq_Inr split: if_splits)
  have "account live0 a1 \<and> live_pages live0 a1 = live_pages live0 a \<and> pa_suppress a1 = pa_suppress a"
  proof (cases "metadata_bootstrap_page_count a < n")
    case True
    then have "0 < unat (n - metadata_bootstrap_page_count a)" using unat_minus [OF less_imp_le [OF True]] by (simp add: word_less_nat_alt)
    with extend_bootstrap_account [OF acc] e True show ?thesis by simp
  qed (use e acc in simp)
  with take_bootstrap_account [OF _ t] show ?thesis by fastforce
qed

section \<open>The publication reserve\<close>

lemma reserve_piece_account:
  assumes acc: "account live0 a" and r: "(s, l, g) \<in> set (pa_free a)"
    and a'_def: "a' = reserve_piece reserved (s, l, g) a"
  shows "account live0 a'" "live_pages live0 a' = live_pages live0 a" "pa_suppress a' = pa_suppress a"
    and "\<And>s' l' g'. (s', l', g') \<in> set (pa_free a) \<Longrightarrow> s' \<noteq> s \<Longrightarrow> (s', l', g') \<in> set (pa_free a')"
proof -
  define fin where "fin = saturating_add s l"
  define lo where "lo = max s (fr_start reserved)"
  define hi where "hi = min fin (fr_end reserved)"
  have "account live0 a' \<and> live_pages live0 a' = live_pages live0 a \<and> pa_suppress a' = pa_suppress a
    \<and> (\<forall>s' l' g'. (s', l', g') \<in> set (pa_free a) \<longrightarrow> s' \<noteq> s \<longrightarrow> (s', l', g') \<in> set (pa_free a'))"
  proof (cases "hi \<le> lo")
    case True
    then have "a' = a" by (simp add: a'_def reserve_piece_def Let_def fin_def [symmetric] lo_def [symmetric] hi_def [symmetric])
    with acc show ?thesis by simp
  next
    case False
    have m: "maps_ok a" by (rule account_maps [OF acc])
    then have ok: "runs_ok (unat (pa_end a)) (pa_free a)" and okr: "runs_ok (unat (pa_end a)) (pa_publication_reserve a)" by (simp_all add: maps_ok_def)
    have E: "unat (pa_end a) < 2 ^ 64" using unat_bound [of "pa_end a"] by simp
    note h = hit_run [OF ok E r]
    have sel: "unat s \<le> unat lo" "unat lo < unat hi" "unat hi \<le> unat fin"
      using False by (simp_all add: lo_def hi_def fin_def word_le_nat_alt [symmetric] word_less_nat_alt [symmetric] not_le)
    have fin: "unat fin = unat s + unat l" by (simp add: fin_def h)
    note cp = carve_pages [OF ok r fin sel]
    obtain d where d: "carve_free a s fin g lo hi = a\<lparr>pa_free := carve_map s fin g lo hi (pa_free a), pa_dirty := d\<rparr>"
      using carve_free_frame by blast
    let ?r = "bt_insert lo (hi - lo, g) (pa_publication_reserve a)"
    let ?b = "a\<lparr>pa_free := carve_map s fin g lo hi (pa_free a), pa_dirty := d, pa_publication_reserve := ?r\<rparr>"
    obtain d' where d': "note_extent_upsert ?b (free_run lo (hi - lo) g) = ?b\<lparr>pa_dirty := d'\<rparr>" using note_upsert_frame by blast
    have a': "a' = ?b\<lparr>pa_dirty := d', pa_publication_reserved_pages := saturating_add (pa_publication_reserved_pages a) (hi - lo)\<rparr>"
      using False d d' by (simp add: a'_def reserve_piece_def Let_def fin_def [symmetric] lo_def [symmetric] hi_def [symmetric])
    have u: "unat (hi - lo) = unat hi - unat lo" using sel by (intro unat_minus) (simp add: word_le_nat_alt)
    have rp: "run_pages lo (hi - lo) = {unat lo ..< unat hi}" using sel by (simp add: run_pages_def u)
    have fr: "free_set a \<inter> reserve_set a = {}" "free_set a \<inter> bootstrap_set a = {}" "reserve_set a \<inter> bootstrap_set a = {}"
      using account_disjoint(1,11) [OF acc] by blast+
    have new: "run_pages lo (hi - lo) \<inter> reserve_set a = {}" using cp(2) fr(1) rp by blast
    have l: "0 < unat (hi - lo)" "unat lo + unat (hi - lo) \<le> unat (pa_end a)" using u sel cp(4) by simp_all
    note ri = runs_insert [OF okr l new, of g]
    have m': "maps_ok a'" using m cp(3) ri(1) by (simp add: a' maps_ok_def)
    have s: "free_set a' = free_set a - {unat lo ..< unat hi}" "reserve_set a' = reserve_set a \<union> {unat lo ..< unat hi}" "bootstrap_set a' = bootstrap_set a"
      "pa_end a' = pa_end a"
      using cp(1) ri(2) by (simp_all add: a' pages_of_gens image_Un rp)
    have dis: "free_set a' \<inter> reserve_set a' = {}" "free_set a' \<inter> bootstrap_set a' = {}" "reserve_set a' \<inter> bootstrap_set a' = {}"
      unfolding s using fr cp(2) by blast+
    have un: "free_set a' \<union> reserve_set a' \<union> bootstrap_set a' = free_set a \<union> reserve_set a \<union> bootstrap_set a \<union> {unat (pa_end a) ..< unat (pa_end a')}"
      unfolding s using cp(2) by auto
    note k = account_shift [OF acc m' _ _ _ _ _ _ dis un]
    have "account live0 a'" by (rule k(1)) (simp_all add: a')
    moreover have "live_pages live0 a' = live_pages live0 a" by (rule k(2)) (simp_all add: a')
    ultimately show ?thesis using carve_keeps [OF ok r fin sel(1,2)] by (simp add: a')
  qed
  then show "account live0 a'" "live_pages live0 a' = live_pages live0 a" "pa_suppress a' = pa_suppress a"
    "\<And>s' l' g'. (s', l', g') \<in> set (pa_free a) \<Longrightarrow> s' \<noteq> s \<Longrightarrow> (s', l', g') \<in> set (pa_free a')" by blast+
qed

lemma reserve_pieces_account:
  assumes "account live0 a" "set xs \<subseteq> set (pa_free a)" "distinct (map fst xs)"
  shows "account live0 (fold (reserve_piece reserved) xs a) \<and> live_pages live0 (fold (reserve_piece reserved) xs a) = live_pages live0 a
    \<and> pa_suppress (fold (reserve_piece reserved) xs a) = pa_suppress a"
  using assms
proof (induction xs arbitrary: a)
  case Nil
  then show ?case by simp
next
  case (Cons x xs)
  obtain s l g where x: "x = (s, l, g)" using prod_cases3 by blast
  have r: "(s, l, g) \<in> set (pa_free a)" using Cons.prems(2) by (simp add: x)
  note p = reserve_piece_account [OF Cons.prems(1) r refl, where reserved = reserved]
  have "set xs \<subseteq> set (pa_free (reserve_piece reserved (s, l, g) a))"
  proof
    fix y assume y: "y \<in> set xs"
    obtain s' l' g' where e: "y = (s', l', g')" using prod_cases3 by blast
    have "s' \<noteq> s" using y Cons.prems(3) by (force simp: e x)
    then show "y \<in> set (pa_free (reserve_piece reserved (s, l, g) a))" using p(4) Cons.prems(2) y e by auto
  qed
  from Cons.IH [OF p(1) this] Cons.prems(3) p(2,3) show ?case by (simp add: x)
qed

lemma install_reserve_account:
  assumes acc: "account live0 a" and r: "install_publication_reserve a selected = Inr a'"
  shows "account live0 a' \<and> live_pages live0 a' = live_pages live0 a \<and> pa_suppress a' = pa_suppress a"
proof -
  obtain rs where a': "a' = fold (\<lambda>run b. reserve_publication_run b run) rs a"
    using r by (auto simp: install_publication_reserve_def rbind_eq_Inr split: if_splits)
  have one: "account live0 (reserve_publication_run b run) \<and> live_pages live0 (reserve_publication_run b run) = live_pages live0 b
      \<and> pa_suppress (reserve_publication_run b run) = pa_suppress b" if "account live0 b" for b run
  proof -
    have "bt_sorted (pa_free b)" using account_maps [OF that] by (simp add: maps_ok_def runs_ok_def)
    then have "distinct (map fst (pa_free b))" by (rule bt_sorted_distinct)
    then show ?thesis unfolding reserve_publication_run_def by (intro reserve_pieces_account [OF that]) (auto intro: distinct_map_filter)
  qed
  have "account live0 (fold (\<lambda>run b. reserve_publication_run b run) rs b) \<and> live_pages live0 (fold (\<lambda>run b. reserve_publication_run b run) rs b) = live_pages live0 b
      \<and> pa_suppress (fold (\<lambda>run b. reserve_publication_run b run) rs b) = pa_suppress b" if "account live0 b" for b
    using that by (induction rs arbitrary: b) (simp_all add: one)
  with acc a' show ?thesis by blast
qed

section \<open>Free lists\<close>

text \<open>Runs in order that do not overlap.\<close>

fun sep :: "nat \<Rightarrow> (u64 \<times> u64 \<times> 'g) list \<Rightarrow> bool" where
  "sep B [] = True"
| "sep B ((s, l, g) # m) \<longleftrightarrow> 0 < unat l \<and> unat s + unat l \<le> B \<and> (\<forall>k \<in> fst ` set m. unat s + unat l \<le> unat k) \<and> sep B m"

definition runs_of :: "FreePageRun list \<Rightarrow> (u64 \<times> u64 \<times> u64) list" where
  "runs_of rs = map (\<lambda>r. (fr_start r, fr_len r, fr_freed_gen r)) rs"

lemma runs_of_simps [simp]:
  "runs_of [] = []" "runs_of (r # rs) = (fr_start r, fr_len r, fr_freed_gen r) # runs_of rs" "runs_of (xs @ ys) = runs_of xs @ runs_of ys"
  by (simp_all add: runs_of_def)

lemma page_gens_Cons: "page_gens ((s, l, g) # m) = run_pages s l \<times> {g} \<union> page_gens m"
  by (simp add: page_gens_def)


lemma sep_runs_ok: "sep B m \<Longrightarrow> runs_ok B m"
proof (induction B m rule: sep.induct)
  case (2 B s l g m)
  have ok: "runs_ok B m" using 2 by simp
  show ?case
  proof (rule runs_okI)
    have "\<forall>k \<in> fst ` set m. s < k" using "2.prems" by (fastforce simp: word_less_nat_alt)
    then show "bt_sorted ((s, l, g) # m)" using ok by (auto simp: runs_ok_def bt_sorted_def)
    show "0 < unat l' \<and> unat s' + unat l' \<le> B" if "(s', l', g') \<in> set ((s, l, g) # m)" for s' l' g'
      using that "2.prems" runs_okD [OF ok] by auto
    show "run_pages a la \<inter> run_pages b lb = {}" if "(a, la, ga) \<in> set ((s, l, g) # m)" "(b, lb, gb) \<in> set ((s, l, g) # m)" "a \<noteq> b" for a la ga b lb gb
      using that "2.prems" runs_ok_disjoint [OF ok, of a la ga b lb gb] by (force simp: run_pages_def)
  qed
qed simp

lemma coalesce_loop_sep:
  assumes B: "B < 2 ^ 64" and s: "sep B (runs_of (p # rs))"
  shows "sep B (runs_of (coalesce_loop p rs)) \<and> page_gens (runs_of (coalesce_loop p rs)) = page_gens (runs_of (p # rs))
    \<and> (\<forall>r \<in> set (coalesce_loop p rs). unat (fr_start p) \<le> unat (fr_start r))"
  using s
proof (induction p rs rule: coalesce_loop.induct)
  case (1 p)
  then show ?case by simp
next
  case (2 p r rs)
  have e: "unat (fr_end p) = unat (fr_start p) + unat (fr_len p)" "unat (fr_end p) \<le> unat (fr_start r)"
    using "2.prems" B by (simp_all add: fr_end_def unat_sat)
  then have a: "\<not> fr_start r < fr_end p" by (simp add: word_less_nat_alt)
  have sr: "sep B (runs_of (r # rs))" using "2.prems" by simp
  show ?case
  proof (cases "fr_start r = fr_end p \<and> fr_freed_gen r = fr_freed_gen p")
    case True
    define q where "q = p\<lparr>fr_len := saturating_add (fr_len p) (fr_len r)\<rparr>"
    have st: "unat (fr_start r) = unat (fr_start p) + unat (fr_len p)" using True e by simp
    then have l: "unat (saturating_add (fr_len p) (fr_len r)) = unat (fr_len p) + unat (fr_len r)"
      using sr B by (intro unat_sat) simp
    have sq: "sep B (runs_of (q # rs))" using "2.prems" st l by (auto simp: q_def)
    have "run_pages (fr_start p) (saturating_add (fr_len p) (fr_len r)) = run_pages (fr_start p) (fr_len p) \<union> run_pages (fr_start r) (fr_len r)"
      by (auto simp: run_pages_def st l)
    then have "page_gens (runs_of (q # rs)) = page_gens (runs_of (p # r # rs))" using True by (simp add: q_def page_gens_Cons Sigma_Un_distrib1 Un_assoc)
    then show ?thesis using "2.IH"(2) [OF a True] sq a True by (simp add: q_def)
  next
    case False
    note ih = "2.IH"(3) [OF a False sr]
    have "\<forall>k \<in> fst ` set (runs_of (coalesce_loop r rs)). unat (fr_start p) + unat (fr_len p) \<le> unat k"
      using ih e by (auto simp: runs_of_def intro: order_trans)
    then show ?thesis using ih a False "2.prems" e by (auto simp: page_gens_Cons intro: order_trans)
  qed
qed

definition free_list_ok :: "nat \<Rightarrow> FreePageRun list \<Rightarrow> bool" where
  "free_list_ok B rs \<longleftrightarrow> distinct rs \<and> (\<forall>r \<in> set rs. 0 < unat (fr_len r) \<and> unat (fr_start r) + unat (fr_len r) \<le> B)
     \<and> (\<forall>r \<in> set rs. \<forall>r' \<in> set rs. r \<noteq> r' \<longrightarrow> run_pages (fr_start r) (fr_len r) \<inter> run_pages (fr_start r') (fr_len r') = {})"

lemma sorted_sep: "free_list_ok B rs \<Longrightarrow> sorted (map fr_start rs) \<Longrightarrow> sep B (runs_of rs)"
proof (induction rs)
  case (Cons r rs)
  have "unat (fr_start r) + unat (fr_len r) \<le> unat (fr_start r')" if "r' \<in> set rs" for r'
  proof (rule ccontr)
    assume "\<not> ?thesis"
    moreover have "unat (fr_start r) \<le> unat (fr_start r')" using Cons.prems(2) that by (simp add: word_le_nat_alt)
    moreover have "0 < unat (fr_len r')" "r \<noteq> r'" using Cons.prems(1) that by (auto simp: free_list_ok_def)
    ultimately have "unat (fr_start r') \<in> run_pages (fr_start r) (fr_len r) \<inter> run_pages (fr_start r') (fr_len r')" by (simp add: run_pages_def)
    moreover have "run_pages (fr_start r) (fr_len r) \<inter> run_pages (fr_start r') (fr_len r') = {}"
      using Cons.prems(1) that \<open>r \<noteq> r'\<close> by (simp add: free_list_ok_def)
    ultimately show False by blast
  qed
  moreover have "free_list_ok B rs" using Cons.prems(1) by (auto simp: free_list_ok_def)
  ultimately show ?case using Cons by (auto simp: runs_of_def free_list_ok_def)
qed simp

lemma coalesce_free_runs_sep:
  assumes "B < 2 ^ 64" "free_list_ok B rs"
  shows "sep B (runs_of (coalesce_free_runs rs))" "page_gens (runs_of (coalesce_free_runs rs)) = page_gens (runs_of rs)"
proof -
  have s: "sep B (runs_of (sort_key fr_start rs))" using assms(2) by (intro sorted_sep) (auto simp: free_list_ok_def)
  have g: "page_gens (runs_of (sort_key fr_start rs)) = page_gens (runs_of rs)" by (simp add: page_gens_def runs_of_def)
  show "sep B (runs_of (coalesce_free_runs rs))" "page_gens (runs_of (coalesce_free_runs rs)) = page_gens (runs_of rs)"
    using s g coalesce_loop_sep [OF assms(1)] by (cases "sort_key fr_start rs"; simp add: coalesce_free_runs_def)+
qed









lemma fold_bt_insert: "bt_sorted (m @ kvs) \<Longrightarrow> fold (\<lambda>(k, v). bt_insert k v) kvs m = m @ kvs"
proof (induction kvs arbitrary: m)
  case (Cons kv kvs)
  obtain k v where kv: "kv = (k, v)" by force
  have "bt_insert k v m = m @ [(k, v)]" using Cons.prems by (intro bt_insert_append) (auto simp: kv bt_sorted_def sorted_wrt_append)
  then show ?case using Cons.IH [of "m @ [kv]"] Cons.prems by (simp add: kv)
qed simp

section \<open>Opening\<close>

definition extents_of :: "MetadataBootstrapReserve \<Rightarrow> (u64 \<times> u64) list" where
  "extents_of r = map (\<lambda>e. (be_start e, be_len e)) (br_extents r)"

lemma validate_extents_sep:
  assumes "validate_extents page_count prev es = Inr ()"
  shows "sep (unat page_count) (tagged (map (\<lambda>e. (be_start e, be_len e)) es))
    \<and> (\<forall>e \<in> set es. case prev of None \<Rightarrow> True | Some p \<Rightarrow> unat p \<le> unat (be_start e))"
  using assms
proof (induction page_count prev es rule: validate_extents.induct)
  case (1 page_count prev)
  then show ?case by (simp add: tagged_def)
next
  case (2 page_count prev e es)
  obtain fin where ca: "checked_add (be_start e) (be_len e) = Some fin" and c: "be_len e \<noteq> 0" "fin \<le> page_count"
    and p: "\<not> (case prev of None \<Rightarrow> False | Some prior \<Rightarrow> be_start e \<le> prior)" and rest: "validate_extents page_count (Some fin) es = Inr ()"
    using "2.prems" by (auto simp: rbind_eq_Inr ok_or_def not_less split: option.splits if_splits)
  have f: "unat fin = unat (be_start e) + unat (be_len e)" using ca by (auto simp: checked_add_def unat_word_ariths split: if_splits)
  have ih: "sep (unat page_count) (tagged (map (\<lambda>e. (be_start e, be_len e)) es))" "\<forall>e' \<in> set es. unat fin \<le> unat (be_start e')"
    using "2.IH" [of fin] ca c p rest by (simp_all add: ok_or_def not_less)
  have "0 < unat (be_len e)" using c(1) unat_gt_0 by blast
  moreover have "\<forall>k \<in> fst ` set (tagged (map (\<lambda>e. (be_start e, be_len e)) es)). unat (be_start e) + unat (be_len e) \<le> unat k"
    using ih(2) f by (auto simp: tagged_def)
  moreover have "unat p' \<le> unat (be_start e) \<and> (\<forall>e' \<in> set es. unat p' \<le> unat (be_start e'))" if "prev = Some p'" for p'
  proof -
    have "unat p' \<le> unat (be_start e)" using p that by (simp add: not_le word_less_nat_alt)
    moreover have "unat (be_start e) \<le> unat (be_start e')" if "e' \<in> set es" for e' using ih(2) f that by fastforce
    ultimately show ?thesis by (auto intro: order_trans)
  qed
  ultimately show ?case using ih(1) c(2) f by (auto simp: tagged_def word_le_nat_alt split: option.splits)
qed

lemma install_extents_map:
  assumes "install_extents a acc es = Inr m"
  shows "m = fold (\<lambda>(k, v). bt_insert k v) (map (\<lambda>e. (be_start e, be_len e)) es) acc
    \<and> (\<forall>e \<in> set es. \<forall>(s, l, g) \<in> set (pa_free a). \<not> ranges_overlap s l (be_start e) (be_len e))"
  using assms by (induction a acc es rule: install_extents.induct) (auto simp: list_ex_iff split: if_splits)

lemma overlap_pages:
  assumes "unat s + unat l < 2 ^ 64" "unat s' + unat l' < 2 ^ 64" "\<not> ranges_overlap s l s' l'"
  shows "run_pages s l \<inter> run_pages s' l' = {}"
  using assms by (auto simp: ranges_overlap_def run_pages_def word_less_nat_alt unat_sat)

text \<open>The allocators that the commit paths start from.\<close>

definition fresh :: "u64 \<Rightarrow> FreePageRun list \<Rightarrow> PageAllocator \<Rightarrow> bool" where
  "fresh page_count free a \<longleftrightarrow> (\<exists>g. a = allocator_new page_count g free \<or> a = allocator_current_free_reusable page_count g free
     \<or> (\<exists>ordinary eligible. a = allocator_reusable_authorities page_count g free ordinary eligible)
     \<or> (\<exists>before. a = allocator_reusing_before page_count g free before))"

lemma fresh_state:
  assumes f: "fresh pc free a" and ok: "free_list_ok (unat pc) free"
  shows "runs_ok (unat pc) (pa_free a)" "page_gens (pa_free a) = page_gens (runs_of free)"
    and "pa_end a = pc" "pa_start_end a = pc" "pa_publication_reserve a = []" "pa_bootstrap a = []" "pa_txn_freed a = []" "pa_deferred a = []"
      "pa_active a = {}" "pa_allocated_runs a = []" "\<not> pa_suppress a"
proof -
  have B: "unat pc < 2 ^ 64" using unat_bound [of pc] by simp
  note c = coalesce_free_runs_sep [OF B ok]
  have "bt_sorted (runs_of (coalesce_free_runs free))" using sep_runs_ok [OF c(1)] by (simp add: runs_ok_def)
  then have "bt_collect (runs_of (coalesce_free_runs free)) = runs_of (coalesce_free_runs free)"
    using fold_bt_insert [of "[]" "runs_of (coalesce_free_runs free)"] by (simp add: bt_collect_def)
  then have fr: "pa_free a = runs_of (coalesce_free_runs free)"
    using f by (auto simp: fresh_def allocator_new_def allocator_current_free_reusable_def allocator_reusable_authorities_def
        allocator_reusing_before_def Let_def runs_of_def)
  show "runs_ok (unat pc) (pa_free a)" "page_gens (pa_free a) = page_gens (runs_of free)" unfolding fr using sep_runs_ok [OF c(1)] c(2) by auto
  show "pa_end a = pc" "pa_start_end a = pc" "pa_publication_reserve a = []" "pa_bootstrap a = []" "pa_txn_freed a = []" "pa_deferred a = []"
      "pa_active a = {}" "pa_allocated_runs a = []" "\<not> pa_suppress a"
    using f by (auto simp: fresh_def allocator_new_def allocator_current_free_reusable_def allocator_reusable_authorities_def
        allocator_reusing_before_def Let_def)
qed

lemma install_bootstrap_maps:
  assumes f: "fresh pc free a0" and ok: "free_list_ok (unat pc) free" and i: "install_metadata_bootstrap_reserve a0 r = Inr a"
  shows "\<exists>g. a = a0\<lparr>pa_bootstrap := extents_of r, pa_bootstrap_generation := g\<rparr>" "runs_ok (unat pc) (tagged (extents_of r))"
    "pages_of (tagged (extents_of r)) \<inter> free_set a0 = {}"
proof -
  note s = fresh_state [OF f ok]
  have B: "unat pc < 2 ^ 64" using unat_bound [of pc] by simp
  have "(\<exists>g. a = a0\<lparr>pa_bootstrap := extents_of r, pa_bootstrap_generation := g\<rparr>) \<and> runs_ok (unat pc) (tagged (extents_of r))
    \<and> pages_of (tagged (extents_of r)) \<inter> free_set a0 = {}"
  proof (cases "br_capacity r = 0 \<and> br_extents r = []")
    case True
    then show ?thesis using i by (auto simp: install_metadata_bootstrap_reserve_def extents_of_def tagged_def)
  next
    case False
    obtain m where v: "reserve_validate r pc = Inr ()" and x: "install_extents a0 [] (br_extents r) = Inr m"
      and a: "a = a0\<lparr>pa_bootstrap := m, pa_bootstrap_generation := br_owning_generation r\<rparr>"
      using i False s(3) by (auto simp: install_metadata_bootstrap_reserve_def rbind_eq_Inr map_err_def split: if_splits sum.splits)
    have "validate_extents pc None (br_extents r) = Inr ()" using v by (auto simp: reserve_validate_def split: if_splits)
    from validate_extents_sep [OF this] have sp: "sep (unat pc) (tagged (extents_of r))" by (simp add: extents_of_def)
    have okr: "runs_ok (unat pc) (tagged (extents_of r))" by (rule sep_runs_ok [OF sp])
    have "m = extents_of r"
      using install_extents_map [OF x] fold_bt_insert [of "[]" "extents_of r"] okr by (simp add: extents_of_def runs_ok_def sorted_tagged)
    moreover have "run_pages s l \<inter> run_pages s' l' = {}" if e: "(s, l, g) \<in> set (pa_free a0)" "(s', l') \<in> set (extents_of r)" for s l g s' l'
    proof (rule overlap_pages)
      show "unat s + unat l < 2 ^ 64" using runs_okD [OF s(1) e(1)] B by simp
      show "unat s' + unat l' < 2 ^ 64" using runs_okD [OF okr, of s' l' "()"] e(2) B by simp
      show "\<not> ranges_overlap s l s' l'" using install_extents_map [OF x] e by (fastforce simp: extents_of_def)
    qed
    then have "pages_of (tagged (extents_of r)) \<inter> free_set a0 = {}" by (fastforce simp: pages_of_tagged pages_of_def)
    ultimately show ?thesis using a okr by auto
  qed
  then show "\<exists>g. a = a0\<lparr>pa_bootstrap := extents_of r, pa_bootstrap_generation := g\<rparr>" "runs_ok (unat pc) (tagged (extents_of r))"
    "pages_of (tagged (extents_of r)) \<inter> free_set a0 = {}" by blast+
qed

lemma open_account:
  assumes f: "fresh pc free a0" and ok: "free_list_ok (unat pc) free" and i: "install_metadata_bootstrap_reserve a0 r = Inr a"
    and l: "live0 = {..<unat pc} - pages_of (runs_of free) - pages_of (tagged (extents_of r))"
  shows "account live0 a" "live_pages live0 a = live0" "\<not> pa_suppress a"
proof -
  note s = fresh_state [OF f ok] and b = install_bootstrap_maps [OF f ok i]
  obtain g where a: "a = a0\<lparr>pa_bootstrap := extents_of r, pa_bootstrap_generation := g\<rparr>" using b(1) by blast
  show "\<not> pa_suppress a" using s(11) by (simp add: a)
  have "tagged [] = []" by (simp add: tagged_def)
  then have e: "txn_set a = {}" "deferred_set a = {}" "reserve_set a = {}" "bootstrap_set a = pages_of (tagged (extents_of r))"
    "ever_allocated a = {}" "free_set a = pages_of (runs_of free)" "pa_active a = {}"
    using s by (simp_all add: a ever_allocated_def pages_of_gens)
  show live: "live_pages live0 a = live0" by (simp add: live_pages_def e)
  have m: "maps_ok a" using s b(2) \<open>tagged [] = []\<close> by (simp add: a maps_ok_def)
  have fb: "pages_of (tagged (extents_of r)) \<inter> pages_of (runs_of free) = {}" using b(3) s(2) by (simp add: pages_of_gens)
  have sub: "pages_of (runs_of free) \<subseteq> {..<unat pc}" "pages_of (tagged (extents_of r)) \<subseteq> {..<unat pc}"
    using pages_of_bound [OF s(1)] s(2) pages_of_bound [OF b(2)] by (simp_all add: pages_of_gens)
  have "parts [live_pages live0 a, free_set a, reserve_set a, txn_set a, deferred_set a, bootstrap_set a] {..<unat (pa_end a)}"
    unfolding live e using sub fb by (intro parts_intro) (auto simp: l a s(3))
  moreover have "live0 \<inter> (pages_of (runs_of free) \<union> pages_of (tagged (extents_of r))) = {}" "live0 \<subseteq> {..<unat pc}" using l by blast+
  ultimately show "account live0 a" using m s by (simp add: account_def e) (simp add: a s)
qed

section \<open>Runs of an allocator\<close>

text \<open>The steps of a transaction. A caller frees pages that are in use; the other operations are free to be called in
  any order and with any argument, and a step is taken when the operation succeeds.\<close>

inductive allocator_run :: "nat set \<Rightarrow> PageAllocator \<Rightarrow> bool" for live0 where
  run_open: "fresh pc free a0 \<Longrightarrow> free_list_ok (unat pc) free \<Longrightarrow> install_metadata_bootstrap_reserve a0 r = Inr a
    \<Longrightarrow> live0 = {..<unat pc} - pages_of (runs_of free) - pages_of (tagged (extents_of r)) \<Longrightarrow> allocator_run live0 a"
| run_alloc: "allocator_run live0 a \<Longrightarrow> 0 < unat n \<Longrightarrow> unat (pa_end a) + unat n < 2 ^ 64 \<Longrightarrow> alloc a n = (p, a') \<Longrightarrow> allocator_run live0 a'"
| run_free: "allocator_run live0 a \<Longrightarrow> 0 < unat n \<Longrightarrow> unat start + unat n \<le> unat (pa_end a) \<Longrightarrow> run_pages start n \<subseteq> live_pages live0 a
    \<Longrightarrow> free_pages a start n = (res, a') \<Longrightarrow> allocator_run live0 a'"
| run_defer: "allocator_run live0 a \<Longrightarrow> 0 < unat n \<Longrightarrow> unat start + unat n \<le> unat (pa_end a) \<Longrightarrow> run_pages start n \<subseteq> live_pages live0 a
    \<Longrightarrow> defer_free a start n = (res, a') \<Longrightarrow> allocator_run live0 a'"
| run_ensure: "allocator_run live0 a \<Longrightarrow> ensure_metadata_bootstrap_capacity a = Inr a' \<Longrightarrow> allocator_run live0 a'"
| run_take: "allocator_run live0 a \<Longrightarrow> alloc_metadata_bootstrap_pages a n = Inr (ps, a') \<Longrightarrow> allocator_run live0 a'"
| run_reserve: "allocator_run live0 a \<Longrightarrow> install_publication_reserve a selected = Inr a' \<Longrightarrow> allocator_run live0 a'"
| run_activate: "allocator_run live0 a \<Longrightarrow> allocator_run live0 (activate_publication_reserve a)"
| run_captured: "allocator_run live0 a \<Longrightarrow> install_captured_free_authority a auth = Inr a' \<Longrightarrow> allocator_run live0 a'"

lemma account_active [simp]: "account live0 (a\<lparr>pa_publication_reserve_active := v\<rparr>) = account live0 a"
  by (simp add: account_def maps_ok_def live_pages_def ever_allocated_def)

lemma allocator_run_account: "allocator_run live0 a \<Longrightarrow> account live0 a \<and> \<not> pa_suppress a"
proof (induction rule: allocator_run.induct)
  case (run_open pc free a0 r a)
  from open_account [OF this] show ?case by simp
next
  case (run_alloc a n p a')
  from run_alloc alloc_account(1,4) [of live0 a n p a'] show ?case by simp
next
  case (run_free a n start res a')
  then show ?case using free_pages_account [of live0 a n start] by auto
next
  case (run_defer a n start res a')
  then show ?case using defer_free_account [of live0 a n start] by auto
next
  case (run_ensure a a')
  from ensure_bootstrap_account [OF _ run_ensure(2), of live0] run_ensure(3) show ?case by simp
next
  case (run_take a n ps a')
  from alloc_bootstrap_account [OF _ run_take(2), of live0] run_take(3) show ?case by simp
next
  case (run_reserve a selected a')
  from install_reserve_account [OF _ run_reserve(2), of live0] run_reserve(3) show ?case by simp
next
  case (run_activate a)
  then show ?case by (simp add: activate_publication_reserve_def)
next
  case (run_captured a auth a')
  then show ?case by (auto simp: install_captured_free_authority_def split: if_splits)
qed

text \<open>C5: The page allocator never hands out a page that is in use. Whatever steps a transaction has taken
  since it opened the allocator on the committed free list and metadata reserve, the run that alloc returns lies
  inside the page array, and none of its pages is in use in the transaction, referenced by the committed generation
  (even when the transaction has freed it), deferred, or held in the metadata reserve; afterwards exactly those
  pages have become pages in use.\<close>

theorem alloc_hands_out_free_pages:
  assumes "allocator_run live0 a" and "0 < unat n" and "unat (pa_end a) + unat n < 2 ^ 64" and "alloc a n = (p, a')"
  shows "run_pages p n \<inter> (live_pages live0 a \<union> live0 \<union> deferred_set a \<union> bootstrap_set a) = {}
    \<and> live_pages live0 a' = live_pages live0 a \<union> run_pages p n \<and> live_pages live0 a' \<subseteq> {..<unat (pa_end a')}"
proof -
  have acc: "account live0 a" using allocator_run_account [OF assms(1)] by blast
  note k = alloc_account [OF acc assms(2-4)]
  have "live_pages live0 a' \<subseteq> {..<unat (pa_end a')}" using account_disjoint(13) [OF k(1)] by blast
  with k show ?thesis by blast
qed

definition wit_alloc :: PageAllocator where
  "wit_alloc = (allocator_new 10 100 [free_run 3 2 1])\<lparr>pa_bootstrap_generation := 0\<rparr>"

lemma wit_allocator_run: "allocator_run ({..<10} - {3, 4}) wit_alloc"
proof (rule run_open [where pc = 10 and free = "[free_run 3 2 1]" and r = reserve_default])
  show "fresh 10 [free_run 3 2 1] (allocator_new 10 100 [free_run 3 2 1])" by (auto simp: fresh_def)
  show "free_list_ok (unat (10 :: u64)) [free_run 3 2 1]" by (simp add: free_list_ok_def free_run_def)
  show "install_metadata_bootstrap_reserve (allocator_new 10 100 [free_run 3 2 1]) reserve_default = Inr wit_alloc"
    by (simp add: install_metadata_bootstrap_reserve_def reserve_default_def wit_alloc_def allocator_new_def Let_def)
  show "{..<10} - {3, 4 :: nat} = {..<unat (10 :: u64)} - pages_of (runs_of [free_run 3 2 1]) - pages_of (tagged (extents_of reserve_default))"
    by (auto simp: runs_of_def free_run_def pages_of_def run_pages_def extents_of_def reserve_default_def tagged_def)
qed

theorem alloc_hands_out_free_pages_witness:
  "fst (alloc wit_alloc 2) = 3 \<and> run_pages 3 2 \<inter> (live_pages ({..<10} - {3, 4}) wit_alloc \<union> ({..<10} - {3, 4})) = {}"
proof -
  have p: "fst (alloc wit_alloc 2) = 3" by code_simp
  have e: "pa_end wit_alloc = 10" by (simp add: wit_alloc_def allocator_new_def Let_def)
  obtain a' where a: "alloc wit_alloc 2 = (3, a')" using p by (metis prod.collapse)
  from alloc_hands_out_free_pages [OF wit_allocator_run _ _ a] e p show ?thesis by auto
qed



text \<open>C40: The allocator stays well formed. Whatever steps a transaction takes, each of its five maps keeps its runs in order
  of their starts, non-empty, inside the page array and apart from each other; and every page of the array is in exactly
  one place: in use, free, in the publication reserve, freed by the transaction, deferred, or in the metadata reserve.\<close>

theorem allocator_well_formed:
  assumes "allocator_run live0 a"
  shows "maps_ok a \<and> parts [live_pages live0 a, free_set a, reserve_set a, txn_set a, deferred_set a, bootstrap_set a] {..<unat (pa_end a)}"
  using allocator_run_account [OF assms] by (simp add: account_def)

theorem allocator_well_formed_witness: "maps_ok wit_alloc \<and> free_set wit_alloc \<inter> live_pages ({..<10} - {3, 4}) wit_alloc = {}"
  using allocator_well_formed [OF wit_allocator_run] unfolding parts.simps by blast

end
