(* ===== verification/Loom_Order_Key.thy ===== *)
theory Loom_Order_Key
  imports Loom_Error
begin

text \<open>
  Fractional order keys, \<^verbatim>\<open>crates/loom-types/src/order_key.rs\<close>: strings over a base-62 alphabet whose byte order is
  the order of a list, and the generation of a key strictly between two neighbours. The loop of \<open>key_between\<close>
  has no bound of its own, so it is a partial function: a call that does not return is \<open>None\<close>, and that it
  returns is part of the property below.
\<close>

section \<open>Digits\<close>

definition DIGITS :: bytes where
  "DIGITS =
    [48, 49, 50, 51, 52, 53, 54, 55, 56, 57,
     65, 66, 67, 68, 69, 70, 71, 72, 73, 74, 75, 76, 77, 78, 79, 80, 81, 82, 83, 84, 85, 86, 87, 88, 89, 90,
     97, 98, 99, 100, 101, 102, 103, 104, 105, 106, 107, 108, 109, 110, 111, 112, 113, 114, 115, 116, 117, 118, 119, 120, 121, 122]"

definition BASE :: nat where "BASE = 62"

fun position :: "u8 \<Rightarrow> nat \<Rightarrow> bytes \<Rightarrow> nat option" where
  "position b i [] = None"
| "position b i (d # ds) = (if d = b then Some i else position b (Suc i) ds)"

definition digit_index :: "u8 \<Rightarrow> nat option" where
  "digit_index b = position b 0 DIGITS"

definition digit_at :: "bytes \<Rightarrow> nat \<Rightarrow> nat res" where
  "digit_at key i = (if i < length key then ok_or Internal (digit_index (key ! i)) else Inr 0)"

definition order_key_parse :: "bytes \<Rightarrow> bytes res" where
  "order_key_parse value =
    (if value = [] then Inl InvalidArgument
     else if list_ex (\<lambda>b. digit_index b = None) value then Inl InvalidArgument
     else if last value = DIGITS ! 0 then Inl InvalidArgument
     else Inr value)"

section \<open>A key between two keys\<close>

partial_function (option) key_between_loop :: "bytes \<Rightarrow> bytes option \<Rightarrow> nat \<Rightarrow> bytes \<Rightarrow> bytes res option" where
  "key_between_loop lo hi i result =
    (case digit_at lo i of
       Inl e \<Rightarrow> Some (Inl e)
     | Inr d_lo \<Rightarrow>
       (case (case hi of Some bs \<Rightarrow> digit_at bs i | None \<Rightarrow> Inr BASE) of
          Inl e \<Rightarrow> Some (Inl e)
        | Inr d_hi \<Rightarrow>
          if d_lo = d_hi then key_between_loop lo hi (i + 1) (result @ [DIGITS ! d_lo])
          else let mid = (d_lo + d_hi) div 2
            in if mid > d_lo then Some (Inr (result @ [DIGITS ! mid]))
               else key_between_loop lo None (i + 1) (result @ [DIGITS ! d_lo])))"

definition key_between :: "bytes \<Rightarrow> bytes option \<Rightarrow> bytes res option" where
  "key_between lo hi = key_between_loop lo hi 0 []"

definition order_key_between :: "bytes option \<Rightarrow> bytes option \<Rightarrow> bytes res option" where
  "order_key_between lo hi = key_between (case lo of Some k \<Rightarrow> k | None \<Rightarrow> []) hi"

section \<open>Digits and order\<close>

text \<open>A string as the infinite sequence of its digits, with zeros behind its end.\<close>

definition valid_key :: "bytes \<Rightarrow> bool" where
  "valid_key k \<longleftrightarrow> list_all (\<lambda>b. b \<in> set DIGITS) k"

definition dig :: "bytes \<Rightarrow> nat \<Rightarrow> nat" where
  "dig k i = (if i < length k then the (digit_index (k ! i)) else 0)"

definition first_diff :: "bytes \<Rightarrow> bytes \<Rightarrow> nat \<Rightarrow> bool" where
  "first_diff a b j \<longleftrightarrow> (\<forall>i < j. dig a i = dig b i) \<and> dig a j < dig b j"

lemma length_DIGITS [simp]: "length DIGITS = 62"
  by (simp add: DIGITS_def)

lemma all_digits: "list_all (\<lambda>d. digit_index (DIGITS ! d) = Some d) [0..<62]"
  by code_simp

lemma sorted_DIGITS: "sorted_wrt (<) DIGITS"
  by code_simp

lemma digit_index_nth: "d < 62 \<Longrightarrow> digit_index (DIGITS ! d) = Some d"
  using all_digits by (simp add: list_all_iff)

lemma digit_index_set: "b \<in> set DIGITS \<Longrightarrow> \<exists>d < 62. digit_index b = Some d \<and> b = DIGITS ! d"
  using digit_index_nth by (auto simp: in_set_conv_nth)

lemma position_set: "position b i ds = Some n \<Longrightarrow> b \<in> set ds"
  by (induction b i ds rule: position.induct) (auto split: if_splits)

lemma digit_index_None: "digit_index b \<noteq> None \<longleftrightarrow> b \<in> set DIGITS"
proof
  assume "digit_index b \<noteq> None"
  then show "b \<in> set DIGITS" by (auto simp: digit_index_def dest: position_set)
next
  assume "b \<in> set DIGITS"
  then show "digit_index b \<noteq> None" using digit_index_set by force
qed

lemma digit_less: "a < 62 \<Longrightarrow> b < 62 \<Longrightarrow> DIGITS ! a < DIGITS ! b \<longleftrightarrow> a < b"
  using sorted_wrt_nth_less [OF sorted_DIGITS, of a b] sorted_wrt_nth_less [OF sorted_DIGITS, of b a]
  by (cases a b rule: linorder_cases) auto

lemma valid_nth: "valid_key k \<Longrightarrow> i < length k \<Longrightarrow> dig k i < 62 \<and> k ! i = DIGITS ! dig k i"
  using digit_index_set [of "k ! i"] by (force simp: valid_key_def list_all_length dig_def)

lemma dig_bound: "valid_key k \<Longrightarrow> dig k i < 62"
  using valid_nth [of k i] by (cases "i < length k") (auto simp: dig_def)

lemma digit_at_dig: "valid_key k \<Longrightarrow> digit_at k i = Inr (dig k i)"
  using digit_index_set [of "k ! i"] by (force simp: valid_key_def list_all_length digit_at_def dig_def ok_or_def)

lemma order_key_parse_iff: "order_key_parse k = Inr v \<longleftrightarrow> v = k \<and> k \<noteq> [] \<and> valid_key k \<and> dig k (length k - 1) \<noteq> 0"
proof -
  have v: "list_ex (\<lambda>b. digit_index b = None) k \<longleftrightarrow> \<not> valid_key k"
    using digit_index_None by (force simp: list_ex_iff valid_key_def list_all_iff)
  have l: "last k = DIGITS ! 0 \<longleftrightarrow> dig k (length k - 1) = 0" if "k \<noteq> []" "valid_key k"
  proof -
    have "last k = DIGITS ! dig k (length k - 1)" "dig k (length k - 1) < 62"
      using valid_nth [of k "length k - 1"] that by (simp_all add: last_conv_nth)
    then show ?thesis using digit_index_nth [of "dig k (length k - 1)"] digit_index_nth [of 0] by (metis option.inject zero_less_numeral)
  qed
  show ?thesis using l by (auto simp: order_key_parse_def v)
qed

lemma dig_append: "dig (p @ q) i = (if i < length p then dig p i else dig q (i - length p))"
  by (auto simp: dig_def nth_append)

lemma dig_singleton: "d < 62 \<Longrightarrow> dig [DIGITS ! d] 0 = d"
  by (simp add: dig_def digit_index_nth)

lemma first_diff_less:
  assumes v: "valid_key a" "valid_key b" and d: "first_diff a b j"
  shows "a < b"
proof -
  have jb: "j < length b" using d by (auto simp: first_diff_def dig_def split: if_splits)
  have eq: "a ! i = b ! i" if "i < j" "i < length a" for i
    using that jb d valid_nth [OF v(1), of i] valid_nth [OF v(2), of i] by (simp add: first_diff_def)
  show ?thesis
  proof (cases "j < length a")
    case True
    have t: "take j a = take j b" using True jb eq by (intro nth_equalityI) simp_all
    have "a ! j < b ! j" using valid_nth [OF v(1) True] valid_nth [OF v(2) jb] d digit_less by (simp add: first_diff_def)
    moreover have "a = take j b @ a ! j # drop (Suc j) a" "b = take j b @ b ! j # drop (Suc j) b"
      using id_take_nth_drop [OF True] id_take_nth_drop [OF jb] t by simp_all
    ultimately show ?thesis
      unfolding list_less_def lexord_def by blast
  next
    case False
    have "a = take (length a) b" using False jb eq by (intro nth_equalityI) auto
    moreover have "drop (length a) b \<noteq> []" using False jb by simp
    ultimately obtain c cs where "b = a @ c # cs" by (metis append_take_drop_id list.exhaust)
    then show ?thesis unfolding list_less_def lexord_def by auto
  qed
qed

lemma less_first_diff:
  assumes v: "valid_key a" "valid_key b" and less: "a < b" and last: "dig b (length b - 1) \<noteq> 0"
  shows "\<exists>j. first_diff a b j"
proof -
  consider (prefix) c cs where "b = a @ c # cs" | (differ) u x y xs ys where "a = u @ x # xs" "b = u @ y # ys" "x < y"
    using less unfolding list_less_def lexord_def by auto
  then show ?thesis
  proof cases
    case prefix
    define j where "j = (LEAST j. length a \<le> j \<and> dig b j \<noteq> 0)"
    have ex: "length a \<le> length b - 1 \<and> dig b (length b - 1) \<noteq> 0" using prefix last by simp
    have j: "length a \<le> j \<and> dig b j \<noteq> 0" unfolding j_def by (rule LeastI [of _ "length b - 1"]) (rule ex)
    have "dig a i = dig b i" if "i < j" for i
    proof (cases "i < length a")
      case True
      then show ?thesis using prefix by (simp add: dig_append)
    next
      case False
      then have "dig b i = 0" using that not_less_Least [of i "\<lambda>j. length a \<le> j \<and> dig b j \<noteq> 0"] by (auto simp: j_def)
      then show ?thesis using False by (simp add: dig_def)
    qed
    moreover have "dig a j = 0" using j by (simp add: dig_def)
    ultimately show ?thesis using j by (intro exI [of _ j]) (simp add: first_diff_def)
  next
    case differ
    have l: "length u < length a" "length u < length b" "a ! length u = x" "b ! length u = y" using differ by simp_all
    have "dig a (length u) < dig b (length u)"
      using valid_nth [OF v(1) l(1)] valid_nth [OF v(2) l(2)] l(3,4) differ(3) digit_less by metis
    moreover have "dig a i = dig b i" if "i < length u" for i using that differ by (simp add: dig_append)
    ultimately show ?thesis by (intro exI [of _ "length u"]) (simp add: first_diff_def)
  qed
qed

section \<open>The generated key\<close>

definition digits_of :: "bytes \<Rightarrow> nat \<Rightarrow> nat \<Rightarrow> bytes" where
  "digits_of k i j = map (\<lambda>x. DIGITS ! dig k x) [i ..< j]"

lemma digits_of_step: "i < j \<Longrightarrow> digits_of k i j = DIGITS ! dig k i # digits_of k (i + 1) j"
  by (simp add: digits_of_def upt_conv_Cons)

lemma open_step:
  assumes "valid_key lo"
  shows "key_between_loop lo None i res =
    (if dig lo i < 61 then Some (Inr (res @ [DIGITS ! ((dig lo i + 62) div 2)])) else key_between_loop lo None (i + 1) (res @ [DIGITS ! dig lo i]))"
proof -
  have "dig lo i < 62" by (rule dig_bound [OF assms])
  then show ?thesis by (subst key_between_loop.simps) (auto simp: digit_at_dig [OF assms] BASE_def Let_def)
qed

lemma key_between_open:
  assumes "valid_key lo"
  shows "\<exists>m d. i \<le> m \<and> dig lo m < d \<and> d < 62 \<and> key_between_loop lo None i res = Some (Inr (res @ digits_of lo i m @ [DIGITS ! d]))"
proof (induction "length lo - i" arbitrary: i res)
  case 0
  then have "dig lo i = 0" by (simp add: dig_def)
  then show ?case by (intro exI [of _ i] exI [of _ 31]) (simp add: open_step [OF assms] digits_of_def)
next
  case (Suc n)
  show ?case
  proof (cases "dig lo i < 61")
    case True
    then show ?thesis by (intro exI [of _ i] exI [of _ "(dig lo i + 62) div 2"]) (auto simp: open_step [OF assms] digits_of_def)
  next
    case False
    have "n = length lo - (i + 1)" using Suc.hyps(2) by simp
    from Suc.hyps(1) [OF this, of "res @ [DIGITS ! dig lo i]"] obtain m d where m: "i + 1 \<le> m" "dig lo m < d" "d < 62"
      "key_between_loop lo None (i + 1) (res @ [DIGITS ! dig lo i]) = Some (Inr ((res @ [DIGITS ! dig lo i]) @ digits_of lo (i + 1) m @ [DIGITS ! d]))" by blast
    then show ?thesis using False by (intro exI [of _ m] exI [of _ d]) (simp add: open_step [OF assms] digits_of_step)
  qed
qed

lemma key_between_shared:
  assumes v: "valid_key lo" "valid_key hi" and "\<forall>x < j. dig lo x = dig hi x" "i \<le> j"
  shows "key_between_loop lo (Some hi) i res = key_between_loop lo (Some hi) j (res @ digits_of lo i j)"
  using assms(4)
proof (induction "j - i" arbitrary: i res)
  case 0
  then show ?case by (simp add: digits_of_def)
next
  case (Suc n)
  have "i < j" "n = j - (i + 1)" using Suc.hyps(2) by simp_all
  then have "key_between_loop lo (Some hi) i res = key_between_loop lo (Some hi) (i + 1) (res @ [DIGITS ! dig lo i])"
    using assms(3) by (subst key_between_loop.simps) (simp add: digit_at_dig [OF v(1)] digit_at_dig [OF v(2)])
  also have "\<dots> = key_between_loop lo (Some hi) j ((res @ [DIGITS ! dig lo i]) @ digits_of lo (i + 1) j)"
    using Suc.hyps(1) [OF \<open>n = j - (i + 1)\<close>] \<open>i < j\<close> by simp
  finally show ?case using \<open>i < j\<close> by (simp add: digits_of_step)
qed

lemma valid_digits: "valid_key lo \<Longrightarrow> d < 62 \<Longrightarrow> valid_key (digits_of lo i m @ [DIGITS ! d])"
  using dig_bound [of lo] by (auto simp: valid_key_def digits_of_def list_all_iff)

lemma dig_digits_of: "valid_key lo \<Longrightarrow> x < m \<Longrightarrow> d < 62 \<Longrightarrow> dig (digits_of lo 0 m @ [DIGITS ! d]) x = dig lo x"
  using digit_index_nth [OF dig_bound, of lo x] by (simp add: digits_of_def dig_append dig_def [of "map (\<lambda>x. DIGITS ! dig lo x) [0..<m]"])

lemma dig_digits_last: "d < 62 \<Longrightarrow> dig (digits_of lo 0 m @ [DIGITS ! d]) m = d"
  by (simp add: dig_append digits_of_def dig_singleton)

text \<open>Every key the loop builds: the digits of the lower key up to some place, and a larger digit there.\<close>

lemma built_key:
  assumes "valid_key lo" "dig lo m < d" "d < 62"
  defines "k \<equiv> digits_of lo 0 m @ [DIGITS ! d]"
  shows "order_key_parse k = Inr k" "lo < k"
proof -
  have v: "valid_key k" unfolding k_def by (rule valid_digits [OF assms(1,3)])
  have "length k - 1 = m" by (simp add: k_def digits_of_def)
  then have "dig k (length k - 1) = d" using dig_digits_last [OF assms(3)] by (simp add: k_def)
  then show "order_key_parse k = Inr k" using v assms(2) by (simp add: order_key_parse_iff k_def)
  have "first_diff lo k m" unfolding first_diff_def k_def
    using dig_digits_of [OF assms(1) _ assms(3)] dig_digits_last [OF assms(3)] assms(2) by simp
  then show "lo < k" by (rule first_diff_less [OF assms(1) v])
qed

lemma key_between_None:
  assumes "valid_key lo"
  shows "\<exists>k. key_between lo None = Some (Inr k) \<and> order_key_parse k = Inr k \<and> lo < k"
proof -
  obtain m d where m: "dig lo m < d" "d < 62" "key_between lo None = Some (Inr (digits_of lo 0 m @ [DIGITS ! d]))"
    using key_between_open [OF assms, of 0 "[]"] by (auto simp: key_between_def)
  with built_key [OF assms m(1,2)] show ?thesis by blast
qed

lemma key_between_Some:
  assumes v: "valid_key lo" "valid_key hi" and d: "first_diff lo hi j"
  shows "\<exists>k. key_between lo (Some hi) = Some (Inr k) \<and> order_key_parse k = Inr k \<and> lo < k \<and> k < hi"
proof -
  have eq: "\<forall>x < j. dig lo x = dig hi x" and less: "dig lo j < dig hi j" using d by (simp_all add: first_diff_def)
  define mid where "mid = (dig lo j + dig hi j) div 2"
  have b: "dig hi j < 62" by (rule dig_bound [OF v(2)])
  have "key_between lo (Some hi) = key_between_loop lo (Some hi) j (digits_of lo 0 j)"
    using key_between_shared [OF v eq, of 0 "[]"] by (simp add: key_between_def)
  also have "\<dots> = (if mid > dig lo j then Some (Inr (digits_of lo 0 j @ [DIGITS ! mid]))
      else key_between_loop lo None (j + 1) (digits_of lo 0 j @ [DIGITS ! dig lo j]))"
    using less by (subst key_between_loop.simps) (simp add: digit_at_dig [OF v(1)] digit_at_dig [OF v(2)] mid_def Let_def)
  finally have k: "key_between lo (Some hi) = \<dots>" .
  show ?thesis
  proof (cases "mid > dig lo j")
    case True
    have m: "mid < dig hi j" using less by (simp add: mid_def)
    then have m62: "mid < 62" using b by simp
    let ?k = "digits_of lo 0 j @ [DIGITS ! mid]"
    note bk = built_key [OF v(1) True m62]
    have "first_diff ?k hi j" unfolding first_diff_def
      using dig_digits_of [OF v(1) _ m62] dig_digits_last [OF m62] eq m by simp
    then have "?k < hi" using bk(1) v(2) by (intro first_diff_less) (auto simp: order_key_parse_iff)
    with bk k True show ?thesis by simp
  next
    case False
    obtain m e where m: "j + 1 \<le> m" "dig lo m < e" "e < 62"
      "key_between_loop lo None (j + 1) (digits_of lo 0 j @ [DIGITS ! dig lo j])
        = Some (Inr ((digits_of lo 0 j @ [DIGITS ! dig lo j]) @ digits_of lo (j + 1) m @ [DIGITS ! e]))"
      using key_between_open [OF v(1), of "j + 1" "digits_of lo 0 j @ [DIGITS ! dig lo j]"] by blast
    have "digits_of lo 0 j @ DIGITS ! dig lo j # digits_of lo (j + 1) m = digits_of lo 0 m"
    proof -
      have "[0..<m] = [0..<j] @ j # [j + 1..<m]" using m(1) upt_add_eq_append [of 0 j "m - j"] upt_conv_Cons [of j m] by simp
      then show ?thesis unfolding digits_of_def by (simp only: map_append list.map)
    qed
    then have r: "key_between lo (Some hi) = Some (Inr (digits_of lo 0 m @ [DIGITS ! e]))" using k False m(4) by simp
    let ?k = "digits_of lo 0 m @ [DIGITS ! e]"
    note bk = built_key [OF v(1) m(2,3)]
    have "first_diff ?k hi j" unfolding first_diff_def using dig_digits_of [OF v(1) _ m(3)] m(1) eq less by simp
    then have "?k < hi" using bk(1) v(2) by (intro first_diff_less) (auto simp: order_key_parse_iff)
    with bk r show ?thesis by simp
  qed
qed

text \<open>C12: Generating an order key between two neighbours terminates and is correct: for canonical neighbours, or
  none on either side, with the lower before the upper, order_key_between returns a canonical key that sorts strictly
  between them in byte order.\<close>

theorem order_key_between_returns:
  assumes "case lo of None \<Rightarrow> True | Some l \<Rightarrow> order_key_parse l = Inr l" and "case hi of None \<Rightarrow> True | Some h \<Rightarrow> order_key_parse h = Inr h"
    and "case (lo, hi) of (Some l, Some h) \<Rightarrow> l < h | _ \<Rightarrow> True"
  shows "\<exists>k. order_key_between lo hi = Some (Inr k) \<and> order_key_parse k = Inr k
    \<and> (case lo of None \<Rightarrow> True | Some l \<Rightarrow> l < k) \<and> (case hi of None \<Rightarrow> True | Some h \<Rightarrow> k < h)"
proof -
  define l where "l = (case lo of Some k \<Rightarrow> k | None \<Rightarrow> [])"
  have vl: "valid_key l" using assms(1) by (auto simp: l_def order_key_parse_iff valid_key_def split: option.splits)
  have lk: "l < k \<Longrightarrow> (case lo of None \<Rightarrow> True | Some l \<Rightarrow> l < k)" for k by (auto simp: l_def split: option.splits)
  show ?thesis
  proof (cases hi)
    case None
    then show ?thesis using key_between_None [OF vl] lk by (auto simp: order_key_between_def l_def [symmetric])
  next
    case (Some h)
    have h: "h \<noteq> []" "valid_key h" "dig h (length h - 1) \<noteq> 0" using assms(2) Some by (auto simp: order_key_parse_iff)
    have "l < h" using assms(3) Some h(1) by (cases lo; cases h) (auto simp: l_def)
    then obtain j where "first_diff l h j" using less_first_diff [OF vl h(2) _ h(3)] by blast
    then show ?thesis using key_between_Some [OF vl h(2)] lk Some by (auto simp: order_key_between_def l_def [symmetric])
  qed
qed

lemma order_key_between_returns_witness:
  "\<exists>k. order_key_between (Some [86]) (Some [87]) = Some (Inr k) \<and> order_key_parse k = Inr k \<and> [86] < k \<and> k < [87]"
proof -
  have "order_key_parse [86] = Inr [86]" "order_key_parse [87] = Inr [87]" "[86] < ([87] :: bytes)" by code_simp+
  then show ?thesis using order_key_between_returns [of "Some [86]" "Some [87]"] by simp
qed

end
