(* ===== verification/Loom_Chunk.thy ===== *)
theory Loom_Chunk
  imports Loom_Prelude
begin

text \<open>
  Content-defined chunking, \<^verbatim>\<open>crates/loom-core/src/chunk.rs\<close>: the gear hash, the cut point of the chunk at the front
  of a buffer, the split of a whole buffer, and the incremental chunker that is fed blocks of any size. Chunks are
  byte lists; the closure that receives emitted chunks is the list of chunks it has received.
\<close>

section \<open>Sizes and the gear table\<close>

definition MIN_SIZE :: nat where "MIN_SIZE = 512 * 1024"
definition AVG_SIZE :: nat where "AVG_SIZE = 1024 * 1024"
definition MAX_SIZE :: nat where "MAX_SIZE = 4 * 1024 * 1024"
definition CHUNK_THRESHOLD :: nat where "CHUNK_THRESHOLD = MIN_SIZE"
definition AVG_BITS :: nat where "AVG_BITS = 20"
definition MASK_S_BITS :: nat where "MASK_S_BITS = AVG_BITS + 2"
definition MASK_L_BITS :: nat where "MASK_L_BITS = AVG_BITS - 2"

definition gear_mix :: "u64 \<Rightarrow> u64" where
  "gear_mix z0 =
    (let z1 = (z0 XOR drop_bit 30 z0) * 0xBF58476D1CE4E5B9;
         z2 = (z1 XOR drop_bit 27 z1) * 0x94D049BB133111EB
     in z2 XOR drop_bit 31 z2)"

fun build_gear :: "nat \<Rightarrow> u64 \<Rightarrow> u64 list" where
  "build_gear 0 state = []"
| "build_gear (Suc n) state = (let s = state + 0x9E3779B97F4A7C15 in gear_mix s # build_gear n s)"

definition GEAR :: "u64 list" where
  "GEAR = build_gear 256 0x9E3779B97F4A7C15"

section \<open>Cut points\<close>

text \<open>The scan from byte \<open>i\<close> on, with the hash of the bytes before; it runs over the first bytes of the buffer, up to
  the largest chunk.\<close>

fun cut_scan :: "u64 \<Rightarrow> nat \<Rightarrow> bytes \<Rightarrow> nat" where
  "cut_scan fp i [] = i"
| "cut_scan fp i (b # bs) =
    (let fp' = push_bit 1 fp + GEAR ! unat b; i' = i + 1
     in if i' < MIN_SIZE then cut_scan fp' i' bs
        else let bits = (if i' < AVG_SIZE then MASK_S_BITS else MASK_L_BITS)
          in if drop_bit (64 - bits) fp' = 0 then i' else cut_scan fp' i' bs)"

definition cut_point :: "bytes \<Rightarrow> nat" where
  "cut_point data =
    (let len = length data
     in if len \<le> MIN_SIZE then len else cut_scan 0 0 (take (min len MAX_SIZE) data))"

lemma sizes: "0 < MIN_SIZE" "MIN_SIZE < AVG_SIZE" "AVG_SIZE < MAX_SIZE"
  by (simp_all add: MIN_SIZE_def AVG_SIZE_def MAX_SIZE_def)

text \<open>One byte either settles the cut, whatever follows it, or is passed over.\<close>

lemma cut_scan_step:
  obtains hit fp' where "hit \<Longrightarrow> MIN_SIZE \<le> i + 1" "\<And>bs. cut_scan fp i (b # bs) = (if hit then i + 1 else cut_scan fp' (i + 1) bs)"
proof
  let ?fp = "push_bit 1 fp + GEAR ! unat b"
  let ?hit = "MIN_SIZE \<le> i + 1 \<and> drop_bit (64 - (if i + 1 < AVG_SIZE then MASK_S_BITS else MASK_L_BITS)) ?fp = 0"
  show "MIN_SIZE \<le> i + 1" if "?hit" using that by simp
  show "cut_scan fp i (b # bs) = (if ?hit then i + 1 else cut_scan ?fp (i + 1) bs)" for bs by (simp add: Let_def not_less)
qed

lemma cut_scan_range: "i \<le> cut_scan fp i bs \<and> cut_scan fp i bs \<le> i + length bs \<and> min MIN_SIZE (i + length bs) \<le> max i (cut_scan fp i bs)"
proof (induction bs arbitrary: fp i)
  case (Cons b bs)
  obtain hit fp' where h: "hit \<Longrightarrow> MIN_SIZE \<le> i + 1" "cut_scan fp i (b # bs) = (if hit then i + 1 else cut_scan fp' (i + 1) bs)"
    using cut_scan_step [of i fp b] by metis
  show ?case using Cons.IH [of "i + 1" fp'] h by (cases hit) auto
qed auto

lemma cut_scan_stable: "cut_scan fp i bs < i + length bs \<Longrightarrow> cut_scan fp i (bs @ cs) = cut_scan fp i bs"
proof (induction bs arbitrary: fp i)
  case (Cons b bs)
  obtain hit fp' where h: "\<And>bs. cut_scan fp i (b # bs) = (if hit then i + 1 else cut_scan fp' (i + 1) bs)"
    using cut_scan_step [of i fp b] by metis
  show ?case using Cons h by (cases hit) (auto simp del: cut_scan.simps)
qed simp

lemma cut_point_range:
  "data \<noteq> [] \<Longrightarrow> 0 < cut_point data" "cut_point data \<le> length data" "cut_point data \<le> MAX_SIZE"
  "cut_point data < length data \<Longrightarrow> MIN_SIZE \<le> cut_point data"
  using cut_scan_range [of 0 0 "take (min (length data) MAX_SIZE) data"] sizes
  by (auto simp: cut_point_def Let_def not_le)

text \<open>A cut strictly inside the buffer, or at the largest size, does not depend on what follows.\<close>

lemma cut_point_settled:
  assumes "cut_point data < length data \<or> MAX_SIZE \<le> length data"
  shows "cut_point (data @ more) = cut_point data"
proof -
  have long: "MIN_SIZE < length data" using assms sizes by (auto simp: cut_point_def Let_def split: if_splits)
  show ?thesis
  proof (cases "MAX_SIZE \<le> length data")
    case True
    then show ?thesis using long by (simp add: cut_point_def Let_def)
  next
    case False
    define scan where "scan = cut_scan 0 0 data"
    have c: "cut_point data = scan" using long False by (simp add: cut_point_def Let_def scan_def)
    then have "scan < 0 + length data" using assms False by simp
    then have "cut_scan 0 0 (data @ take (min (length data + length more) MAX_SIZE - length data) more) = scan"
      unfolding scan_def by (rule cut_scan_stable)
    then show ?thesis using long False c by (simp add: cut_point_def Let_def)
  qed
qed

section \<open>Splitting a buffer\<close>

function chunk :: "bytes \<Rightarrow> bytes list" where
  "chunk rest = (if rest = [] then [] else let c = cut_point rest in take c rest # chunk (drop c rest))"
  by pat_completeness auto
termination
  by (relation "measure length") (use cut_point_range(1) in \<open>auto simp: length_greater_0_conv [symmetric] simp del: length_greater_0_conv\<close>)

declare chunk.simps [simp del]

lemma chunk_Nil [simp]: "chunk [] = []"
  by (simp add: chunk.simps)

lemma chunk_Cons: "data \<noteq> [] \<Longrightarrow> chunk data = take (cut_point data) data # chunk (drop (cut_point data) data)"
  by (subst chunk.simps) (simp add: Let_def)

lemma chunk_eq_Nil [simp]: "chunk data = [] \<longleftrightarrow> data = []"
  using chunk_Cons by (cases "data = []") auto

lemma chunk_settled:
  assumes "data \<noteq> []" "cut_point data < length data \<or> MAX_SIZE \<le> length data"
  shows "chunk (data @ more) = take (cut_point data) data # chunk (drop (cut_point data) data @ more)"
  using assms cut_point_range(2) [of data] by (subst chunk_Cons) (simp_all add: cut_point_settled)

section \<open>The incremental chunker\<close>

definition stream_new :: bytes where
  "stream_new = []"

function stream_settle :: "bytes \<Rightarrow> bytes list \<times> bytes" where
  "stream_settle buf =
    (if buf = [] then ([], buf)
     else let c = cut_point buf
       in if c < length buf then (case stream_settle (drop c buf) of (out, buf') \<Rightarrow> (take c buf # out, buf'))
          else if length buf \<ge> MAX_SIZE then ([buf], [])
          else ([], buf))"
  by pat_completeness auto
termination
  by (relation "measure length") (use cut_point_range(1) in \<open>auto simp: length_greater_0_conv [symmetric] simp del: length_greater_0_conv\<close>)

declare stream_settle.simps [simp del]

definition stream_push :: "bytes \<Rightarrow> bytes \<Rightarrow> bytes list \<times> bytes" where
  "stream_push buf data = stream_settle (buf @ data)"

definition stream_finish :: "bytes \<Rightarrow> bytes list" where
  "stream_finish buf = chunk buf"

fun stream_run :: "bytes \<Rightarrow> bytes list \<Rightarrow> bytes list" where
  "stream_run buf [] = stream_finish buf"
| "stream_run buf (block # blocks) = (case stream_push buf block of (out, buf') \<Rightarrow> out @ stream_run buf' blocks)"

lemma stream_settle_chunk:
  "stream_settle buf = (out, buf') \<Longrightarrow> chunk (buf @ more) = out @ chunk (buf' @ more) \<and> length buf' < MAX_SIZE"
proof (induction buf arbitrary: out buf' rule: stream_settle.induct)
  case (1 buf)
  show ?case
  proof (cases "buf = []")
    case True
    then show ?thesis using "1.prems" sizes by (simp add: stream_settle.simps)
  next
    case False
    define c where "c = cut_point buf"
    consider (inside) "c < length buf" | (full) "c = length buf" "MAX_SIZE \<le> length buf" | (wait) "c = length buf" "length buf < MAX_SIZE"
      using cut_point_range(2) [of buf] by (force simp: c_def)
    then show ?thesis
    proof cases
      case inside
      obtain out1 where o: "stream_settle (drop c buf) = (out1, buf')" "out = take c buf # out1"
        using "1.prems" False inside by (subst (asm) stream_settle.simps) (auto simp: Let_def c_def split: prod.splits)
      show ?thesis using "1.IH" [OF False c_def inside o(1)] o(2) chunk_settled [OF False, of more] inside by (simp add: c_def)
    next
      case full
      then have "out = [buf]" "buf' = []" using "1.prems" False by (subst (asm) stream_settle.simps, simp add: Let_def c_def)+
      then show ?thesis using full chunk_settled [OF False, of more] sizes by (simp add: c_def)
    next
      case wait
      then have "out = []" "buf' = buf" using "1.prems" False by (subst (asm) stream_settle.simps, simp add: Let_def c_def)+
      then show ?thesis using wait by simp
    qed
  qed
qed

text \<open>C15: Chunking splits content exactly and within its bounds: the chunks of a buffer concatenate to it, none is
  empty or longer than four mebibytes, and every chunk but the last has at least half a mebibyte.\<close>

theorem chunk_bounds:
  "concat (chunk data) = data \<and> list_all (\<lambda>c. 0 < length c \<and> length c \<le> MAX_SIZE) (chunk data)
   \<and> list_all (\<lambda>c. MIN_SIZE \<le> length c) (butlast (chunk data))"
proof (induction data rule: chunk.induct)
  case (1 data)
  show ?case
  proof (cases "data = []")
    case False
    define c where "c = cut_point data"
    note r = cut_point_range [of data, folded c_def]
    note ih = "1.IH" [OF False c_def]
    have "0 < c" using r(1) False by simp
    moreover have "MIN_SIZE \<le> c" if "drop c data \<noteq> []" using that r(4) by simp
    ultimately show ?thesis using ih r(2,3) False by (simp add: chunk_Cons [OF False] c_def [symmetric])
  qed simp
qed

text \<open>C38: Chunking a stream gives the chunks of the whole content: whatever blocks the content is pushed in, the
  chunks that the incremental chunker emits, those of its final flush included, are the chunks of the concatenated
  content; and after a push fewer than four mebibytes stay buffered.\<close>

theorem stream_matches_batch:
  "stream_run stream_new blocks = chunk (concat blocks) \<and> length (snd (stream_push buf block)) < MAX_SIZE"
proof -
  have "stream_run buf blocks = chunk (buf @ concat blocks)" for buf
  proof (induction blocks arbitrary: buf)
    case (Cons block blocks)
    obtain out buf' where s: "stream_settle (buf @ block) = (out, buf')" by force
    show ?case using stream_settle_chunk [OF s, of "concat blocks"] by (simp add: stream_push_def s Cons.IH)
  qed (simp add: stream_finish_def)
  moreover have "length (snd (stream_push buf block)) < MAX_SIZE"
    using stream_settle_chunk [of "buf @ block" "fst (stream_push buf block)" "snd (stream_push buf block)" "[]"] by (simp add: stream_push_def)
  ultimately show ?thesis by (simp add: stream_new_def)
qed

end
