(* ===== verification/Loom_Blob.thy ===== *)
theory Loom_Blob
  imports Loom_Record Loom_Recovery Loom_Pagemap
begin

text \<open>
  Writing records onto pages and reading them back, the blob half of \<^verbatim>\<open>crates/loom-store/src/record_io.rs\<close>: small
  records are packed into shared slab pages, others take a page run or a chain of single pages. The file is the
  byte list of its backing and the allocator is passed along; a closure that is called for each page of a chain is
  a function on the state it captures.
\<close>

section \<open>Writing\<close>

definition page_offset :: "u64 \<Rightarrow> u64" where
  "page_offset page = DATA_START + page * PAGE_SIZE"

definition write_page :: "bytes \<Rightarrow> u64 \<Rightarrow> bytes \<Rightarrow> bytes res" where
  "write_page file page buf = io_err (mem_pwrite file (page_offset page) buf)"

type_synonym key = bytes
type_synonym placement = "key \<times> RecordLoc"

definition flush_slab ::
  "bytes \<Rightarrow> PageAllocator \<Rightarrow> SlabBuilder \<Rightarrow> (key \<times> u32) list \<Rightarrow> placement list \<Rightarrow> (placement list \<times> bytes \<times> PageAllocator) res" where
  "flush_slab file a slab pending placements =
    (case alloc a 1 of (page, a') \<Rightarrow>
      rbind (write_page file page (slab_finish slab)) (\<lambda>file'.
        Inr (placements @ map (\<lambda>(digest, slot). (digest, loc_from_global page slot)) pending, file', a')))"

fun write_blob_loop ::
  "(key \<times> bytes) list \<Rightarrow> SlabBuilder \<Rightarrow> (key \<times> u32) list \<Rightarrow> placement list \<Rightarrow> bytes \<Rightarrow> PageAllocator
    \<Rightarrow> (placement list \<times> bytes \<times> PageAllocator) res" where
  "write_blob_loop [] slab pending placements file a =
    (if slab_is_empty slab then Inr (placements, file, a) else flush_slab file a slab pending placements)"
| "write_blob_loop ((k, blob) # fresh) slab pending placements file a =
    (if is_large (word_of_nat (length blob)) then
       (case alloc a (large_pages (word_of_nat (length blob))) of (page, a') \<Rightarrow>
         rbind (write_page file page (encode_large blob)) (\<lambda>file'.
           write_blob_loop fresh slab pending (placements @ [(k, loc_from_global page 0)]) file' a'))
     else case slab_try_push slab blob of
       Some (slot, slab') \<Rightarrow> write_blob_loop fresh slab' (pending @ [(k, slot)]) placements file a
     | None \<Rightarrow>
       rbind (flush_slab file a slab pending placements) (\<lambda>(placements', file', a').
         case slab_try_push slab_new blob of
           Some (slot, slab') \<Rightarrow> write_blob_loop fresh slab' [(k, slot)] placements' file' a'
         | None \<Rightarrow> Inl Internal))"

definition write_blob_pages :: "bytes \<Rightarrow> PageAllocator \<Rightarrow> (key \<times> bytes) list \<Rightarrow> (placement list \<times> bytes \<times> PageAllocator) res" where
  "write_blob_pages file a fresh = write_blob_loop fresh slab_new [] [] file a"

text \<open>The pages of one chained record are allocated one by one, then written in order.\<close>

fun collect_pages :: "('s \<Rightarrow> u64 \<Rightarrow> u64 \<times> 's) \<Rightarrow> nat \<Rightarrow> 's \<Rightarrow> u64 list \<times> 's" where
  "collect_pages get 0 a = ([], a)"
| "collect_pages get (Suc n) a = (case get a 1 of (page, a1) \<Rightarrow> case collect_pages get n a1 of (pages, a2) \<Rightarrow> (page # pages, a2))"

fun write_chain :: "bytes \<Rightarrow> nat \<Rightarrow> u64 list \<Rightarrow> bytes \<Rightarrow> bytes res" where
  "write_chain blob index [] file = Inr file"
| "write_chain blob index (page # pages) file =
    (let start = index * chunked_blob_payload_capacity;
         chunk = subslice blob (min start (length blob)) (min (length blob) (start + chunked_blob_payload_capacity));
         nxt = (case pages of [] \<Rightarrow> None | p # _ \<Rightarrow> Some p)
     in rbind (ok_or CorruptObject (encode_chunked_blob_page chunk nxt (word_of_nat (length blob)))) (\<lambda>enc_page.
        rbind (write_page file page enc_page) (\<lambda>file'. write_chain blob (index + 1) pages file')))"

definition chain_pages :: "bytes \<Rightarrow> nat" where
  "chain_pages blob = (max (length blob) 1 + (chunked_blob_payload_capacity - 1)) div chunked_blob_payload_capacity"

definition write_dedicated_blob :: "bytes \<Rightarrow> PageAllocator \<Rightarrow> key \<Rightarrow> bytes \<Rightarrow> (placement \<times> bytes \<times> PageAllocator) res" where
  "write_dedicated_blob file a k blob =
    (case collect_pages alloc (chain_pages blob) a of (pages, a') \<Rightarrow>
      rbind (write_chain blob 0 pages file) (\<lambda>file'.
        case pages of [] \<Rightarrow> Inl Internal | p # _ \<Rightarrow> Inr ((k, loc_from_global p 0), file', a')))"

fun write_dedicated_blob_pages :: "bytes \<Rightarrow> PageAllocator \<Rightarrow> (key \<times> bytes) list \<Rightarrow> (placement list \<times> bytes \<times> PageAllocator) res" where
  "write_dedicated_blob_pages file a [] = Inr ([], file, a)"
| "write_dedicated_blob_pages file a ((k, blob) # fresh) =
    rbind (write_dedicated_blob file a k blob) (\<lambda>(pl, file', a').
    rbind (write_dedicated_blob_pages file' a' fresh) (\<lambda>(pls, file'', a''). Inr (pl # pls, file'', a'')))"

text \<open>Prepared record frames keep their order: a placement is filled in by the index of its frame.\<close>

definition flush_prepared_slab ::
  "bytes \<Rightarrow> PageAllocator \<Rightarrow> SlabBuilder \<Rightarrow> (nat \<times> key \<times> u32) list \<Rightarrow> placement option list \<Rightarrow> (placement option list \<times> bytes \<times> PageAllocator) res" where
  "flush_prepared_slab file a slab pending placements =
    (case alloc a 1 of (page, a') \<Rightarrow>
      rbind (write_page file page (slab_finish slab)) (\<lambda>file'.
        Inr (fold (\<lambda>(index, digest, slot) pls. pls[index := Some (digest, loc_from_global page slot)]) pending placements, file', a')))"

fun write_prepared_loop ::
  "(key \<times> bytes) list \<Rightarrow> nat \<Rightarrow> SlabBuilder \<Rightarrow> (nat \<times> key \<times> u32) list \<Rightarrow> placement option list \<Rightarrow> bytes \<Rightarrow> PageAllocator
    \<Rightarrow> (placement option list \<times> bytes \<times> PageAllocator) res" where
  "write_prepared_loop [] index slab pending placements file a =
    (if slab_is_empty slab then Inr (placements, file, a) else flush_prepared_slab file a slab pending placements)"
| "write_prepared_loop ((digest, frame) # prepared) index slab pending placements file a =
    (if is_large (word_of_nat (length frame)) then
       rbind (write_dedicated_blob_pages file a [(digest, frame)]) (\<lambda>(dedicated, file', a').
         write_prepared_loop prepared (index + 1) slab pending
           (placements[index := (case dedicated of [] \<Rightarrow> None | pl # _ \<Rightarrow> Some pl)]) file' a')
     else case slab_try_push slab frame of
       Some (slot, slab') \<Rightarrow> write_prepared_loop prepared (index + 1) slab' (pending @ [(index, digest, slot)]) placements file a
     | None \<Rightarrow>
       rbind (flush_prepared_slab file a slab pending placements) (\<lambda>(placements', file', a').
         case slab_try_push slab_new frame of
           Some (slot, slab') \<Rightarrow> write_prepared_loop prepared (index + 1) slab' [(index, digest, slot)] placements' file' a'
         | None \<Rightarrow> Inl Internal))"

definition write_prepared_record_pages ::
  "bytes \<Rightarrow> PageAllocator \<Rightarrow> (key \<times> bytes) list \<Rightarrow> (placement list \<times> bytes \<times> PageAllocator) res" where
  "write_prepared_record_pages file a prepared =
    rbind (write_prepared_loop prepared 0 slab_new [] (replicate (length prepared) None) file a) (\<lambda>(placements, file', a').
      if list_all (\<lambda>p. p \<noteq> None) placements then Inr (map the placements, file', a') else Inl CorruptObject)"

section \<open>Reading\<close>

text \<open>The walk along a chain of pages. The pages it has seen are all below the page count and all different, so it
  cannot take more steps than there are pages.\<close>

function visit_chunked_blob_pages ::
  "bytes \<Rightarrow> u64 \<Rightarrow> ('s \<Rightarrow> u64 \<Rightarrow> u64 \<Rightarrow> bytes \<Rightarrow> 's res) \<Rightarrow> u64 list \<Rightarrow> u64 \<Rightarrow> u64 option \<Rightarrow> u64 \<Rightarrow> 's \<Rightarrow> 's res" where
  "visit_chunked_blob_pages file page_count visit seen current expected_total accumulated s =
    (if current \<ge> page_count \<or> current \<in> set seen then Inl CorruptObject
     else rbind (io_err (mem_pread file (page_offset current) 4096)) (\<lambda>page.
       case decode_chunked_blob_page page of
         None \<Rightarrow> Inl CorruptObject
       | Some (nxt, tot, chunk) \<Rightarrow>
         if (case expected_total of None \<Rightarrow> False | Some t \<Rightarrow> t \<noteq> tot) then Inl CorruptObject
         else rbind (ok_or CorruptObject (checked_add accumulated (word_of_nat (length chunk)))) (\<lambda>accumulated'.
           if accumulated' > tot then Inl CorruptObject
           else rbind (visit s current tot chunk) (\<lambda>s'.
             case nxt of
               Some p \<Rightarrow> visit_chunked_blob_pages file page_count visit (current # seen) p (Some tot) accumulated' s'
             | None \<Rightarrow> if accumulated' = tot then Inr s' else Inl CorruptObject))))"
  by pat_completeness auto
termination
proof (relation "measure (\<lambda>(file, page_count, visit, seen, current, rest). card ({..<unat page_count} - unat ` set seen))", goal_cases)
  case 1
  show ?case by simp
next
  case (2 f page_count visit seen current)
  then have c: "current < page_count" "current \<notin> set seen" by (simp_all add: not_le)
  let ?S = "{..<unat page_count} - unat ` set seen"
  have "unat current \<in> ?S" using c by (auto simp: word_less_nat_alt dest: unsigned_word_eqI)
  then have "card (?S - {unat current}) < card ?S" by (intro card_Diff1_less) simp_all
  moreover have "{..<unat page_count} - unat ` set (current # seen) = ?S - {unat current}" by auto
  ultimately show ?case by (simp only: in_measure case_prod_conv)
qed

declare visit_chunked_blob_pages.simps [simp del]

definition chunked_blob_pages :: "bytes \<Rightarrow> u64 \<Rightarrow> u64 \<Rightarrow> u64 list res" where
  "chunked_blob_pages file start page_count =
    visit_chunked_blob_pages file page_count (\<lambda>pages page _ _. Inr (pages @ [page])) [] start None 0 []"

definition read_chunked_blob :: "bytes \<Rightarrow> u64 \<Rightarrow> u64 \<Rightarrow> bytes res" where
  "read_chunked_blob file start page_count =
    visit_chunked_blob_pages file page_count (\<lambda>out _ _ chunk. Inr (out @ chunk)) [] start None 0 []"

definition read_blob_from_loc :: "bytes \<Rightarrow> RecordLoc \<Rightarrow> u64 \<Rightarrow> bytes res" where
  "read_blob_from_loc file loc page_count =
    (let global = loc_global_page loc
     in if global \<ge> page_count then Inl CorruptObject
        else rbind (io_err (mem_pread file (page_offset global) 4096)) (\<lambda>first.
          if first ! 0 = SLAB_MAGIC then ok_or CorruptObject (read_slab_slot first (rl_slot loc))
          else if first ! 0 = LARGE_MAGIC then
            rbind (ok_or CorruptObject (large_blob_len first)) (\<lambda>blob_len.
              let pages = large_pages blob_len
              in if saturating_add global pages > page_count then Inl CorruptObject
                 else rbind (io_err (mem_pread file (page_offset global) (unat (pages * PAGE_SIZE)))) (\<lambda>buf.
                   rbind (decode_large buf) (\<lambda>r. ok_or CorruptObject r)))
          else if first ! 0 = CHUNKED_BLOB_MAGIC then read_chunked_blob file global page_count
          else Inl CorruptObject))"

definition blob_pages :: "bytes \<Rightarrow> u64 \<Rightarrow> u64 \<Rightarrow> u64 list res" where
  "blob_pages file start page_count =
    rbind (io_err (mem_pread file (page_offset start) 9)) (\<lambda>header.
      if header ! 0 = SLAB_MAGIC then Inr [start]
      else if header ! 0 = LARGE_MAGIC then
        rbind (ok_or CorruptObject (large_blob_len header)) (\<lambda>len.
          let span = large_pages len
          in if saturating_add start span > page_count then Inl CorruptObject
             else Inr (map word_of_nat [unat start ..< unat (start + span)]))
      else if header ! 0 = CHUNKED_BLOB_MAGIC then chunked_blob_pages file start page_count
      else Inl CorruptObject)"

end
