(* ===== verification/Loom_Blob_Read.thy ===== *)
theory Loom_Blob_Read
  imports Loom_Blob
begin

text \<open>
  The pages of a file as a store of records: what writing a run of pages keeps and changes, and what a reader of
  \<^verbatim>\<open>crates/loom-store/src/record_io.rs\<close> needs of those pages for each of the three placements, a slot of a slab, a
  large run and a chain of pages.
\<close>

section \<open>The pages of a file\<close>

definition has_page :: "bytes \<Rightarrow> nat \<Rightarrow> bool" where
  "has_page f p \<longleftrightarrow> 12288 + p * 4096 + 4096 \<le> length f"

definition page_at :: "bytes \<Rightarrow> nat \<Rightarrow> bytes" where
  "page_at f p = subslice f (12288 + p * 4096) (12288 + p * 4096 + 4096)"

definition PAGE_LIMIT :: nat where "PAGE_LIMIT = 2 ^ 51"

definition keeps :: "nat set \<Rightarrow> bytes \<Rightarrow> bytes \<Rightarrow> bool" where
  "keeps U f f' \<longleftrightarrow> (\<forall>q \<in> U. has_page f q \<longrightarrow> has_page f' q \<and> page_at f' q = page_at f q)"

lemma keeps_refl [simp]: "keeps U f f"
  by (simp add: keeps_def)

lemma keeps_trans: "keeps U f f' \<Longrightarrow> keeps V f' f'' \<Longrightarrow> U \<subseteq> V \<Longrightarrow> keeps U f f''"
  by (fastforce simp: keeps_def)

lemma keeps_mono: "keeps V f f' \<Longrightarrow> U \<subseteq> V \<Longrightarrow> keeps U f f'"
  by (auto simp: keeps_def)

lemma unat_page_offset:
  assumes "unat p \<le> PAGE_LIMIT"
  shows "unat (page_offset p) = 12288 + unat p * 4096"
proof -
  have b: "unat p * 4096 < 2 ^ 64" using assms by (simp add: PAGE_LIMIT_def)
  have m: "unat (p * 4096) = unat p * 4096" using b by (simp add: unat_word_ariths)
  then show ?thesis using assms by (simp add: page_offset_def DATA_START_def PAGE_SIZE_def unat_word_ariths PAGE_LIMIT_def)
qed

lemma pread_pages:
  assumes "unat p + n \<le> PAGE_LIMIT" "0 < n" "has_page f (unat p + n - 1)"
  shows "mem_pread f (page_offset p) (n * 4096) = Inr (subslice f (12288 + unat p * 4096) (12288 + unat p * 4096 + n * 4096))"
proof -
  have "12288 + unat p * 4096 + n * 4096 \<le> length f" using assms(2,3) by (cases n) (simp_all add: has_page_def algebra_simps)
  moreover have "12288 + unat p * 4096 + n * 4096 < 2 ^ 64" using assms(1) by (simp add: PAGE_LIMIT_def)
  ultimately show ?thesis using assms(1) unat_page_offset [of p] by (simp add: mem_pread_def USIZE_END_def Let_def)
qed

lemma pread_page: "unat p < PAGE_LIMIT \<Longrightarrow> has_page f (unat p) \<Longrightarrow> mem_pread f (page_offset p) 4096 = Inr (page_at f (unat p))"
  using pread_pages [of p 1 f] by (simp add: page_at_def)

lemma write_page_ok:
  assumes "unat p + n \<le> PAGE_LIMIT" "length buf = n * 4096"
  obtains f' where "write_page f p buf = Inr f'"
    "\<And>i. i < n \<Longrightarrow> has_page f' (unat p + i) \<and> page_at f' (unat p + i) = subslice buf (i * 4096) (i * 4096 + 4096)"
    "keeps (- {unat p ..< unat p + n}) f f'"
proof -
  have off: "unat (page_offset p) = 12288 + unat p * 4096" using assms by (intro unat_page_offset) simp
  have fin: "12288 + unat p * 4096 + n * 4096 < USIZE_END" using assms by (simp add: PAGE_LIMIT_def USIZE_END_def)
  then obtain f' where w: "mem_pwrite f (page_offset p) buf = Inr f'" using off assms(2) by (simp add: mem_pwrite_def Let_def)
  note k = mem_pwrite_ok [OF w]
  have len: "length f \<le> length f'" "12288 + unat p * 4096 + n * 4096 \<le> length f'" using k(1) off assms(2) by simp_all
  have nth: "subslice g a b ! i = g ! (a + i)" if "i < b - a" "b \<le> length g" for g :: bytes and a b i using that by (simp add: subslice_def)
  have slen: "length (subslice g a b) = b - a" if "b \<le> length g" for g :: bytes and a b using that by (simp add: subslice_def)
  have "has_page f' (unat p + i) \<and> page_at f' (unat p + i) = subslice buf (i * 4096) (i * 4096 + 4096)" if i: "i < n" for i
  proof -
    have hp: "has_page f' (unat p + i)" using len(2) i by (simp add: has_page_def algebra_simps)
    have bl: "i * 4096 + 4096 \<le> length buf" using i assms(2) by simp
    have "page_at f' (unat p + i) = subslice buf (i * 4096) (i * 4096 + 4096)"
    proof (rule nth_equalityI)
      show "length (page_at f' (unat p + i)) = length (subslice buf (i * 4096) (i * 4096 + 4096))"
        using hp bl by (simp add: page_at_def slen has_page_def)
      fix j assume "j < length (page_at f' (unat p + i))"
      then have j: "j < 4096" using hp by (simp add: page_at_def slen has_page_def)
      have "page_at f' (unat p + i) ! j = f' ! (12288 + (unat p + i) * 4096 + j)" using hp j by (simp add: page_at_def nth has_page_def)
      also have "\<dots> = buf ! (i * 4096 + j)"
        using k(3) [of "12288 + (unat p + i) * 4096 + j"] hp j bl off by (simp add: has_page_def algebra_simps)
      finally show "page_at f' (unat p + i) ! j = subslice buf (i * 4096) (i * 4096 + 4096) ! j" using j bl by (simp add: nth)
    qed
    with hp show ?thesis by blast
  qed
  moreover have "keeps (- {unat p ..< unat p + n}) f f'"
  proof -
    have "page_at f' q = page_at f q" if q: "q < unat p \<or> unat p + n \<le> q" and hp: "has_page f q" for q
    proof (rule nth_equalityI)
      have hp': "has_page f' q" using hp len(1) by (simp add: has_page_def)
      show "length (page_at f' q) = length (page_at f q)" using hp hp' by (simp add: page_at_def slen has_page_def)
      fix j assume "j < length (page_at f' q)"
      then have j: "j < 4096" using hp' by (simp add: page_at_def slen has_page_def)
      have out: "12288 + q * 4096 + j < 12288 + unat p * 4096 \<or> 12288 + unat p * 4096 + n * 4096 \<le> 12288 + q * 4096 + j"
        using q j by (auto simp: algebra_simps dest: mult_le_mono1 [where k = 4096])
      have "f' ! (12288 + q * 4096 + j) = f ! (12288 + q * 4096 + j)"
        using k(3) [of "12288 + q * 4096 + j"] hp hp' j out off assms(2) by (auto simp: has_page_def)
      then show "page_at f' q ! j = page_at f q ! j" using hp hp' j by (simp add: page_at_def nth has_page_def)
    qed
    then show ?thesis using len(1) by (auto simp: keeps_def has_page_def not_le not_less)
  qed
  ultimately show ?thesis using that w by (simp add: write_page_def io_err_def map_err_def)
qed

section \<open>What a reader needs\<close>

text \<open>A record is stored on the pages \<open>P\<close> when every file that agrees on them, with all of them below its page count,
  yields the record at the locator.\<close>

definition stored :: "bytes \<Rightarrow> nat set \<Rightarrow> RecordLoc \<Rightarrow> bytes \<Rightarrow> bool" where
  "stored f P loc blob \<longleftrightarrow> (\<forall>q \<in> P. has_page f q)
     \<and> (\<forall>f' pc. keeps P f f' \<longrightarrow> P \<subseteq> {..<unat pc} \<longrightarrow> read_blob_from_loc f' loc pc = Inr blob)"

lemma stored_keeps: "stored f P loc blob \<Longrightarrow> keeps U f f' \<Longrightarrow> P \<subseteq> U \<Longrightarrow> stored f' P loc blob"
  unfolding stored_def by (metis (no_types, lifting) keeps_def keeps_trans subset_eq)

lemma stored_read: "stored f P loc blob \<Longrightarrow> P \<subseteq> {..<unat pc} \<Longrightarrow> read_blob_from_loc f loc pc = Inr blob"
  by (simp add: stored_def)

lemmas page_magics = SLAB_MAGIC_def LARGE_MAGIC_def CHUNKED_BLOB_MAGIC_def

lemma read_first:
  assumes "unat p < PAGE_LIMIT" "has_page f (unat p)" "unat p < unat pc"
  shows "read_blob_from_loc f (loc_from_global p slot) pc =
    (let first = page_at f (unat p)
     in if first ! 0 = SLAB_MAGIC then ok_or CorruptObject (read_slab_slot first slot)
        else if first ! 0 = LARGE_MAGIC then
          rbind (ok_or CorruptObject (large_blob_len first)) (\<lambda>blob_len.
            let pages = large_pages blob_len
            in if saturating_add p pages > pc then Inl CorruptObject
               else rbind (io_err (mem_pread f (page_offset p) (unat (pages * PAGE_SIZE)))) (\<lambda>buf.
                 rbind (decode_large buf) (\<lambda>r. ok_or CorruptObject r)))
        else if first ! 0 = CHUNKED_BLOB_MAGIC then read_chunked_blob f p pc
        else Inl CorruptObject)"
proof -
  have "rl_slot (loc_from_global p slot) = slot" by (simp add: loc_from_global_def)
  then show ?thesis using assms pread_page [OF assms(1,2)]
    by (simp add: read_blob_from_loc_def loc_global word_le_nat_alt io_err_def map_err_def Let_def)
qed

lemma stored_slab:
  assumes b: "slab_wf b" and k: "k < length (slab_blobs b)" and p: "unat p < PAGE_LIMIT" "has_page f (unat p)" "page_at f (unat p) = slab_finish b"
  shows "stored f {unat p} (loc_from_global p (word_of_nat k)) (slab_blobs b ! k)"
  unfolding stored_def
proof (intro conjI allI impI)
  fix f' and pc :: u64 assume a: "keeps {unat p} f f'" "{unat p} \<subseteq> {..<unat pc}"
  then have f': "has_page f' (unat p)" "page_at f' (unat p) = slab_finish b" using p by (simp_all add: keeps_def)
  show "read_blob_from_loc f' (loc_from_global p (word_of_nat k)) pc = Inr (slab_blobs b ! k)"
    using read_first [OF p(1) f'(1), of pc] a(2) f'(2) slab_finish_page(2) [OF b] slab_read_back [OF b k] by (simp add: ok_or_def Let_def)
qed (use p in simp)

lemma subslice_pages: "subslice f (a + 0) (a + n * 4096) = concat (map (\<lambda>i. subslice f (a + i * 4096) (a + i * 4096 + 4096)) [0..<n])"
proof (induction n)
  case (Suc n)
  have "subslice f a (a + Suc n * 4096) = subslice f a (a + n * 4096) @ subslice f (a + n * 4096) (a + n * 4096 + 4096)"
    using subslice_split [of a "a + n * 4096" "a + n * 4096 + 4096" f] by (simp add: algebra_simps)
  with Suc show ?case by simp
qed (simp add: subslice_def)

lemma pages_of_buffer: "length buf = n * 4096 \<Longrightarrow> concat (map (\<lambda>i. subslice buf (i * 4096) (i * 4096 + 4096)) [0..<n]) = buf"
  using subslice_pages [of buf 0 n] by (simp add: subslice_def)

definition large_span :: "bytes \<Rightarrow> nat" where
  "large_span blob = (length blob + 13 + 4095) div 4096"

lemma large_span_pages:
  assumes "length blob + 4109 < 2 ^ 64"
  shows "unat (large_pages (word_of_nat (length blob))) = large_span blob" "length (encode_large blob) = large_span blob * 4096" "0 < large_span blob"
    "unat (large_pages (word_of_nat (length blob)) * PAGE_SIZE) = large_span blob * 4096"
proof -
  show l: "length (encode_large blob) = large_span blob * 4096" using large_round_trip(2) [OF assms] by (simp add: large_span_def)
  show "0 < large_span blob" by (simp add: large_span_def div_greater_zero_iff)
  show u: "unat (large_pages (word_of_nat (length blob)) * PAGE_SIZE) = large_span blob * 4096"
    using unat_large_pages [OF assms] by (simp add: PAGE_SIZE_def large_span_def)
  show "unat (large_pages (word_of_nat (length blob))) = large_span blob" using unat_large_count [OF assms] by (simp add: large_span_def)
qed

lemma stored_large:
  assumes len: "length blob + 4109 < 2 ^ 64"
    and p: "unat p + large_span blob \<le> PAGE_LIMIT"
    and pages: "\<And>i. i < large_span blob \<Longrightarrow> has_page f (unat p + i) \<and> page_at f (unat p + i) = subslice (encode_large blob) (i * 4096) (i * 4096 + 4096)"
  shows "stored f {unat p ..< unat p + large_span blob} (loc_from_global p 0) blob"
  unfolding stored_def
proof (intro conjI ballI allI impI)
  let ?n = "large_span blob"
  note sp = large_span_pages [OF len]
  show "has_page f q" if "q \<in> {unat p ..< unat p + ?n}" for q using pages [of "q - unat p"] that by auto
  fix f' and pc :: u64 assume a: "keeps {unat p ..< unat p + ?n} f f'" "{unat p ..< unat p + ?n} \<subseteq> {..<unat pc}"
  have f': "has_page f' (unat p + i) \<and> page_at f' (unat p + i) = subslice (encode_large blob) (i * 4096) (i * 4096 + 4096)" if "i < ?n" for i
    using a(1) pages [OF that] that by (simp add: keeps_def)
  have p0: "unat p < PAGE_LIMIT" "has_page f' (unat p)" "page_at f' (unat p) = subslice (encode_large blob) 0 4096"
    using p sp(3) f' [of 0] by simp_all
  have e: "unat p + ?n \<le> unat pc"
  proof -
    have "unat p + ?n - 1 \<in> {unat p ..< unat p + ?n}" using sp(3) by auto
    with a(2) have "unat p + ?n - 1 < unat pc" by blast
    with sp(3) show ?thesis by linarith
  qed
  have buf: "subslice f' (12288 + unat p * 4096) (12288 + unat p * 4096 + ?n * 4096) = encode_large blob"
  proof -
    have "subslice f' (12288 + unat p * 4096) (12288 + unat p * 4096 + ?n * 4096)
        = concat (map (\<lambda>i. page_at f' (unat p + i)) [0..<?n])"
      using subslice_pages [of f' "12288 + unat p * 4096" ?n] by (simp add: page_at_def algebra_simps)
    also have "\<dots> = concat (map (\<lambda>i. subslice (encode_large blob) (i * 4096) (i * 4096 + 4096)) [0..<?n])"
      using f' by (intro arg_cong [where f = concat] map_cong) simp_all
    finally show ?thesis using pages_of_buffer [OF sp(2)] by simp
  qed
  have rd: "mem_pread f' (page_offset p) (?n * 4096) = Inr (encode_large blob)"
    using pread_pages [OF p sp(3), of f'] f' [of "?n - 1"] sp(3) buf by simp
  have head: "large_blob_len (subslice (encode_large blob) 0 4096) = Some (word_of_nat (length blob))"
    "subslice (encode_large blob) 0 4096 ! 0 = LARGE_MAGIC"
    using large_head [OF len] by simp_all
  have lt: "unat p < unat pc" using e sp(3) by simp
  have "unat p + ?n < 2 ^ 64" using p by (simp add: PAGE_LIMIT_def)
  then have "unat (saturating_add p (large_pages (word_of_nat (length blob)))) = unat p + ?n" using sp(1) by (simp add: unat_saturating_add)
  then have ns: "\<not> pc < saturating_add p (large_pages (word_of_nat (length blob)))" using e by (simp add: word_less_nat_alt)
  show "read_blob_from_loc f' (loc_from_global p 0) pc = Inr blob"
    unfolding read_first [OF p0(1,2) lt] p0(3)
    using head ns rd sp(4) large_round_trip(1) [OF len] by (simp add: page_magics Let_def ok_or_def io_err_def map_err_def)
qed

section \<open>Chained pages\<close>

definition chain_piece :: "bytes \<Rightarrow> nat \<Rightarrow> bytes" where
  "chain_piece blob i = (let start = i * chunked_blob_payload_capacity
     in subslice blob (min start (length blob)) (min (length blob) (start + chunked_blob_payload_capacity)))"

definition chain_next :: "u64 list \<Rightarrow> u64 option" where
  "chain_next ps = (case ps of [] \<Rightarrow> None | p # _ \<Rightarrow> Some p)"

text \<open>The pages of a list hold the pieces of a blob from the one with index \<open>i\<close> on, each linked to the next.\<close>

fun chain_held :: "bytes \<Rightarrow> bytes \<Rightarrow> nat \<Rightarrow> u64 list \<Rightarrow> bool" where
  "chain_held f blob i [] = True"
| "chain_held f blob i (p # ps) \<longleftrightarrow> has_page f (unat p) \<and> page_at f (unat p) ! 0 = CHUNKED_BLOB_MAGIC
     \<and> decode_chunked_blob_page (page_at f (unat p)) = Some (chain_next ps, word_of_nat (length blob), chain_piece blob i)
     \<and> chain_held f blob (i + 1) ps"

lemma capacity: "chunked_blob_payload_capacity = 4071"
  by (simp add: chunked_blob_payload_capacity_def page_sizes)

lemma chain_piece_take: "chain_piece blob i = take 4071 (drop (i * 4071) blob)"
  by (cases "i * 4071 \<le> length blob") (auto simp: chain_piece_def capacity subslice_def Let_def min_def)

lemma chain_piece_simps:
  "length (chain_piece blob i) = min (length blob) (i * 4071 + 4071) - min (i * 4071) (length blob)"
  "chain_piece blob i @ drop ((i + 1) * 4071) blob = drop (i * 4071) blob"
proof -
  show "length (chain_piece blob i) = min (length blob) (i * 4071 + 4071) - min (i * 4071) (length blob)"
    by (simp add: chain_piece_take)
  have "drop ((i + 1) * 4071) blob = drop 4071 (drop (i * 4071) blob)" by (simp add: add.commute)
  then show "chain_piece blob i @ drop ((i + 1) * 4071) blob = drop (i * 4071) blob" by (simp only: chain_piece_take append_take_drop_id)
qed

lemma chain_held_keeps: "chain_held f blob i ps \<Longrightarrow> keeps U f f' \<Longrightarrow> unat ` set ps \<subseteq> U \<Longrightarrow> chain_held f' blob i ps"
  by (induction ps arbitrary: i) (auto simp: keeps_def)

lemma write_chain_ok:
  assumes "distinct ps" "\<And>p. p \<in> set ps \<Longrightarrow> unat p < PAGE_LIMIT"
  shows "\<exists>f'. write_chain blob i ps f = Inr f' \<and> chain_held f' blob i ps \<and> keeps (- unat ` set ps) f f'"
  using assms
proof (induction ps arbitrary: i f)
  case (Cons p ps)
  have nx: "chain_next ps \<noteq> Some CHUNKED_END"
    using Cons.prems(2) [of CHUNKED_END] by (cases ps) (auto simp: chain_next_def CHUNKED_END_def PAGE_LIMIT_def unsigned_minus_1_eq_mask mask_eq_exp_minus_1)
  have "length (chain_piece blob i) \<le> chunked_blob_payload_capacity" by (simp add: chain_piece_simps capacity)
  from chunked_round_trip [OF this nx, of "word_of_nat (length blob)"] obtain page where
    enc: "encode_chunked_blob_page (chain_piece blob i) (chain_next ps) (word_of_nat (length blob)) = Some page" "length page = 4096"
    and dec: "page ! 0 = CHUNKED_BLOB_MAGIC" "decode_chunked_blob_page page = Some (chain_next ps, word_of_nat (length blob), chain_piece blob i)"
    by blast
  obtain f1 where f1: "write_page f p page = Inr f1" "has_page f1 (unat p)" "page_at f1 (unat p) = page" "keeps (- {unat p}) f f1"
    using write_page_ok [of p 1 page f] enc(2) Cons.prems(2) [of p] by (auto simp: subslice_def)
  obtain f' where f': "write_chain blob (i + 1) ps f1 = Inr f'" "chain_held f' blob (i + 1) ps" "keeps (- unat ` set ps) f1 f'"
    using Cons.IH [of "i + 1" f1] Cons.prems by auto
  have "unat p \<notin> unat ` set ps" using Cons.prems(1) by (auto dest: unsigned_word_eqI)
  then have kp: "has_page f' (unat p)" "page_at f' (unat p) = page" using f'(3) f1(2,3) by (auto simp: keeps_def)
  have k: "keeps (- unat ` set (p # ps)) f f'" by (rule keeps_trans [OF keeps_mono [OF f1(4)] f'(3)]) auto
  have "write_chain blob i (p # ps) f = Inr f'"
    using f1(1) f'(1) enc(1) by (simp add: chain_piece_def chain_next_def Let_def ok_or_def)
  moreover have "chain_held f' blob i (p # ps)" using kp dec f'(2) by simp
  ultimately show ?case using k by blast
qed (simp add: keeps_def)

text \<open>What a walk over a chain leaves, for a visitor that does not fail.\<close>

fun chain_fold :: "('s \<Rightarrow> u64 \<Rightarrow> bytes \<Rightarrow> 's) \<Rightarrow> bytes \<Rightarrow> nat \<Rightarrow> u64 list \<Rightarrow> 's \<Rightarrow> 's" where
  "chain_fold g blob i [] s = s"
| "chain_fold g blob i (p # ps) s = chain_fold g blob (i + 1) ps (g s p (chain_piece blob i))"

lemma chain_fold_pages: "chain_fold (\<lambda>out p _. out @ [p]) blob i ps s = s @ ps"
  by (induction ps arbitrary: i s) simp_all

lemma chain_fold_bytes:
  "length blob \<le> (i + length ps) * 4071 \<Longrightarrow> chain_fold (\<lambda>out _ c. out @ c) blob i ps s = s @ drop (i * 4071) blob"
  by (induction ps arbitrary: i s) (simp_all add: chain_piece_simps(2) [of blob, simplified] algebra_simps)

lemma chain_sum:
  assumes "length blob < 2 ^ 64"
  shows "checked_add (word_of_nat (min (i * 4071) (length blob)) :: u64) (word_of_nat (length (chain_piece blob i)))
    = Some (word_of_nat (min ((i + 1) * 4071) (length blob)))"
proof -
  have e: "min (i * 4071) (length blob) + length (chain_piece blob i) = min ((i + 1) * 4071) (length blob)"
    by (auto simp: chain_piece_simps(1) min_def)
  have "min ((i + 1) * 4071) (length blob) < 2 ^ 64" using assms by (simp add: min_def)
  with e have l: "min (i * 4071) (length blob) < 2 ^ 64" "length (chain_piece blob i) < 2 ^ 64" by linarith+
  then show ?thesis using e assms by (simp add: checked_add_def unat_of_nat flip: of_nat_add)
qed

lemma visit_chain:
  assumes "chain_held f blob i (p # ps)" "distinct (p # ps)" "set (p # ps) \<inter> set seen = {}"
    "\<And>q. q \<in> set (p # ps) \<Longrightarrow> unat q < PAGE_LIMIT \<and> q < pc"
    "length blob < 2 ^ 64" "length blob \<le> (i + length (p # ps)) * 4071" "et \<in> {None, Some (word_of_nat (length blob))}"
    "acc = word_of_nat (min (i * 4071) (length blob))"
  shows "visit_chunked_blob_pages f pc (\<lambda>s p _ c. Inr (g s p c)) seen p et acc s = Inr (chain_fold g blob i (p # ps) s)"
  using assms
proof (induction ps arbitrary: i p seen et acc s)
  case Nil
  have c: "\<not> pc \<le> p" "p \<notin> set seen" "unat p < PAGE_LIMIT" "has_page f (unat p)" using Nil.prems(1,3,4) by (auto simp: not_le)
  have d: "decode_chunked_blob_page (page_at f (unat p)) = Some (None, word_of_nat (length blob), chain_piece blob i)"
    using Nil.prems(1) by (simp add: chain_next_def)
  have a: "checked_add acc (word_of_nat (length (chain_piece blob i))) = Some (word_of_nat (length blob))"
    using chain_sum [OF Nil.prems(5), of i] Nil.prems(6,8) by (simp add: min_def algebra_simps)
  show ?case using c d a pread_page [OF c(3,4)] Nil.prems(7)
    by (subst visit_chunked_blob_pages.simps) (auto simp: io_err_def map_err_def ok_or_def)
next
  case (Cons q ps)
  have c: "\<not> pc \<le> p" "p \<notin> set seen" "unat p < PAGE_LIMIT" "has_page f (unat p)" using Cons.prems(1,3,4) by (auto simp: not_le)
  have d: "decode_chunked_blob_page (page_at f (unat p)) = Some (Some q, word_of_nat (length blob), chain_piece blob i)"
    using Cons.prems(1) by (simp add: chain_next_def)
  let ?acc = "word_of_nat (min ((i + 1) * 4071) (length blob)) :: u64"
  have a: "checked_add acc (word_of_nat (length (chain_piece blob i))) = Some ?acc"
    using chain_sum [OF Cons.prems(5), of i] Cons.prems(8) by simp
  have le: "\<not> word_of_nat (length blob) < ?acc" using Cons.prems(5) by (auto simp: not_less word_le_nat_alt unat_of_nat min_def)
  have "visit_chunked_blob_pages f pc (\<lambda>s p _ c. Inr (g s p c)) (p # seen) q (Some (word_of_nat (length blob))) ?acc (g s p (chain_piece blob i))
      = Inr (chain_fold g blob (i + 1) (q # ps) (g s p (chain_piece blob i)))"
    by (rule Cons.IH) (use Cons.prems in auto)
  then show ?case using c d a le pread_page [OF c(3,4)] Cons.prems(7)
    by (subst visit_chunked_blob_pages.simps) (auto simp: io_err_def map_err_def ok_or_def)
qed

lemma stored_chain:
  assumes held: "chain_held f blob 0 (p # ps)" and dist: "distinct (p # ps)" and lim: "\<And>q. q \<in> set (p # ps) \<Longrightarrow> unat q < PAGE_LIMIT"
    and len: "length blob < 2 ^ 64" "length blob \<le> length (p # ps) * 4071"
  shows "stored f (unat ` set (p # ps)) (loc_from_global p 0) blob"
  unfolding stored_def
proof (intro conjI ballI allI impI)
  have h: "has_page f (unat q)" if "chain_held f blob i qs" "q \<in> set qs" for q i qs
    using that by (induction qs arbitrary: i) auto
  show "has_page f q" if "q \<in> unat ` set (p # ps)" for q using h [OF held] that by blast
  fix f' and pc :: u64 assume a: "keeps (unat ` set (p # ps)) f f'" "unat ` set (p # ps) \<subseteq> {..<unat pc}"
  have held': "chain_held f' blob 0 (p # ps)" using chain_held_keeps [OF held a(1)] by simp
  have pc: "q < pc" if "q \<in> set (p # ps)" for q using a(2) that by (auto simp: word_less_nat_alt)
  have p: "unat p < PAGE_LIMIT" "has_page f' (unat p)" "unat p < unat pc" "page_at f' (unat p) ! 0 = CHUNKED_BLOB_MAGIC"
    using lim [of p] held' pc [of p] by (simp_all add: word_less_nat_alt)
  have "read_chunked_blob f' p pc = Inr (chain_fold (\<lambda>out _ c. out @ c) blob 0 (p # ps) [])"
    unfolding read_chunked_blob_def by (rule visit_chain [OF held' dist]) (use lim pc len in auto)
  also have "\<dots> = Inr blob" using chain_fold_bytes [of blob 0 "p # ps" "[]"] len(2) by simp
  finally show "read_blob_from_loc f' (loc_from_global p 0) pc = Inr blob"
    unfolding read_first [OF p(1,2,3)] using p(4) by (simp add: page_magics Let_def)
qed

end
