(* ===== verification/Loom_Blob_Store.thy ===== *)
theory Loom_Blob_Store
  imports Loom_Blob_Read Loom_Alloc_Run "HOL-Library.Multiset"
begin

text \<open>
  Records written to pages are read back: the contract of a page source with its interpretation on the page
  allocator, and the composition of allocator, file and page formats in the writers of
  \<^verbatim>\<open>crates/loom-store/src/record_io.rs\<close>.
\<close>

section \<open>Sources of fresh pages\<close>

locale page_source =
  fixes get :: "'s \<Rightarrow> u64 \<Rightarrow> u64 \<times> 's" and good :: "'s \<Rightarrow> bool" and used :: "'s \<Rightarrow> nat set" and limit :: "'s \<Rightarrow> nat"
  assumes fresh_run: "good s \<Longrightarrow> 0 < unat n \<Longrightarrow> limit s + unat n < 2 ^ 64 \<Longrightarrow> get s n = (p, s') \<Longrightarrow>
      good s' \<and> run_pages p n \<inter> used s = {} \<and> used s' = used s \<union> run_pages p n \<and> limit s \<le> limit s' \<and> limit s' \<le> limit s + unat n
      \<and> used s' \<subseteq> {..<limit s'}"
begin

lemma collect_fresh:
  "good s \<Longrightarrow> limit s + n < 2 ^ 64 \<Longrightarrow> collect_pages get n s = (ps, s') \<Longrightarrow>
    good s' \<and> length ps = n \<and> distinct ps \<and> unat ` set ps \<inter> used s = {} \<and> used s' = used s \<union> unat ` set ps
    \<and> limit s \<le> limit s' \<and> limit s' \<le> limit s + n \<and> (0 < n \<longrightarrow> used s' \<subseteq> {..<limit s'})"
proof (induction n arbitrary: s ps)
  case 0
  then show ?case by simp
next
  case (Suc n)
  obtain p s1 where g: "get s 1 = (p, s1)" by force
  obtain qs where c: "collect_pages get n s1 = (qs, s')" "ps = p # qs"
    using Suc.prems(3) g by (auto split: prod.splits)
  have f: "good s1" "unat p \<notin> used s" "used s1 = insert (unat p) (used s)" "limit s \<le> limit s1" "limit s1 \<le> limit s + 1" "used s1 \<subseteq> {..<limit s1}"
    using fresh_run [OF Suc.prems(1) _ _ g] Suc.prems(2) by (auto simp: run_pages_def)
  have ih: "good s'" "length qs = n" "distinct qs" "unat ` set qs \<inter> used s1 = {}" "used s' = used s1 \<union> unat ` set qs" "limit s1 \<le> limit s'"
    "limit s' \<le> limit s1 + n" "0 < n \<longrightarrow> used s' \<subseteq> {..<limit s'}"
    using Suc.IH [OF f(1) _ c(1)] f(5) Suc.prems(2) by auto
  have "p \<notin> set qs" using ih(4) f(3) by auto
  moreover have "used s' \<subseteq> {..<limit s'}" using ih f(6) by (cases n) auto
  ultimately show ?case using ih f c(2) by auto
qed

end

lemma alloc_end:
  assumes acc: "account live0 a" and n: "0 < unat n" and e: "unat (pa_end a) + unat n < 2 ^ 64" and t: "alloc a n = (p, a')"
  shows "unat (pa_end a) \<le> unat (pa_end a')" "unat (pa_end a') \<le> unat (pa_end a) + unat n"
proof -
  obtain b where b: "alloc_page a n = (p, b)" "pa_end a' = pa_end b" using t by (auto simp: alloc_def split: prod.splits)
  from alloc_page_taken [OF acc n e b(1)] have k: "unat (pa_end a) \<le> unat (pa_end b)" "{unat (pa_end a) ..< unat (pa_end b)} \<subseteq> run_pages p n"
    by (auto simp: taken_def)
  have "card {unat (pa_end a) ..< unat (pa_end b)} \<le> card (run_pages p n)" using k(2) by (intro card_mono) (simp_all add: run_pages_def)
  then show "unat (pa_end a) \<le> unat (pa_end a')" "unat (pa_end a') \<le> unat (pa_end a) + unat n" using k(1) b(2) by (simp_all add: run_pages_def)
qed

interpretation al: page_source alloc "account live0" "\<lambda>a. live_pages live0 a \<union> live0" "\<lambda>a. unat (pa_end a)" for live0
proof unfold_locales
  fix a n p a'
  assume h: "account live0 a" "0 < unat n" "unat (pa_end a) + unat n < 2 ^ 64" "alloc a n = (p, a')"
  note k = alloc_account [OF h] and e = alloc_end [OF h]
  have "live_pages live0 a' \<union> live0 \<subseteq> {..<unat (pa_end a')}"
    using account_disjoint(13) [OF k(1)] by (auto simp: live_pages_def)
  then show "account live0 a' \<and> run_pages p n \<inter> (live_pages live0 a \<union> live0) = {}
      \<and> live_pages live0 a' \<union> live0 = live_pages live0 a \<union> live0 \<union> run_pages p n
      \<and> unat (pa_end a) \<le> unat (pa_end a') \<and> unat (pa_end a') \<le> unat (pa_end a) + unat n \<and> live_pages live0 a' \<union> live0 \<subseteq> {..<unat (pa_end a')}"
    using k e by blast
qed

section \<open>Allocating and writing\<close>

text \<open>The pages in use: those of the last committed generation and those handed out since.\<close>

definition in_use :: "nat set \<Rightarrow> PageAllocator \<Rightarrow> nat set" where
  "in_use live0 a = live_pages live0 a \<union> live0"

text \<open>The state of a writer: the allocator accounts for its pages, and every placement made so far is stored on pages in
  use.\<close>

definition placed :: "nat set \<Rightarrow> PageAllocator \<Rightarrow> bytes \<Rightarrow> placement \<Rightarrow> key \<times> bytes \<Rightarrow> bool" where
  "placed live0 a f pl w \<longleftrightarrow> fst pl = fst w \<and> (\<exists>P. P \<subseteq> in_use live0 a \<and> stored f P (snd pl) (snd w))"

definition advances :: "nat set \<Rightarrow> nat \<Rightarrow> PageAllocator \<times> bytes \<Rightarrow> PageAllocator \<times> bytes \<Rightarrow> bool" where
  "advances live0 n st st' \<longleftrightarrow> (case (st, st') of ((a, f), (a', f')) \<Rightarrow>
     account live0 a' \<and> in_use live0 a \<subseteq> in_use live0 a' \<and> keeps (in_use live0 a) f f' \<and> unat (pa_end a') \<le> unat (pa_end a) + n)"

lemma advances_refl: "account live0 a \<Longrightarrow> advances live0 n (a, f) (a, f)"
  by (simp add: advances_def)

lemma advances_trans: "advances live0 m (a, f) (a', f') \<Longrightarrow> advances live0 n (a', f') (a'', f'') \<Longrightarrow> k = m + n \<Longrightarrow> advances live0 k (a, f) (a'', f'')"
  unfolding advances_def by (auto intro: keeps_trans)

lemma placed_advances: "placed live0 a f pl w \<Longrightarrow> advances live0 n (a, f) (a', f') \<Longrightarrow> placed live0 a' f' pl w"
  unfolding placed_def advances_def by (auto intro: stored_keeps)

lemma placed_append:
  assumes "list_all2 (placed live0 a f) pls ws" "advances live0 n (a, f) (a', f')" "list_all2 (placed live0 a' f') pls' ws'"
  shows "list_all2 (placed live0 a' f') (pls @ pls') (ws @ ws')"
  by (rule list_all2_appendI [OF list_all2_mono [OF assms(1) placed_advances [OF _ assms(2)]] assms(3)])

lemma advances_mono: "advances live0 m st st' \<Longrightarrow> m \<le> n \<Longrightarrow> advances live0 n st st'"
  by (auto simp: advances_def)

lemma advancesD: "advances live0 n (a, f) (a', f') \<Longrightarrow> account live0 a' \<and> unat (pa_end a') \<le> unat (pa_end a) + n"
  by (simp add: advances_def)

lemma alloc_write:
  assumes acc: "account live0 a" and n: "0 < unat n" and lim: "unat (pa_end a) + unat n \<le> PAGE_LIMIT"
    and al: "alloc a n = (p, a')" and buf: "length buf = unat n * 4096"
  obtains f' where "write_page f p buf = Inr f'" "unat p + unat n \<le> PAGE_LIMIT"
    "\<And>i. i < unat n \<Longrightarrow> has_page f' (unat p + i) \<and> page_at f' (unat p + i) = subslice buf (i * 4096) (i * 4096 + 4096)"
    "advances live0 (unat n) (a, f) (a', f')" "{unat p ..< unat p + unat n} \<subseteq> in_use live0 a'"
proof -
  have "unat (pa_end a) + unat n < 2 ^ 64" using lim by (simp add: PAGE_LIMIT_def)
  note k = al.fresh_run [OF acc n this al, folded in_use_def]
  have r: "run_pages p n = {unat p ..< unat p + unat n}" by (simp add: run_pages_def)
  have "unat p + unat n - 1 \<in> in_use live0 a'" using k n by (auto simp: r)
  then have e: "unat p + unat n \<le> unat (pa_end a')" using k n by fastforce
  then have l: "unat p + unat n \<le> PAGE_LIMIT" using k lim by linarith
  obtain f' where w: "write_page f p buf = Inr f'" "keeps (- {unat p ..< unat p + unat n}) f f'"
    "\<And>i. i < unat n \<Longrightarrow> has_page f' (unat p + i) \<and> page_at f' (unat p + i) = subslice buf (i * 4096) (i * 4096 + 4096)"
    using write_page_ok [OF l buf, of f] by metis
  have "keeps (in_use live0 a) f f'" using w(2) by (rule keeps_mono) (use k in \<open>auto simp: r\<close>)
  then show ?thesis using that [OF w(1) l w(3)] k by (auto simp: advances_def r)
qed

section \<open>The packing writer\<close>

text \<open>The records waiting in a slab, with the slots they were given.\<close>

definition slab_pending :: "SlabBuilder \<Rightarrow> u32 list \<Rightarrow> bool" where
  "slab_pending slab slots \<longleftrightarrow> slab_wf slab \<and> slots = map word_of_nat [0..<length (slab_blobs slab)]"

lemma slab_pending_new: "slab_pending slab_new []"
  by (simp add: slab_pending_def slab_wf_new) (simp add: slab_new_def)

lemma slab_pending_length: "slab_pending slab slots \<Longrightarrow> length (slab_blobs slab) = length slots"
  by (simp add: slab_pending_def)

lemma slab_pending_push:
  assumes "slab_pending slab slots" "slab_try_push slab blob = Some (slot, slab')"
  shows "slab_pending slab' (slots @ [slot])" "slab_blobs slab' = slab_blobs slab @ [blob]"
proof -
  note p = slab_wf_push [OF _ assms(2)]
  have "slot = word_of_nat (length (slab_blobs slab))" using p assms(1) by (metis slab_pending_def word_of_nat_eq_iff of_nat_unat)
  then show "slab_pending slab' (slots @ [slot])" "slab_blobs slab' = slab_blobs slab @ [blob]"
    using p assms(1) by (auto simp: slab_pending_def)
qed

lemma fresh_slab_takes: "\<not> is_large (word_of_nat (length blob)) \<Longrightarrow> length blob < 2 ^ 64 \<Longrightarrow> \<exists>slot slab'. slab_try_push slab_new blob = Some (slot, slab')"
  by (auto simp: is_large_def SLAB_THRESHOLD_def slab_try_push_def slab_new_def page_sizes not_less word_le_nat_alt unat_of_nat Let_def)

text \<open>Writing out a slab stores every record that waits in it.\<close>

lemma slab_flush:
  assumes acc: "account live0 a" and lim: "unat (pa_end a) + 1 \<le> PAGE_LIMIT" and sl: "slab_pending slab slots" and al: "alloc a 1 = (page, a')"
  obtains f' where "write_page f page (slab_finish slab) = Inr f'" "advances live0 1 (a, f) (a', f')"
    "\<And>i k. i < length slots \<Longrightarrow> placed live0 a' f' (k, loc_from_global page (slots ! i)) (k, slab_blobs slab ! i)"
proof -
  have wf: "slab_wf slab" and slots: "slots = map word_of_nat [0..<length (slab_blobs slab)]" using sl by (simp_all add: slab_pending_def)
  note fin = slab_finish_page [OF wf]
  obtain f' where w: "write_page f page (slab_finish slab) = Inr f'" "unat page + 1 \<le> PAGE_LIMIT"
    "has_page f' (unat page) \<and> page_at f' (unat page) = slab_finish slab" "advances live0 1 (a, f) (a', f')" "{unat page} \<subseteq> in_use live0 a'"
    using alloc_write [OF acc _ _ al, of "slab_finish slab" f] lim fin(1) by (auto simp: subslice_def)
  have "placed live0 a' f' (k, loc_from_global page (slots ! i)) (k, slab_blobs slab ! i)" if "i < length slots" for i k
    using stored_slab [OF wf, of i page f'] w(2,3,5) that by (auto simp: placed_def slots)
  then show ?thesis using that w by blast
qed

lemma flush_slab_ok:
  assumes acc: "account live0 a" and lim: "unat (pa_end a) + 1 \<le> PAGE_LIMIT" and sl: "slab_pending slab (map snd pending)"
  shows "\<exists>pls f' a'. flush_slab f a slab pending placements = Inr (placements @ pls, f', a') \<and> advances live0 1 (a, f) (a', f')
    \<and> list_all2 (placed live0 a' f') pls (zip (map fst pending) (slab_blobs slab))"
proof -
  obtain page a' where al: "alloc a 1 = (page, a')" by force
  obtain f' where w: "write_page f page (slab_finish slab) = Inr f'" "advances live0 1 (a, f) (a', f')"
    "\<And>i k. i < length (map snd pending) \<Longrightarrow> placed live0 a' f' (k, loc_from_global page (map snd pending ! i)) (k, slab_blobs slab ! i)"
    using slab_flush [OF acc lim sl al] by metis
  have l: "length (slab_blobs slab) = length pending" using slab_pending_length [OF sl] by simp
  have "list_all2 (placed live0 a' f') (map (\<lambda>(digest, slot). (digest, loc_from_global page slot)) pending) (zip (map fst pending) (slab_blobs slab))"
    using w(3) l by (simp add: list_all2_conv_all_nth case_prod_beta)
  then show ?thesis using al w(1,2) by (auto simp: flush_slab_def)
qed

text \<open>The pages a list of records may take, one record to a page at worst.\<close>

definition page_budget :: "(key \<times> bytes) list \<Rightarrow> nat" where
  "page_budget recs = (\<Sum>w \<leftarrow> recs. large_span (snd w))"

lemma budget_length: "large_span blob \<le> PAGE_LIMIT \<Longrightarrow> length blob + 4109 < 2 ^ 64"
proof -
  assume "large_span blob \<le> PAGE_LIMIT"
  then have "large_span blob * 4096 \<le> 2 ^ 51 * 4096" by (simp add: PAGE_LIMIT_def)
  moreover have "length blob + 13 \<le> large_span blob * 4096" using ceil_div_covers(1) [of 4096 "length blob + 13"] by (simp add: large_span_def)
  ultimately show ?thesis by simp
qed

lemma large_write:
  assumes acc: "account live0 a" and lim: "unat (pa_end a) + large_span blob \<le> PAGE_LIMIT"
    and al: "alloc a (large_pages (word_of_nat (length blob))) = (page, a')"
  obtains f' where "write_page f page (encode_large blob) = Inr f'" "advances live0 (large_span blob) (a, f) (a', f')"
    "placed live0 a' f' (k, loc_from_global page 0) (k, blob)"
proof -
  have len: "length blob + 4109 < 2 ^ 64" using lim by (intro budget_length) simp
  note sp = large_span_pages [OF len]
  obtain f' where w: "write_page f page (encode_large blob) = Inr f'" "unat page + large_span blob \<le> PAGE_LIMIT"
    "\<And>i. i < large_span blob \<Longrightarrow> has_page f' (unat page + i) \<and> page_at f' (unat page + i) = subslice (encode_large blob) (i * 4096) (i * 4096 + 4096)"
    "advances live0 (large_span blob) (a, f) (a', f')" "{unat page ..< unat page + large_span blob} \<subseteq> in_use live0 a'"
    using alloc_write [OF acc _ _ al, of "encode_large blob" f] lim sp by metis
  have "placed live0 a' f' (k, loc_from_global page 0) (k, blob)"
    using stored_large [OF len w(2,3)] w(5) by (auto simp: placed_def)
  then show ?thesis using that w by blast
qed

text \<open>What the loop of the writer has placed, and what waits in its slab, is what it was given.\<close>

lemma write_blob_loop_ok:
  assumes "account live0 a" "unat (pa_end a) + page_budget recs + 1 \<le> PAGE_LIMIT" "slab_pending slab (map snd pending)"
    "list_all2 (placed live0 a f) placements ws"
  shows "\<exists>pls f' a' ws'. write_blob_loop recs slab pending placements f a = Inr (pls, f', a')
    \<and> advances live0 (page_budget recs + 1) (a, f) (a', f') \<and> list_all2 (placed live0 a' f') pls ws'
    \<and> mset ws' = mset ws + mset (zip (map fst pending) (slab_blobs slab)) + mset recs"
  using assms
proof (induction recs arbitrary: slab pending placements f a ws)
  case Nil
  show ?case
  proof (cases "slab_is_empty slab")
    case True
    then show ?thesis using Nil.prems by (auto simp: slab_is_empty_def page_budget_def intro: advances_refl)
  next
    case False
    obtain pls f' a' where w: "flush_slab f a slab pending placements = Inr (placements @ pls, f', a')" "advances live0 1 (a, f) (a', f')"
      "list_all2 (placed live0 a' f') pls (zip (map fst pending) (slab_blobs slab))"
      using flush_slab_ok [OF Nil.prems(1) _ Nil.prems(3), of f placements] Nil.prems(2) by (auto simp: page_budget_def)
    show ?thesis
      by (rule exI [of _ "placements @ pls"], rule exI [of _ f'], rule exI [of _ a'], rule exI [of _ "ws @ zip (map fst pending) (slab_blobs slab)"])
        (use w False placed_append [OF Nil.prems(4) w(2,3)] in \<open>simp add: page_budget_def\<close>)
  qed
next
  case (Cons w recs)
  obtain k blob where w: "w = (k, blob)" by force
  have b: "page_budget (w # recs) = large_span blob + page_budget recs" by (simp add: w page_budget_def)
  have pos: "0 < large_span blob" by (simp add: large_span_def div_greater_zero_iff)
  have lim: "unat (pa_end a) + large_span blob \<le> PAGE_LIMIT" "unat (pa_end a) + 1 \<le> PAGE_LIMIT" using Cons.prems(2) b by simp_all
  show ?case
  proof (cases "is_large (word_of_nat (length blob))")
    case True
    obtain page a1 where al: "alloc a (large_pages (word_of_nat (length blob))) = (page, a1)" by force
    obtain f1 where f1: "write_page f page (encode_large blob) = Inr f1" "advances live0 (large_span blob) (a, f) (a1, f1)"
      "placed live0 a1 f1 (k, loc_from_global page 0) (k, blob)"
      by (rule large_write [OF Cons.prems(1) lim(1) al, of f k])
    note adv = advancesD [OF f1(2)]
    have "list_all2 (placed live0 a1 f1) (placements @ [(k, loc_from_global page 0)]) (ws @ [w])"
      using placed_append [OF Cons.prems(4) f1(2), of "[(k, loc_from_global page 0)]" "[w]"] f1(3) w by simp
    from Cons.IH [OF _ _ Cons.prems(3) this] adv Cons.prems(2) b obtain pls f' a' ws' where
      r: "write_blob_loop recs slab pending (placements @ [(k, loc_from_global page 0)]) f1 a1 = Inr (pls, f', a')"
      "advances live0 (page_budget recs + 1) (a1, f1) (a', f')" "list_all2 (placed live0 a' f') pls ws'"
      "mset ws' = mset (ws @ [w]) + mset (zip (map fst pending) (slab_blobs slab)) + mset recs"
      by auto
    have "write_blob_loop (w # recs) slab pending placements f a = Inr (pls, f', a')" using True al f1(1) r(1) by (simp add: w)
    moreover have "advances live0 (page_budget (w # recs) + 1) (a, f) (a', f')" using f1(2) r(2) by (rule advances_trans) (simp add: b)
    moreover have "mset ws' = mset ws + mset (zip (map fst pending) (slab_blobs slab)) + mset (w # recs)" using r(4) by simp
    ultimately show ?thesis using r(3) by blast
  next
    case small: False
    show ?thesis
    proof (cases "slab_try_push slab blob")
      case (Some r)
      obtain slot slab' where r: "r = (slot, slab')" by force
      note p = slab_pending_push [OF Cons.prems(3) Some [unfolded r]]
      have l: "length (slab_blobs slab) = length pending" using slab_pending_length [OF Cons.prems(3)] by simp
      from Cons.IH [OF Cons.prems(1) _ _ Cons.prems(4), of slab' "pending @ [(k, slot)]"] p(1) Cons.prems(2) b obtain pls f' a' ws' where
        r': "write_blob_loop recs slab' (pending @ [(k, slot)]) placements f a = Inr (pls, f', a')"
        "advances live0 (page_budget recs + 1) (a, f) (a', f')" "list_all2 (placed live0 a' f') pls ws'"
        "mset ws' = mset ws + mset (zip (map fst (pending @ [(k, slot)])) (slab_blobs slab')) + mset recs"
        by auto
      have "write_blob_loop (w # recs) slab pending placements f a = Inr (pls, f', a')" using small Some r r'(1) by (simp add: w)
      moreover have "advances live0 (page_budget (w # recs) + 1) (a, f) (a', f')" using r'(2) by (rule advances_mono) (simp add: b)
      moreover have "mset ws' = mset ws + mset (zip (map fst pending) (slab_blobs slab)) + mset (w # recs)" using r'(4) l p(2) by (simp add: w)
      ultimately show ?thesis using r'(3) by blast
    next
      case None
      obtain pls1 f1 a1 where f1: "flush_slab f a slab pending placements = Inr (placements @ pls1, f1, a1)" "advances live0 1 (a, f) (a1, f1)"
        "list_all2 (placed live0 a1 f1) pls1 (zip (map fst pending) (slab_blobs slab))"
        using flush_slab_ok [OF Cons.prems(1) lim(2) Cons.prems(3), of f placements] by blast
      note adv = advancesD [OF f1(2)] and pl = placed_append [OF Cons.prems(4) f1(2,3)]
      have "length blob + 4109 < 2 ^ 64" using lim by (intro budget_length) simp
      then obtain slot slab' where sl: "slab_try_push slab_new blob = Some (slot, slab')" using fresh_slab_takes [OF small] by auto
      note p = slab_pending_push [OF slab_pending_new sl]
      from Cons.IH [OF _ _ _ pl, of slab' "[(k, slot)]"] p(1) adv Cons.prems(2) b pos obtain pls f' a' ws' where
        r': "write_blob_loop recs slab' [(k, slot)] (placements @ pls1) f1 a1 = Inr (pls, f', a')"
        "advances live0 (page_budget recs + 1) (a1, f1) (a', f')" "list_all2 (placed live0 a' f') pls ws'"
        "mset ws' = mset (ws @ zip (map fst pending) (slab_blobs slab)) + mset (zip [k] (slab_blobs slab')) + mset recs"
        by auto
      have "write_blob_loop (w # recs) slab pending placements f a = Inr (pls, f', a')" using small None f1(1) sl r'(1) by (simp add: w)
      moreover have "advances live0 (page_budget (w # recs) + 1) (a, f) (a', f')"
        by (rule advances_mono [OF advances_trans [OF f1(2) r'(2) refl]]) (use b pos in simp)
      moreover have "mset ws' = mset ws + mset (zip (map fst pending) (slab_blobs slab)) + mset (w # recs)"
        using r'(4) p(2) by (simp add: w slab_new_def)
      ultimately show ?thesis using r'(3) by blast
    qed
  qed
qed

section \<open>The writer of prepared records\<close>

definition chain_budget :: "(key \<times> bytes) list \<Rightarrow> nat" where
  "chain_budget recs = (\<Sum>w \<leftarrow> recs. chain_pages (snd w))"

lemma chain_pages_covers: "0 < chain_pages blob" "length blob \<le> chain_pages blob * 4071"
proof -
  show "0 < chain_pages blob" by (simp add: chain_pages_def capacity div_greater_zero_iff)
  have "max (length blob) 1 \<le> chain_pages blob * 4071" using ceil_div_covers(1) [of 4071 "max (length blob) 1"] by (simp add: chain_pages_def capacity)
  then show "length blob \<le> chain_pages blob * 4071" by simp
qed

lemma chain_length: "chain_pages blob \<le> PAGE_LIMIT \<Longrightarrow> length blob < 2 ^ 64"
  using chain_pages_covers(2) [of blob] by (simp add: PAGE_LIMIT_def)

lemma dedicated_write:
  assumes acc: "account live0 a" and lim: "unat (pa_end a) + chain_pages blob \<le> PAGE_LIMIT"
  obtains loc f' a' where "write_dedicated_blob f a k blob = Inr ((k, loc), f', a')" "advances live0 (chain_pages blob) (a, f) (a', f')"
    "placed live0 a' f' (k, loc) (k, blob)"
proof -
  obtain ps a' where c: "collect_pages alloc (chain_pages blob) a = (ps, a')" by force
  have "unat (pa_end a) + chain_pages blob < 2 ^ 64" using lim by (simp add: PAGE_LIMIT_def)
  note k = al.collect_fresh [OF acc this c, folded in_use_def]
  have len: "length blob < 2 ^ 64" using lim by (intro chain_length) simp
  obtain p qs where ps: "ps = p # qs" using k chain_pages_covers(1) [of blob] by (cases ps) auto
  have pl: "unat q < PAGE_LIMIT" if "q \<in> set ps" for q
  proof -
    have "unat q < unat (pa_end a')" using k chain_pages_covers(1) [of blob] that by auto
    then show ?thesis using k lim by linarith
  qed
  obtain f' where w: "write_chain blob 0 ps f = Inr f'" "chain_held f' blob 0 ps" "keeps (- unat ` set ps) f f'"
    using write_chain_ok [of ps blob 0 f] k pl by blast
  have "keeps (in_use live0 a) f f'" using w(3) by (rule keeps_mono) (use k in auto)
  then have adv: "advances live0 (chain_pages blob) (a, f) (a', f')" using k by (auto simp: advances_def)
  have "stored f' (unat ` set ps) (loc_from_global p 0) blob"
    unfolding ps by (rule stored_chain) (use w(2) k pl len chain_pages_covers(2) [of blob] ps in auto)
  then have "placed live0 a' f' (k, loc_from_global p 0) (k, blob)" using k by (auto simp: placed_def)
  moreover have "write_dedicated_blob f a k blob = Inr ((k, loc_from_global p 0), f', a')" using c w(1) by (simp add: write_dedicated_blob_def ps)
  ultimately show ?thesis using that adv by blast
qed

text \<open>Placements are filled in by index; the records still in the slab have no placement yet.\<close>

definition filled :: "nat set \<Rightarrow> PageAllocator \<Rightarrow> bytes \<Rightarrow> (key \<times> bytes) list \<Rightarrow> nat set \<Rightarrow> placement option list \<Rightarrow> bool" where
  "filled live0 a f recs J pls \<longleftrightarrow> length pls = length recs \<and> (\<forall>j \<in> J. \<exists>pl. pls ! j = Some pl \<and> placed live0 a f pl (recs ! j))"

definition waiting :: "(key \<times> bytes) list \<Rightarrow> SlabBuilder \<Rightarrow> (nat \<times> key \<times> u32) list \<Rightarrow> nat \<Rightarrow> bool" where
  "waiting recs slab pending n \<longleftrightarrow> slab_pending slab (map (snd \<circ> snd) pending) \<and> distinct (map fst pending)
     \<and> (\<forall>i < length pending. fst (pending ! i) < n \<and> recs ! fst (pending ! i) = (fst (snd (pending ! i)), slab_blobs slab ! i))"

lemma filled_advances: "filled live0 a f recs J pls \<Longrightarrow> advances live0 n (a, f) (a', f') \<Longrightarrow> filled live0 a' f' recs J pls"
  unfolding filled_def by (meson placed_advances)

lemma filled_mono: "filled live0 a f recs J pls \<Longrightarrow> J' \<subseteq> J \<Longrightarrow> filled live0 a f recs J' pls"
  by (auto simp: filled_def)

lemma filled_update:
  assumes "filled live0 a f recs J pls" "j < length recs" "placed live0 a f pl (recs ! j)"
  shows "filled live0 a f recs (insert j J) (pls[j := Some pl])"
  using assms by (cases pl) (auto simp: filled_def nth_list_update)

lemma filled_fold:
  assumes "filled live0 a f recs J pls" "\<And>i d s. (i, d, s) \<in> set xs \<Longrightarrow> i < length recs \<and> placed live0 a f (g d s) (recs ! i)"
  shows "filled live0 a f recs (J \<union> fst ` set xs) (fold (\<lambda>(i, d, s) pls. pls[i := Some (g d s)]) xs pls)"
  using assms
proof (induction xs arbitrary: J pls)
  case (Cons x xs)
  obtain i d s where x: "x = (i, d, s)" by (cases x) auto
  have "filled live0 a f recs (insert i J) (pls[i := Some (g d s)])" using filled_update [OF Cons.prems(1)] Cons.prems(2) [of i d s] x by simp
  from Cons.IH [OF this] Cons.prems(2) show ?case by (auto simp: x)
qed simp

lemma flush_prepared_ok:
  assumes acc: "account live0 a" and lim: "unat (pa_end a) + 1 \<le> PAGE_LIMIT" and wt: "waiting recs slab pending n" and n: "n \<le> length recs"
    and fl: "filled live0 a f recs ({..<n} - fst ` set pending) placements"
  shows "\<exists>pls f' a'. flush_prepared_slab f a slab pending placements = Inr (pls, f', a') \<and> advances live0 1 (a, f) (a', f')
    \<and> filled live0 a' f' recs {..<n} pls"
proof -
  obtain page a' where al: "alloc a 1 = (page, a')" by force
  have sl: "slab_pending slab (map (snd \<circ> snd) pending)" using wt by (simp add: waiting_def)
  obtain f' where w: "write_page f page (slab_finish slab) = Inr f'" "advances live0 1 (a, f) (a', f')"
    "\<And>i k. i < length pending \<Longrightarrow> placed live0 a' f' (k, loc_from_global page (map (snd \<circ> snd) pending ! i)) (k, slab_blobs slab ! i)"
    using slab_flush [OF acc lim sl al] by (metis length_map)
  let ?pls = "fold (\<lambda>(index, digest, slot) pls. pls[index := Some (digest, loc_from_global page slot)]) pending placements"
  have "filled live0 a' f' recs (({..<n} - fst ` set pending) \<union> fst ` set pending) ?pls"
  proof (rule filled_fold [where g = "\<lambda>d s. (d, loc_from_global page s)"])
    show "filled live0 a' f' recs ({..<n} - fst ` set pending) placements" by (rule filled_advances [OF fl w(2)])
    fix j d s assume "(j, d, s) \<in> set pending"
    then obtain i where i: "i < length pending" "pending ! i = (j, d, s)" by (auto simp: in_set_conv_nth)
    then show "j < length recs \<and> placed live0 a' f' (d, loc_from_global page s) (recs ! j)"
      using wt n w(3) [OF i(1), of d] by (force simp: waiting_def)
  qed
  moreover have "fst ` set pending \<subseteq> {..<n}" using wt by (clarsimp simp: waiting_def in_set_conv_nth) (metis fst_conv)
  ultimately have "filled live0 a' f' recs {..<n} ?pls" by (simp add: Un_absorb2)
  then show ?thesis using al w(1,2) by (auto simp: flush_prepared_slab_def)
qed

lemma waiting_new: "waiting recs slab_new [] n"
  using slab_pending_new by (simp add: waiting_def)

lemma waiting_mono: "waiting recs slab pending m \<Longrightarrow> m \<le> n \<Longrightarrow> waiting recs slab pending n"
  unfolding waiting_def by (meson order_less_le_trans)

lemma waiting_push:
  assumes wt: "waiting recs slab pending n" and push: "slab_try_push slab blob = Some (slot, slab')" and r: "recs ! n = (d, blob)"
  shows "waiting recs slab' (pending @ [(n, d, slot)]) (n + 1)"
proof -
  have sl: "slab_pending slab (map (snd \<circ> snd) pending)" using wt by (simp add: waiting_def)
  have l: "length (slab_blobs slab) = length pending" using slab_pending_length [OF sl] by simp
  have "n \<notin> fst ` set pending" using wt by (clarsimp simp: waiting_def in_set_conv_nth) (metis fst_conv less_irrefl_nat)
  then show ?thesis using wt slab_pending_push [OF sl push] l r by (auto simp: waiting_def nth_append less_Suc_eq)
qed

lemma drop_Cons_nth: "drop n xs = x # ys \<Longrightarrow> n < length xs \<and> xs ! n = x \<and> drop (Suc n) xs = ys"
  by (metis Cons_nth_drop_Suc drop_eq_Nil leI list.distinct(1) list.inject)

lemma write_prepared_loop_ok:
  assumes "account live0 a" "unat (pa_end a) + chain_budget rest + 1 \<le> PAGE_LIMIT" "waiting recs slab pending n"
    "filled live0 a f recs ({..<n} - fst ` set pending) placements" "drop n recs = rest" "n \<le> length recs"
  shows "\<exists>pls f' a'. write_prepared_loop rest n slab pending placements f a = Inr (pls, f', a')
    \<and> advances live0 (chain_budget rest + 1) (a, f) (a', f') \<and> filled live0 a' f' recs {..<length recs} pls"
  using assms
proof (induction rest arbitrary: n slab pending placements f a)
  case Nil
  then have n: "n = length recs" by simp
  show ?case
  proof (cases "slab_is_empty slab")
    case True
    then have "pending = []" using Nil.prems(3) slab_pending_length [of slab "map (snd \<circ> snd) pending"] by (simp add: waiting_def slab_is_empty_def)
    then show ?thesis using Nil.prems n True by (auto intro: advances_refl)
  next
    case False
    then show ?thesis using flush_prepared_ok [OF Nil.prems(1) _ Nil.prems(3) _ Nil.prems(4)] Nil.prems(2) n by (auto simp: chain_budget_def)
  qed
next
  case (Cons w rest)
  obtain d blob where w: "w = (d, blob)" by force
  have b: "chain_budget (w # rest) = chain_pages blob + chain_budget rest" by (simp add: w chain_budget_def)
  have pos: "0 < chain_pages blob" by (rule chain_pages_covers(1))
  have lim: "unat (pa_end a) + chain_pages blob \<le> PAGE_LIMIT" "unat (pa_end a) + 1 \<le> PAGE_LIMIT" using Cons.prems(2) b by simp_all
  have n: "n < length recs" "recs ! n = (d, blob)" "drop (n + 1) recs = rest" "n + 1 \<le> length recs"
    using drop_Cons_nth [OF Cons.prems(5)] w by simp_all
  show ?case
  proof (cases "is_large (word_of_nat (length blob))")
    case True
    obtain loc f1 a1 where f1: "write_dedicated_blob f a d blob = Inr ((d, loc), f1, a1)" "advances live0 (chain_pages blob) (a, f) (a1, f1)"
      "placed live0 a1 f1 (d, loc) (d, blob)"
      by (rule dedicated_write [OF Cons.prems(1) lim(1), of f d])
    note adv = advancesD [OF f1(2)]
    have "filled live0 a1 f1 recs (insert n ({..<n} - fst ` set pending)) (placements[n := Some (d, loc)])"
      using filled_update [OF filled_advances [OF Cons.prems(4) f1(2)] n(1)] f1(3) n(2) by simp
    then have "filled live0 a1 f1 recs ({..<n + 1} - fst ` set pending) (placements[n := Some (d, loc)])"
      by (rule filled_mono) auto
    from Cons.IH [OF _ _ waiting_mono [OF Cons.prems(3)] this n(3,4)] adv Cons.prems(2) b obtain pls f' a' where
      r: "write_prepared_loop rest (n + 1) slab pending (placements[n := Some (d, loc)]) f1 a1 = Inr (pls, f', a')"
      "advances live0 (chain_budget rest + 1) (a1, f1) (a', f')" "filled live0 a' f' recs {..<length recs} pls"
      by auto
    have "advances live0 (chain_budget (w # rest) + 1) (a, f) (a', f')" using f1(2) r(2) by (rule advances_trans) (simp add: b)
    then show ?thesis using True f1(1) r by (simp add: w)
  next
    case small: False
    show ?thesis
    proof (cases "slab_try_push slab blob")
      case (Some r)
      obtain slot slab' where r: "r = (slot, slab')" by force
      note wt = waiting_push [OF Cons.prems(3) Some [unfolded r] n(2)]
      have "filled live0 a f recs ({..<n + 1} - fst ` set (pending @ [(n, d, slot)])) placements"
        by (rule filled_mono [OF Cons.prems(4)]) auto
      from Cons.IH [OF Cons.prems(1) _ wt this n(3,4)] Cons.prems(2) b obtain pls f' a' where
        r': "write_prepared_loop rest (n + 1) slab' (pending @ [(n, d, slot)]) placements f a = Inr (pls, f', a')"
        "advances live0 (chain_budget rest + 1) (a, f) (a', f')" "filled live0 a' f' recs {..<length recs} pls"
        by auto
      have "advances live0 (chain_budget (w # rest) + 1) (a, f) (a', f')" using r'(2) by (rule advances_mono) (simp add: b)
      then show ?thesis using small Some r r' by (simp add: w)
    next
      case None
      obtain pls1 f1 a1 where f1: "flush_prepared_slab f a slab pending placements = Inr (pls1, f1, a1)" "advances live0 1 (a, f) (a1, f1)"
        "filled live0 a1 f1 recs {..<n} pls1"
        using flush_prepared_ok [OF Cons.prems(1) lim(2) Cons.prems(3,6,4)] by blast
      note adv = advancesD [OF f1(2)]
      have "length blob < 2 ^ 64" using lim by (intro chain_length) simp
      then obtain slot slab' where sl: "slab_try_push slab_new blob = Some (slot, slab')" using fresh_slab_takes [OF small] by auto
      note wt = waiting_push [OF waiting_new sl n(2)]
      have "filled live0 a1 f1 recs ({..<n + 1} - fst ` set ([] @ [(n, d, slot)])) pls1" by (rule filled_mono [OF f1(3)]) auto
      from Cons.IH [OF _ _ wt this n(3,4)] adv Cons.prems(2) b pos obtain pls f' a' where
        r': "write_prepared_loop rest (n + 1) slab' [(n, d, slot)] pls1 f1 a1 = Inr (pls, f', a')"
        "advances live0 (chain_budget rest + 1) (a1, f1) (a', f')" "filled live0 a' f' recs {..<length recs} pls"
        by auto
      have "advances live0 (chain_budget (w # rest) + 1) (a, f) (a', f')"
        by (rule advances_mono [OF advances_trans [OF f1(2) r'(2) refl]]) (use b pos in simp)
      then show ?thesis using small None f1(1) sl r' by (simp add: w)
    qed
  qed
qed

section \<open>The properties of the writers\<close>

lemma placed_read:
  assumes "placed live0 a f pl w" "account live0 a"
  shows "(fst pl, read_blob_from_loc f (snd pl) (pa_end a)) = (fst w, Inr (snd w))"
proof -
  have "in_use live0 a \<subseteq> {..<unat (pa_end a)}" using account_disjoint(13) [OF assms(2)] by (auto simp: in_use_def live_pages_def)
  with assms(1) show ?thesis by (auto simp: placed_def intro: stored_read)
qed

lemma placed_reads:
  "list_all2 (placed live0 a f) pls ws \<Longrightarrow> account live0 a \<Longrightarrow>
    map (\<lambda>(k, loc). (k, read_blob_from_loc f loc (pa_end a))) pls = map (\<lambda>(k, blob). (k, Inr blob)) ws"
  by (induction rule: list_all2_induct) (use placed_read in \<open>fastforce+\<close>)

lemma committed_kept:
  assumes "advances live0 n (a, f) (a', f')" "q \<in> live0" "has_page f q"
  shows "has_page f' q \<and> page_at f' q = page_at f q"
  using assms by (auto simp: advances_def in_use_def keeps_def)

text \<open>C14: Records packed onto pages are read back. On any allocator that has been through any sequence of its operations,
  and for records that fit below the page limit, write_blob_pages returns; reading every locator it hands out, with the
  page count the allocator then has, gives back the records it was handed, each under its key and none lost or
  duplicated; and every page of the committed generation still has its content.\<close>

theorem write_blob_pages_reads_back:
  assumes "allocator_run live0 a" and "unat (pa_end a) + page_budget recs + 1 \<le> PAGE_LIMIT"
  shows "\<exists>pls f' a'. write_blob_pages f a recs = Inr (pls, f', a')
    \<and> mset (map (\<lambda>(k, loc). (k, read_blob_from_loc f' loc (pa_end a'))) pls) = mset (map (\<lambda>(k, blob). (k, Inr blob)) recs)
    \<and> (\<forall>q. q \<in> live0 \<and> has_page f q \<longrightarrow> has_page f' q \<and> page_at f' q = page_at f q)"
proof -
  have acc: "account live0 a" using allocator_run_account [OF assms(1)] by blast
  obtain pls f' a' ws where w: "write_blob_pages f a recs = Inr (pls, f', a')" "advances live0 (page_budget recs + 1) (a, f) (a', f')"
    "list_all2 (placed live0 a' f') pls ws" "mset ws = mset recs"
    using write_blob_loop_ok [OF acc assms(2), of slab_new "[]" f "[]" "[]"] slab_pending_new by (auto simp: write_blob_pages_def)
  have "mset (map (\<lambda>(k, loc). (k, read_blob_from_loc f' loc (pa_end a'))) pls) = mset (map (\<lambda>(k, blob). (k, Inr blob)) recs)"
    using placed_reads [OF w(3)] advancesD [OF w(2)] w(4) by simp
  with w(1) committed_kept [OF w(2)] show ?thesis by blast
qed

theorem write_blob_pages_reads_back_witness:
  "\<exists>pls f' a'. write_blob_pages [] wit_alloc [([1], [7]), ([2], [8, 9])] = Inr (pls, f', a')
    \<and> mset (map (\<lambda>(k, loc). (k, read_blob_from_loc f' loc (pa_end a'))) pls) = {#([1], Inr [7]), ([2], Inr [8, 9])#}"
proof -
  have "unat (pa_end wit_alloc) + page_budget [([1], [7]), ([2], [8, 9])] + 1 \<le> PAGE_LIMIT"
    by (simp add: wit_alloc_def allocator_new_def Let_def page_budget_def large_span_def PAGE_LIMIT_def)
  from write_blob_pages_reads_back [OF wit_allocator_run this, of "[]"] show ?thesis by auto
qed

lemma write_prepared_placed:
  assumes acc: "account live0 a" and lim: "unat (pa_end a) + chain_budget recs + 1 \<le> PAGE_LIMIT"
  shows "\<exists>pls f' a'. write_prepared_record_pages f a recs = Inr (pls, f', a') \<and> advances live0 (chain_budget recs + 1) (a, f) (a', f')
    \<and> list_all2 (placed live0 a' f') pls recs"
proof -
  have "filled live0 a f recs ({..<0} - fst ` set []) (replicate (length recs) None)" by (simp add: filled_def)
  from write_prepared_loop_ok [OF acc lim waiting_new this] obtain pls f' a' where
    w: "write_prepared_loop recs 0 slab_new [] (replicate (length recs) None) f a = Inr (pls, f', a')"
    "advances live0 (chain_budget recs + 1) (a, f) (a', f')" "filled live0 a' f' recs {..<length recs} pls" by auto
  have "list_all (\<lambda>p. p \<noteq> None) pls" "list_all2 (placed live0 a' f') (map the pls) recs"
    using w(3) by (force simp: filled_def list_all_length list_all2_conv_all_nth)+
  then show ?thesis using w(1,2) by (simp add: write_prepared_record_pages_def)
qed

text \<open>C13: Prepared records are placed in their order and read back: on any allocator that has been through any sequence of
  its operations, write_prepared_record_pages returns one locator per record, in the order of the records, from which
  that record is read, whether it went to a slab or to a chain of pages; and every page of the committed generation
  still has its content.\<close>

theorem write_prepared_reads_back:
  assumes "allocator_run live0 a" and "unat (pa_end a) + chain_budget recs + 1 \<le> PAGE_LIMIT"
  shows "\<exists>pls f' a'. write_prepared_record_pages f a recs = Inr (pls, f', a')
    \<and> map (\<lambda>(k, loc). (k, read_blob_from_loc f' loc (pa_end a'))) pls = map (\<lambda>(k, blob). (k, Inr blob)) recs
    \<and> (\<forall>q. q \<in> live0 \<and> has_page f q \<longrightarrow> has_page f' q \<and> page_at f' q = page_at f q)"
proof -
  have acc: "account live0 a" using allocator_run_account [OF assms(1)] by blast
  obtain pls f' a' where w: "write_prepared_record_pages f a recs = Inr (pls, f', a')" "advances live0 (chain_budget recs + 1) (a, f) (a', f')"
    "list_all2 (placed live0 a' f') pls recs"
    using write_prepared_placed [OF acc assms(2)] by blast
  then show ?thesis using placed_reads [OF w(3)] advancesD [OF w(2)] committed_kept [OF w(2)] by blast
qed

theorem write_prepared_reads_back_witness:
  "\<exists>pls f' a'. write_prepared_record_pages [] wit_alloc [([1], [7]), ([2], [8, 9])] = Inr (pls, f', a')
    \<and> map (\<lambda>(k, loc). (k, read_blob_from_loc f' loc (pa_end a'))) pls = [([1], Inr [7]), ([2], Inr [8, 9])]"
proof -
  have "unat (pa_end wit_alloc) + chain_budget [([1], [7]), ([2], [8, 9])] + 1 \<le> PAGE_LIMIT"
    by (simp add: wit_alloc_def allocator_new_def Let_def chain_budget_def chain_pages_def capacity PAGE_LIMIT_def)
  from write_prepared_reads_back [OF wit_allocator_run this, of "[]"] show ?thesis by auto
qed

section \<open>Walks over any file\<close>

lemma visit_pages_bounded:
  assumes "visit_chunked_blob_pages f pc (\<lambda>pages page _ _. Inr (pages @ [page])) seen p et acc pages = Inr ps"
    "distinct pages" "set pages = set seen" "\<forall>q \<in> set seen. q < pc"
  shows "distinct ps \<and> (\<forall>q \<in> set ps. q < pc)"
  using assms
proof (induction f pc "\<lambda>pages (page :: u64) (_ :: u64) (_ :: bytes). Inr (pages @ [page]) :: u64 list res" seen p et acc pages
    arbitrary: ps rule: visit_chunked_blob_pages.induct)
  case (1 f pc seen p et acc pages)
  note u = "1.prems"(1) [unfolded visit_chunked_blob_pages.simps [of f pc _ seen p et acc pages]]
  from u have nc: "\<not> (pc \<le> p \<or> p \<in> set seen)" by (auto split: if_splits)
  then have c: "p < pc" "p \<notin> set seen" by auto
  from u [unfolded if_not_P [OF nc], THEN rbind_eq_Inr [THEN iffD1]] obtain page where d1: "io_err (mem_pread f (page_offset p) 4096) = Inr page"
    and u1: "(case decode_chunked_blob_page page of None \<Rightarrow> Inl CorruptObject
       | Some (nxt, tot, chunk) \<Rightarrow>
         if (case et of None \<Rightarrow> False | Some t \<Rightarrow> t \<noteq> tot) then Inl CorruptObject
         else rbind (ok_or CorruptObject (checked_add acc (word_of_nat (length chunk)))) (\<lambda>acc'.
           if acc' > tot then Inl CorruptObject
           else rbind (Inr (pages @ [p])) (\<lambda>s'.
             case nxt of
               Some q \<Rightarrow> visit_chunked_blob_pages f pc (\<lambda>pages page _ _. Inr (pages @ [page])) (p # seen) q (Some tot) acc' s'
             | None \<Rightarrow> if acc' = tot then Inr s' else Inl CorruptObject))) = Inr ps"
    by blast
  from u1 obtain nxt tot chunk where d2: "decode_chunked_blob_page page = Some (nxt, tot, chunk)" by (auto split: option.splits)
  note u2 = u1 [unfolded d2 option.case prod.case]
  from u2 have d3: "\<not> (case et of None \<Rightarrow> False | Some t \<Rightarrow> t \<noteq> tot)" by (simp split: if_splits)
  from u2 [unfolded if_not_P [OF d3], THEN rbind_eq_Inr [THEN iffD1]] obtain acc' where
    d4: "ok_or CorruptObject (checked_add acc (word_of_nat (length chunk))) = Inr acc'"
    and u3: "(if acc' > tot then Inl CorruptObject
           else rbind (Inr (pages @ [p])) (\<lambda>s'.
             case nxt of
               Some q \<Rightarrow> visit_chunked_blob_pages f pc (\<lambda>pages page _ _. Inr (pages @ [page])) (p # seen) q (Some tot) acc' s'
             | None \<Rightarrow> if acc' = tot then Inr s' else Inl CorruptObject)) = Inr ps"
    by blast
  from u3 have d5: "\<not> tot < acc'" by (simp split: if_splits)
  note r = u3 [unfolded if_not_P [OF d5] rbind_simps]
  show ?case
  proof (cases nxt)
    case None
    then show ?thesis using r c "1.prems"(2-4) by (auto split: if_splits)
  next
    case (Some q)
    then show ?thesis using "1.hyps" [OF _ d1 d2 refl refl d3 d4 d5 refl Some] r c "1.prems"(2-4) by auto
  qed
qed

text \<open>C39: Following a chain of pages is safe on every file, damaged or not: when chunked_blob_pages returns, it lists
  pages below the page count, none of them twice, so never more than there are; the walk itself takes no more steps than
  that and always returns, a cycle or a stray link being an error.\<close>

theorem chunked_blob_pages_bounded:
  assumes "chunked_blob_pages f start pc = Inr ps"
  shows "distinct ps \<and> (\<forall>q \<in> set ps. q < pc) \<and> length ps \<le> unat pc"
proof -
  have b: "distinct ps" "\<forall>q \<in> set ps. q < pc" using visit_pages_bounded [OF assms [unfolded chunked_blob_pages_def]] by auto
  have "card (unat ` set ps) = length ps" using b(1) by (subst card_image) (auto simp: distinct_card inj_on_def dest: unsigned_word_eqI)
  moreover have "unat ` set ps \<subseteq> {..<unat pc}" using b(2) by (auto simp: word_less_nat_alt)
  then have "card (unat ` set ps) \<le> card {..<unat pc}" by (intro card_mono) auto
  ultimately show ?thesis using b by simp
qed

lemma chain_read_pages: "\<exists>f. write_chain [7] 0 [0] [] = Inr f \<and> chunked_blob_pages f 0 1 = Inr [0]"
proof -
  obtain f where f: "write_chain [7] 0 [0] [] = Inr f" "chain_held f [7] 0 [0]"
    using write_chain_ok [of "[0]" "[7]" 0 "[]"] by (auto simp: PAGE_LIMIT_def)
  have "visit_chunked_blob_pages f 1 (\<lambda>s p _ c. Inr (s @ [p])) [] 0 None 0 [] = Inr (chain_fold (\<lambda>s p _. s @ [p]) [7] 0 [0] [])"
    by (rule visit_chain [OF f(2)]) (simp_all add: PAGE_LIMIT_def)
  then show ?thesis using f(1) by (simp add: chunked_blob_pages_def)
qed

theorem chunked_blob_pages_bounded_witness:
  "\<exists>f. write_chain [7] 0 [0] [] = Inr f \<and> chunked_blob_pages f 0 1 = Inr [0] \<and> distinct [0 :: u64] \<and> length [0 :: u64] \<le> unat (1 :: u64)"
  using chain_read_pages chunked_blob_pages_bounded [where pc = 1 and ps = "[0]"] by blast

end
