(* ===== verification/Loom_Object_Pages.thy ===== *)
theory Loom_Object_Pages
  imports Loom_Frame Loom_Blob_Store
begin

text \<open>
  Objects on disk, the composition of records, frames, pages and allocator: the object writer of
  \<^verbatim>\<open>crates/loom-store/src/record_io.rs\<close> and the object reader of \<^verbatim>\<open>crates/loom-store/src/lib.rs\<close>. The random numbers of the
  nonces are a parameter per object. The reader adds the length of a large run to its first page without a check; an
  overflow is a panic.
\<close>

definition write_record_pages ::
  "Crypto \<Rightarrow> Compressors \<Rightarrow> (nat \<Rightarrow> nat \<Rightarrow> bytes option) \<Rightarrow> bytes \<Rightarrow> PageAllocator \<Rightarrow> (Digest \<times> bytes \<times> Codec) list \<Rightarrow> DekSession option
    \<Rightarrow> (placement list \<times> bytes \<times> PageAllocator) res" where
  "write_record_pages cr cz rng file a objs enc_session =
    rbind (rmap (\<lambda>(i, digest, canonical, codec). prepare_record_frame cr cz (rng i) digest canonical codec enc_session)
             (enumerate 0 objs)) (\<lambda>prepared.
      write_prepared_record_pages file a (map (\<lambda>r. (prf_digest r, prf_frame r)) prepared))"

definition read_object_payload_at_loc ::
  "hash_fn \<Rightarrow> Crypto \<Rightarrow> Compressors \<Rightarrow> bytes \<Rightarrow> RecordLoc \<Rightarrow> u64 \<Rightarrow> Digest \<Rightarrow> DekSession option \<Rightarrow> Algo \<Rightarrow> bytes res" where
  "read_object_payload_at_loc hash cr cz file loc page_count digest dek store_algo =
    (let global = loc_global_page loc
     in if global \<ge> page_count then Inl CorruptObject
        else rbind (io_err (mem_pread file (page_offset global) 4096)) (\<lambda>first.
          if first ! 0 = SLAB_MAGIC then
            rbind (ok_or CorruptObject (read_slab_slot first (rl_slot loc))) (\<lambda>rec.
              decode_record hash cr cz rec digest dek store_algo)
          else if first ! 0 = LARGE_MAGIC then
            rbind (ok_or CorruptObject (large_blob_len first)) (\<lambda>blob_len.
              let pages = large_pages blob_len
              in rbind (ok_or Internal (checked_add global pages)) (\<lambda>run_end.
                 if run_end > page_count then Inl CorruptObject
                 else rbind (io_err (mem_pread file (page_offset global) (unat (pages * PAGE_SIZE)))) (\<lambda>buf.
                   rbind (decode_large buf) (\<lambda>r.
                   rbind (ok_or CorruptObject r) (\<lambda>rec. decode_record hash cr cz rec digest dek store_algo)))))
          else if first ! 0 = CHUNKED_BLOB_MAGIC then
            rbind (read_chunked_blob file global page_count) (\<lambda>rec. decode_record hash cr cz rec digest dek store_algo)
          else Inl CorruptObject))"

section \<open>Reading what was written\<close>

text \<open>On a file below the page limit the object reader decodes exactly what the blob reader returns.\<close>

lemma read_object_of_blob:
  assumes rd: "read_blob_from_loc f loc pc = Inr rec" and pc: "unat pc \<le> PAGE_LIMIT"
  shows "read_object_payload_at_loc hash cr cz f loc pc digest dek algo = decode_record hash cr cz rec digest dek algo"
proof -
  have sat: "\<not> pc < saturating_add g n \<Longrightarrow> checked_add g n = Some (g + n) \<and> \<not> pc < g + n" for g n :: u64
  proof -
    assume "\<not> pc < saturating_add g n"
    then have "min (unat g + unat n) (2 ^ 64 - 1) \<le> unat pc" by (simp add: not_less word_le_nat_alt unat_saturating_add)
    then have le: "unat g + unat n \<le> unat pc" using pc by (simp add: PAGE_LIMIT_def min_def split: if_splits)
    then have "unat g + unat n < 2 ^ 64" using pc by (simp add: PAGE_LIMIT_def)
    then show ?thesis using le by (simp add: checked_add_def not_less word_le_nat_alt unat_word_ariths)
  qed
  show ?thesis using rd sat unfolding read_blob_from_loc_def read_object_payload_at_loc_def Let_def
    by (auto simp: result_simps split: if_split_asm)
qed

lemma record_chain_pages:
  assumes "length rec \<le> length plain + 99"
  shows "chain_pages rec \<le> length plain div 4071 + 2"
proof -
  have "chain_pages rec \<le> (length plain + 99 + 4070) div 4071"
    using assms by (auto simp: chain_pages_def capacity intro!: div_le_mono)
  then show ?thesis by linarith
qed

definition addressed :: "hash_fn \<Rightarrow> Algo \<Rightarrow> Digest \<times> bytes \<times> Codec \<Rightarrow> bool" where
  "addressed hash algo obj \<longleftrightarrow> (case obj of (digest, plain, _) \<Rightarrow>
     d_bytes digest = hash algo plain \<and> length (d_bytes digest) = 32 \<and> length plain < 2 ^ 32)"

definition object_budget :: "(Digest \<times> bytes \<times> Codec) list \<Rightarrow> nat" where
  "object_budget objs = (\<Sum>(_, plain, _) \<leftarrow> objs. length plain div 4071 + 2)"

lemma prepare_all:
  assumes laws: "compress_correct cz" "aead_correct cr" "\<And>i n. \<exists>b. rng i n = Some b \<and> length b = n"
    and objs: "list_all (addressed hash algo) objs" and dek: "map_option ds_dek sess' = map_option ds_dek sess"
  shows "\<exists>prepared. rmap (\<lambda>(i, digest, canonical, codec). prepare_record_frame cr cz (rng i) digest canonical codec sess) (enumerate n objs) = Inr prepared
    \<and> list_all2 (\<lambda>r (digest, plain, _). prf_digest r = d_bytes digest \<and> length (prf_frame r) \<le> length plain + 99
        \<and> decode_record hash cr cz (prf_frame r) digest sess' algo = Inr plain) prepared objs"
  using objs
proof (induction objs arbitrary: n)
  case (Cons obj objs)
  obtain digest plain codec where o: "obj = (digest, plain, codec)" by (cases obj) auto
  have w: "d_bytes digest = hash algo plain" "length (d_bytes digest) = 32" "length plain < 2 ^ 32"
    using Cons.prems unfolding o addressed_def by auto
  obtain rec where r: "encode_record cr cz (rng n) digest plain codec sess = Inr rec" "decode_record hash cr cz rec digest sess' algo = Inr plain"
    "length rec \<le> length plain + 99"
    using record_encodes [where rng = "rng n" and hash = hash and algo = algo and plain = plain, OF laws w dek] by blast
  obtain prepared where p: "rmap (\<lambda>(i, digest, canonical, codec). prepare_record_frame cr cz (rng i) digest canonical codec sess) (enumerate (Suc n) objs) = Inr prepared"
    "list_all2 (\<lambda>r (digest, plain, _). prf_digest r = d_bytes digest \<and> length (prf_frame r) \<le> length plain + 99
        \<and> decode_record hash cr cz (prf_frame r) digest sess' algo = Inr plain) prepared objs"
    using Cons.IH [of "Suc n"] Cons.prems by auto
  have "prepare_record_frame cr cz (rng n) digest plain codec sess = Inr \<lparr>prf_digest = d_bytes digest, prf_frame = rec\<rparr>"
    using r(1) by (simp add: prepare_record_frame_def)
  then show ?case using p r(2,3)
    by (intro exI [of _ "\<lparr>prf_digest = d_bytes digest, prf_frame = rec\<rparr> # prepared"]) (simp add: o)
qed simp

lemma prepared_budget:
  "list_all2 (\<lambda>r (digest, plain, _). length (prf_frame r) \<le> length plain + 99) prepared objs \<Longrightarrow>
    chain_budget (map (\<lambda>r. (prf_digest r, prf_frame r)) prepared) \<le> object_budget objs"
  by (induction rule: list_all2_induct)
    (auto simp: chain_budget_def object_budget_def split: prod.splits dest!: record_chain_pages)

lemma placed_objects:
  assumes "list_all2 (placed live0 a f) pls (map (\<lambda>r. (prf_digest r, prf_frame r)) prepared)" "account live0 a" "unat (pa_end a) \<le> PAGE_LIMIT"
    "list_all2 (\<lambda>r (digest, plain, _). prf_digest r = d_bytes digest \<and> length (prf_frame r) \<le> length plain + 99
        \<and> decode_record hash cr cz (prf_frame r) digest sess algo = Inr plain) prepared objs"
  shows "list_all2 (\<lambda>(k, loc) (digest, plain, _). k = d_bytes digest
      \<and> read_object_payload_at_loc hash cr cz f loc (pa_end a) digest sess algo = Inr plain) pls objs"
  using assms(1,4)
proof (induction prepared arbitrary: pls objs)
  case (Cons r prepared)
  obtain k loc pls' where pl: "pls = (k, loc) # pls'" "placed live0 a f (k, loc) (prf_digest r, prf_frame r)"
    "list_all2 (placed live0 a f) pls' (map (\<lambda>r. (prf_digest r, prf_frame r)) prepared)"
    using Cons.prems(1) by (auto simp: list_all2_Cons2)
  obtain digest plain codec objs' where ob: "objs = (digest, plain, codec) # objs'" "prf_digest r = d_bytes digest"
    "decode_record hash cr cz (prf_frame r) digest sess algo = Inr plain"
    "list_all2 (\<lambda>r (digest, plain, _). prf_digest r = d_bytes digest \<and> length (prf_frame r) \<le> length plain + 99
        \<and> decode_record hash cr cz (prf_frame r) digest sess algo = Inr plain) prepared objs'"
    using Cons.prems(2) by (auto simp: list_all2_Cons1)
  have "k = prf_digest r" "read_blob_from_loc f loc (pa_end a) = Inr (prf_frame r)" using placed_read [OF pl(2) assms(2)] by simp_all
  then show ?case using read_object_of_blob [OF _ assms(3)] ob pl(1) Cons.IH [OF pl(3) ob(4)] by simp
qed simp

end
