(* ===== verification/Spec2Isabelle.thy ===== *)
theory Spec2Isabelle
  imports Loom_Object Loom_Prolly_Tree Loom_Lock Loom_Coordination Loom_Crash Loom_Record Loom_Frame Loom_Page Loom_Alloc_Run Loom_Order_Key Loom_Chunk Loom_Object_Pages
begin

text \<open>
  \<^bold>\<open>Uldren Loom: a verified model of the storage kernel.\<close>

  Uldren Loom is a versioned, content-addressed store with many data facets on top. Values are written in a
  canonical CBOR (\<^verbatim>\<open>crates/loom-codec\<close>), objects are named by the hash of their canonical bytes
  (\<^verbatim>\<open>crates/loom-types\<close>, \<^verbatim>\<open>crates/loom-core/src/object.rs\<close>), maps are kept in history-independent search trees over those
  objects (\<^verbatim>\<open>crates/loom-core/src/prolly.rs\<close>), and a single-file page engine (\<^verbatim>\<open>crates/loom-store\<close>) keeps the objects on
  disk, compressed and encrypted, and recovers them after a crash. Locks, fences and counters
  (\<^verbatim>\<open>crates/loom-core/src/lock.rs\<close>, \<^verbatim>\<open>crates/loom-coordination\<close>) order the writers. The theories model these parts from the
  source, one definition per function under the function's name, and prove what each part promises to the next.

  \<^bold>\<open>Conventions.\<close> Machine integers are words of their width; \<^verbatim>\<open>usize\<close> is \<^typ>\<open>nat\<close>, with the 64-bit bound written out where
  an operation checks it. A fallible function returns \<^typ>\<open>'e + 'a\<close>; the errors of the engine are the codes of
  \<^verbatim>\<open>crates/loom-types/src/error.rs\<close> without their messages, and a panic is the code \<open>Internal\<close>. A function with \<^verbatim>\<open>&mut\<close>
  arguments returns their new values. An ordered map is its list of entries in key order. Functions of other crates
  (hashes, ciphers, key derivation, compressors, random numbers) are parameters, and what the proofs need of them is a
  named hypothesis that a witness discharges for a concrete function.

  \<^bold>\<open>The theories.\<close>

  \<^item> \<open>Loom_Prelude\<close>: words, byte forms, slices, results, ordered maps.
  \<^item> \<open>Loom_Codec\<close> (\<^verbatim>\<open>loom-codec/src/lib.rs\<close>): values, encoder, strict decoder. The decoder accepts exactly the
    canonical form; the recursion of the decoder is bounded by the depth limit of the code.
  \<^item> \<open>Loom_Error\<close> (\<^verbatim>\<open>loom-types/src/error.rs\<close>): codes, structured details and their wire form, with a round trip.
  \<^item> \<open>Loom_Object\<close> (\<^verbatim>\<open>loom-types/src/digest.rs\<close>, \<^verbatim>\<open>loom-core/src/cbor.rs\<close>, \<^verbatim>\<open>loom-core/src/object.rs\<close>): digests, field
    readers, the five object types, canonical form and decoder; addresses identify objects.
  \<^item> \<open>Loom_Object_Store\<close> (\<^verbatim>\<open>loom-core/src/provider.rs\<close>, \<^verbatim>\<open>provider/memory.rs\<close>): the store interface as a locale, the
    in-memory store and the planning overlay as its interpretations.
  \<^item> \<open>Loom_Prolly\<close>, \<open>Loom_Prolly_Spec\<close>, \<open>Loom_Prolly_Refine\<close>, \<open>Loom_Prolly_Read\<close>, \<open>Loom_Prolly_Write\<close>, \<open>Loom_Prolly_Tree\<close>
    (\<^verbatim>\<open>loom-core/src/prolly.rs\<close>): the code of the tree, an abstract tree without digests, the refinement between them,
    and the contract: reads agree with the sorted list of entries, and insert and remove give the root that a build
    from scratch gives. Descents are bounded by the depth limit of the code, levels by the largest byte.
  \<^item> \<open>Loom_Fence\<close>, \<open>Loom_Lock\<close>, \<open>Loom_Coordination\<close> (\<^verbatim>\<open>loom-types/src/fence.rs\<close>, \<^verbatim>\<open>loom-core/src/lock.rs\<close>,
    \<^verbatim>\<open>loom-coordination/src/lib.rs\<close>): fence tokens, the lock coordinator and the single-node coordinator with their
    step relations; mutual exclusion, order of fences, refusal of stale fences, counters that only grow,
    transactions decided once.
  \<^item> \<open>Loom_Varint\<close>, \<open>Loom_Superblock\<close>, \<open>Loom_Backing\<close>, \<open>Loom_Recovery\<close>, \<open>Loom_Crash\<close> (\<^verbatim>\<open>loom-store/src/superblock.rs\<close>,
    \<^verbatim>\<open>journal.rs\<close>, \<^verbatim>\<open>backing.rs\<close>, \<^verbatim>\<open>lib.rs\<close>, \<^verbatim>\<open>record_io.rs\<close>): the two root records, the backing devices, open, recovery
    and commit, and a transition system of commits, key changes, torn writes and reopenings. A committed root set
    is never lost; two windows where the code does lose something are stated as theorems.
  \<^item> \<open>Loom_Keys\<close>, \<open>Loom_Frame\<close> (\<^verbatim>\<open>loom-core/src/keys.rs\<close>, \<^verbatim>\<open>loom-store/src/frame.rs\<close>, \<^verbatim>\<open>record_io.rs\<close>): key wraps and
    encryption metadata, payload frames and object records; a read returns only content with the requested address.
  \<^item> \<open>Loom_Page\<close> (\<^verbatim>\<open>loom-store/src/page.rs\<close>): region table and root catalog, with exact codecs.
  \<^item> \<open>Loom_Pagemap\<close>, \<open>Loom_Alloc\<close>, \<open>Loom_Alloc_Free\<close>, \<open>Loom_Alloc_Run\<close> (\<^verbatim>\<open>loom-store/src/pagemap.rs\<close>): the page allocator
    with its reserves, and the accounting of pages over any sequence of its operations.
  \<^item> \<open>Loom_Record\<close>, \<open>Loom_Blob\<close>, \<open>Loom_Blob_Read\<close>, \<open>Loom_Blob_Store\<close>, \<open>Loom_Object_Pages\<close> (\<^verbatim>\<open>loom-store/src/record.rs\<close>, \<^verbatim>\<open>record_io.rs\<close>): page formats of records,
    the writers and readers over allocator and file, and that what is written is read back; the page source is a
    locale interpreted on the allocator. The last of them composes them with the frames: objects encoded, placed and
    read through the whole stack, which is the property at the end of this theory.
  \<^item> \<open>Loom_Order_Key\<close> (\<^verbatim>\<open>loom-types/src/order_key.rs\<close>): keys between keys; the loop of the code is a partial function
    and is shown to return.
  \<^item> \<open>Loom_Chunk\<close> (\<^verbatim>\<open>loom-core/src/chunk.rs\<close>): content-defined chunking, batch and streaming.

  \<^bold>\<open>Bounds.\<close> Proofs about pages assume files of fewer than \<open>2 ^ 51\<close> pages, which is where the byte offset of a page
  leaves 64 bits. Loops of the code without a bound are total functions with a measure (the walk along a chain of
  pages counts the unseen pages below the page count) or partial functions; no definition uses fuel that the code does
  not have.

  \<^bold>\<open>Not modelled.\<close> The copy-on-write page tree, compaction, garbage collection and the daemon of the store; the engine facade
  of \<^verbatim>\<open>loom-core\<close> with its facets, access control and version control; the command line, bindings, hosted services,
  remote protocol, virtual file systems, query engines and applications of the other crates. They sit above the kernel
  modelled here and are input and output, adapters to third-party libraries, or data models over the engine facade.
  Within the modelled files: metrics, test hooks, diagnostics, memory exhaustion, the concurrency of the process-wide locks (each
  operation runs under its mutex and is one step here), and the caches of the open store.
\<close>

text \<open>C1: Objects survive the whole storage stack. Given objects with their addresses, an allocator that has been through any
  sequence of its operations and room below the page limit, write_record_pages compresses and seals each of them, packs
  the records onto fresh pages and returns; it hands out one locator per object, in order and under its address; the
  object reader returns exactly the object from each locator, under any session with the same data key; and no page of the
  committed generation has changed, so that a reader of the previous root set is not disturbed.\<close>

theorem objects_written_are_read:
  assumes "compress_correct cz" and "aead_correct cr" and "\<And>i n. \<exists>b. rng i n = Some b \<and> length b = n"
    and "list_all (addressed hash algo) objs" and "map_option ds_dek sess' = map_option ds_dek sess"
    and "allocator_run live0 a" and "unat (pa_end a) + object_budget objs + 1 \<le> PAGE_LIMIT"
  shows "\<exists>pls f' a'. write_record_pages cr cz rng f a objs sess = Inr (pls, f', a')
    \<and> list_all2 (\<lambda>(k, loc) (digest, plain, _). k = d_bytes digest
        \<and> read_object_payload_at_loc hash cr cz f' loc (pa_end a') digest sess' algo = Inr plain) pls objs
    \<and> (\<forall>q. q \<in> live0 \<and> has_page f q \<longrightarrow> has_page f' q \<and> page_at f' q = page_at f q)"
proof -
  obtain prepared where p: "rmap (\<lambda>(i, digest, canonical, codec). prepare_record_frame cr cz (rng i) digest canonical codec sess) (enumerate 0 objs) = Inr prepared"
    "list_all2 (\<lambda>r (digest, plain, _). prf_digest r = d_bytes digest \<and> length (prf_frame r) \<le> length plain + 99
        \<and> decode_record hash cr cz (prf_frame r) digest sess' algo = Inr plain) prepared objs"
    using prepare_all [where rng = rng, OF assms(1-5), of 0] by blast
  let ?recs = "map (\<lambda>r. (prf_digest r, prf_frame r)) prepared"
  have b: "chain_budget ?recs \<le> object_budget objs" using p(2) by (intro prepared_budget) (auto elim!: list_all2_mono)
  have acc: "account live0 a" using allocator_run_account [OF assms(6)] by blast
  obtain pls f' a' where w: "write_prepared_record_pages f a ?recs = Inr (pls, f', a')" "advances live0 (chain_budget ?recs + 1) (a, f) (a', f')"
    "list_all2 (placed live0 a' f') pls ?recs"
    using write_prepared_placed [OF acc, of ?recs f] b assms(7) by auto
  have "account live0 a'" "unat (pa_end a') \<le> PAGE_LIMIT" using advancesD [OF w(2)] b assms(7) by auto
  from placed_objects [OF w(3) this p(2)] show ?thesis
    using w(1) p(1) committed_kept [OF w(2)] by (auto simp: write_record_pages_def)
qed

theorem objects_written_are_read_witness:
  "\<exists>pls f' a'. write_record_pages toy_crypto toy_compressors (\<lambda>_ n. Some (replicate n 0)) [] wit_alloc
      [(\<lparr>d_algo = Blake3, d_bytes = replicate 32 0\<rparr>, [1, 2, 3], Deflate)] (Some (session_from_raw [] Aes256Gcm)) = Inr (pls, f', a')
    \<and> map (\<lambda>(k, loc). read_object_payload_at_loc (\<lambda>_ _. replicate 32 0) toy_crypto toy_compressors f' loc (pa_end a')
        \<lparr>d_algo = Blake3, d_bytes = replicate 32 0\<rparr> (Some (session_from_raw [] XChaCha20Poly1305)) Sha256) pls = [Inr [1, 2, 3]]"
proof -
  let ?d = "\<lparr>d_algo = Blake3, d_bytes = replicate 32 0\<rparr>"
  have c: "compress_correct toy_compressors" by (simp add: compress_correct_def toy_compressors_def)
  have o: "list_all (addressed (\<lambda>_ _. replicate 32 0) Sha256) [(?d, [1, 2, 3], Deflate)]" by (simp add: addressed_def)
  have l: "unat (pa_end wit_alloc) + object_budget [(?d, [1, 2, 3], Deflate)] + 1 \<le> PAGE_LIMIT"
    by (simp add: wit_alloc_def allocator_new_def Let_def object_budget_def PAGE_LIMIT_def)
  have s: "map_option ds_dek (Some (session_from_raw [] XChaCha20Poly1305)) = map_option ds_dek (Some (session_from_raw [] Aes256Gcm))"
    by (simp add: session_from_raw_def)
  have r: "\<exists>b. Some (replicate n 0) = Some b \<and> length b = n" for n :: nat by simp
  from objects_written_are_read [where rng = "\<lambda>_ n. Some (replicate n 0)" and f = "[]", OF c toy_crypto_laws(1) r o s wit_allocator_run l]
  show ?thesis by (fastforce simp: list_all2_Cons2)
qed

end
